(* ===== verification/Prelude.thy ===== *)
theory Prelude
  imports Main "HOL-Library.Monad_Syntax" "HOL-Library.Product_Lexorder"
begin

text \<open>
  Shared vocabulary of the development.

  \<^item> A \<^verbatim>\<open>u64\<close> of the program is a \<^typ>\<open>nat\<close> bounded by \<open>u64_max\<close>; the checked
    operations of the Rust standard library carry the bound.
  \<^item> A computation that may panic returns an option whose \<^term>\<open>None\<close> is the panic, so
    \<^verbatim>\<open>.expect(..)\<close> on an \<^verbatim>\<open>Option\<close> is a bind. A Rust \<^verbatim>\<open>Option\<close> result of such a
    computation is an inner option. The parameter \<open>dbg\<close> of a definition says whether debug
    assertions are compiled in.
  \<^item> \<^verbatim>\<open>Iterator::min_by_key\<close>, \<^verbatim>\<open>slice::partition_point\<close>, \<^verbatim>\<open>BTreeSet\<close> and \<^verbatim>\<open>BTreeMap\<close> are
    modelled on lists; the ordered containers are strictly sorted lists.
\<close>

named_theorems checked "the results of checked operations whose arguments are in range"

section \<open>Machine arithmetic\<close>

type_synonym u64 = nat

definition u64_max :: u64 where
  "u64_max = 18446744073709551615"

definition checked_add :: "u64 \<Rightarrow> u64 \<Rightarrow> u64 option" where
  "checked_add a b = (if a + b \<le> u64_max then Some (a + b) else None)"

definition checked_sub :: "u64 \<Rightarrow> u64 \<Rightarrow> u64 option" where
  "checked_sub a b = (if b \<le> a then Some (a - b) else None)"

definition checked_mul :: "u64 \<Rightarrow> u64 \<Rightarrow> u64 option" where
  "checked_mul a b = (if a * b \<le> u64_max then Some (a * b) else None)"

definition saturating_add :: "u64 \<Rightarrow> u64 \<Rightarrow> u64" where
  "saturating_add a b = min (a + b) u64_max"

definition next_multiple_of :: "u64 \<Rightarrow> u64 \<Rightarrow> nat" where
  "next_multiple_of a m = (if a mod m = 0 then a else a + (m - a mod m))"

definition checked_next_multiple_of :: "u64 \<Rightarrow> u64 \<Rightarrow> u64 option" where
  "checked_next_multiple_of a m =
     (if m = 0 then None
      else if a mod m = 0 then Some a
      else checked_add a (m - a mod m))"

definition is_multiple_of :: "u64 \<Rightarrow> u64 \<Rightarrow> bool" where
  "is_multiple_of a m = (if m = 0 then a = 0 else a mod m = 0)"

definition div_ceil :: "u64 \<Rightarrow> u64 \<Rightarrow> u64" where
  "div_ceil a b = (if a mod b = 0 then a div b else a div b + 1)"

section \<open>Panics\<close>

definition debug_assert :: "bool \<Rightarrow> bool \<Rightarrow> unit option" where
  "debug_assert dbg c = (if dbg \<and> \<not> c then None else Some ())"

definition assert_that :: "bool \<Rightarrow> unit option" where
  "assert_that c = (if c then Some () else None)"

section \<open>Iterators and slices\<close>

text \<open>\<^verbatim>\<open>Iterator::min_by_key\<close> keeps the first of several equal minima.\<close>

fun min_by_key :: "('a \<Rightarrow> 'k::linorder) \<Rightarrow> 'a list \<Rightarrow> 'a option" where
  "min_by_key key [] = None"
| "min_by_key key (x # xs) =
     (case min_by_key key xs of
        None \<Rightarrow> Some x
      | Some y \<Rightarrow> if key y < key x then Some y else Some x)"

text \<open>The first element at which a partitioning predicate fails.\<close>

definition partition_point :: "('a \<Rightarrow> bool) \<Rightarrow> 'a list \<Rightarrow> nat" where
  "partition_point p xs = length (takeWhile p xs)"

definition get_at :: "'a list \<Rightarrow> nat \<Rightarrow> 'a option" where
  "get_at xs i = (if i < length xs then Some (xs ! i) else None)"

text \<open>Consecutive pairs, \<^verbatim>\<open>slice::windows(2)\<close>.\<close>

definition windows2 :: "'a list \<Rightarrow> ('a \<times> 'a) list" where
  "windows2 xs = zip xs (tl xs)"

section \<open>Ordered containers\<close>

fun bset_insert :: "'a::linorder \<Rightarrow> 'a list \<Rightarrow> 'a list" where
  "bset_insert x [] = [x]"
| "bset_insert x (y # ys) =
     (if x < y then x # y # ys else if x = y then y # ys else y # bset_insert x ys)"

definition bset_remove :: "'a::linorder \<Rightarrow> 'a list \<Rightarrow> 'a list" where
  "bset_remove x xs = filter (\<lambda>y. y \<noteq> x) xs"

text \<open>\<^verbatim>\<open>set.range(lo..).next()\<close>.\<close>

definition bset_first_from :: "'a::linorder \<Rightarrow> 'a list \<Rightarrow> 'a option" where
  "bset_first_from lo xs = find (\<lambda>x. lo \<le> x) xs"

type_synonym ('k, 'v) bmap = "('k \<times> 'v) list"

fun bmap_insert :: "'k::linorder \<Rightarrow> 'v \<Rightarrow> ('k, 'v) bmap \<Rightarrow> ('k, 'v) bmap" where
  "bmap_insert k v [] = [(k, v)]"
| "bmap_insert k v ((k', v') # m) =
     (if k < k' then (k, v) # (k', v') # m
      else if k = k' then (k, v) # m
      else (k', v') # bmap_insert k v m)"

definition bmap_remove :: "'k::linorder \<Rightarrow> ('k, 'v) bmap \<Rightarrow> ('k, 'v) bmap" where
  "bmap_remove k m = filter (\<lambda>(k', v'). k' \<noteq> k) m"

definition bmap_get :: "'k::linorder \<Rightarrow> ('k, 'v) bmap \<Rightarrow> 'v option" where
  "bmap_get k m = map_of m k"

text \<open>\<^verbatim>\<open>map.range(..k).next_back()\<close> and \<^verbatim>\<open>map.range(k..).next()\<close>.\<close>

definition bmap_last_before :: "'k::linorder \<Rightarrow> ('k, 'v) bmap \<Rightarrow> ('k \<times> 'v) option" where
  "bmap_last_before k m =
     (let before = takeWhile (\<lambda>(k', v'). k' < k) m
      in if before = [] then None else Some (last before))"

definition bmap_first_from :: "'k::linorder \<Rightarrow> ('k, 'v) bmap \<Rightarrow> ('k \<times> 'v) option" where
  "bmap_first_from k m = find (\<lambda>(k', v'). k \<le> k') m"

section \<open>Lemmas on machine arithmetic\<close>

lemma checked_add_Some [simp]:
  "checked_add a b = Some c \<longleftrightarrow> c = a + b \<and> a + b \<le> u64_max"
  by (auto simp: checked_add_def)

lemma checked_add_None [simp]: "checked_add a b = None \<longleftrightarrow> u64_max < a + b"
  by (auto simp: checked_add_def)

lemma checked_sub_Some [simp]:
  "checked_sub a b = Some c \<longleftrightarrow> b \<le> a \<and> c = a - b"
  by (auto simp: checked_sub_def)

lemma checked_sub_None [simp]: "checked_sub a b = None \<longleftrightarrow> a < b"
  by (auto simp: checked_sub_def)

lemma checked_mul_Some [simp]:
  "checked_mul a b = Some c \<longleftrightarrow> c = a * b \<and> a * b \<le> u64_max"
  by (auto simp: checked_mul_def)

lemma checked_mul_None [simp]: "checked_mul a b = None \<longleftrightarrow> u64_max < a * b"
  by (auto simp: checked_mul_def)

lemma checked_eval [checked]:
  "a + b \<le> u64_max \<Longrightarrow> checked_add a b = Some (a + b)"
  "b \<le> a \<Longrightarrow> checked_sub a b = Some (a - b)"
  "a * b \<le> u64_max \<Longrightarrow> checked_mul a b = Some (a * b)"
  by simp_all

lemma checked_next_multiple_of_eq:
  assumes "0 < m" and "a \<le> u64_max"
  shows "checked_next_multiple_of a m =
     (if next_multiple_of a m \<le> u64_max then Some (next_multiple_of a m) else None)"
  using assms by (auto simp: checked_next_multiple_of_def next_multiple_of_def checked_add_def)

lemma next_multiple_of_ge: "a \<le> next_multiple_of a m"
  by (simp add: next_multiple_of_def)

lemma next_multiple_of_less: "0 < m \<Longrightarrow> next_multiple_of a m < a + m"
  by (simp add: next_multiple_of_def)

lemma next_multiple_of_dvd: "0 < m \<Longrightarrow> m dvd next_multiple_of a m"
proof (cases "a mod m = 0")
  case True
  then show ?thesis by (simp add: next_multiple_of_def dvd_eq_mod_eq_0)
next
  case False
  assume m: "0 < m"
  have "a + (m - a mod m) = (a div m) * m + m"
    using m mod_less_divisor [OF m, of a] div_mult_mod_eq [of a m] by linarith
  then have "m dvd a + (m - a mod m)" by simp
  with False show ?thesis by (simp add: next_multiple_of_def)
qed

lemma next_multiple_of_least:
  assumes m: "0 < m" and b: "m dvd b" "a \<le> b"
  shows "next_multiple_of a m \<le> b"
proof (rule ccontr)
  assume "\<not> next_multiple_of a m \<le> b"
  then have less: "b < next_multiple_of a m" by simp
  obtain k where k: "next_multiple_of a m = m * k"
    using next_multiple_of_dvd [OF m] by (rule dvdE)
  obtain j where j: "b = m * j" using b(1) by (rule dvdE)
  from less k j m have "j < k" by simp
  then have "m * (j + 1) \<le> m * k" by (intro mult_le_mono2) simp
  then have "b + m \<le> next_multiple_of a m" using k j by simp
  with next_multiple_of_less [OF m, of a] b(2) show False by simp
qed

lemma next_multiple_of_multiple [simp]: "m dvd a \<Longrightarrow> next_multiple_of a m = a"
  by (simp add: next_multiple_of_def dvd_eq_mod_eq_0)

lemma checked_next_multiple_of_SomeD:
  assumes "checked_next_multiple_of a m = Some b"
  shows "0 < m \<and> a \<le> b \<and> m dvd b \<and> b = next_multiple_of a m"
proof -
  from assms have m: "0 < m" by (cases "m = 0") (auto simp: checked_next_multiple_of_def)
  from assms have b: "b = next_multiple_of a m"
    by (auto simp: checked_next_multiple_of_def next_multiple_of_def split: if_splits)
  with m show ?thesis
    using next_multiple_of_dvd [OF m] next_multiple_of_ge by simp
qed

lemma is_multiple_of_iff [simp]: "is_multiple_of a m \<longleftrightarrow> m dvd a"
  by (auto simp: is_multiple_of_def dvd_eq_mod_eq_0)

lemma div_mult_le_self: "a div m * m \<le> (a::nat)"
  by (rule div_times_less_eq_dividend)

lemma debug_assert_Some [simp]: "debug_assert dbg c = Some u \<longleftrightarrow> (dbg \<longrightarrow> c)"
  by (auto simp: debug_assert_def)

lemma debug_assert_None [simp]: "debug_assert dbg c = None \<longleftrightarrow> dbg \<and> \<not> c"
  by (auto simp: debug_assert_def)

lemma assert_that_Some [simp]: "assert_that c = Some u \<longleftrightarrow> c"
  by (auto simp: assert_that_def)

lemma assert_that_None [simp]: "assert_that c = None \<longleftrightarrow> \<not> c"
  by (auto simp: assert_that_def)

section \<open>Lemmas on iterators\<close>

lemma min_by_key_None [simp]: "min_by_key key xs = None \<longleftrightarrow> xs = []"
  by (cases xs) (auto split: option.splits)

lemma min_by_key_in: "min_by_key key xs = Some m \<Longrightarrow> m \<in> set xs"
  by (induction xs arbitrary: m) (auto split: option.splits if_splits)

lemma min_by_key_le: "min_by_key key xs = Some m \<Longrightarrow> x \<in> set xs \<Longrightarrow> key m \<le> key x"
  by (induction xs arbitrary: m) (fastforce split: option.splits if_splits)+

text \<open>Where no other element has the minimum's key, the minimum is the only candidate.\<close>

lemma min_by_key_unique:
  assumes "m \<in> set xs" and "\<And>x. x \<in> set xs \<Longrightarrow> key m \<le> key x"
    and "\<And>x. x \<in> set xs \<Longrightarrow> key x = key m \<Longrightarrow> x = m"
  shows "min_by_key key xs = Some m"
proof (cases "min_by_key key xs")
  case None
  with assms(1) show ?thesis by auto
next
  case (Some y)
  then have "y \<in> set xs" "key y \<le> key m"
    using assms(1) by (auto dest: min_by_key_in min_by_key_le)
  then have "y = m" using assms(2,3) by (metis order_antisym)
  with Some show ?thesis by simp
qed

lemma min_by_key_cong:
  "(\<And>x. x \<in> set xs \<Longrightarrow> key x = key' x) \<Longrightarrow> min_by_key key xs = min_by_key key' xs"
proof (induction xs)
  case (Cons x xs)
  then have "min_by_key key xs = min_by_key key' xs" by simp
  moreover have "key y = key' y" if "min_by_key key' xs = Some y" for y
    using min_by_key_in [OF that] Cons.prems by simp
  ultimately show ?case using Cons.prems by (simp split: option.splits)
qed simp

lemma map_filter_if: "List.map_filter (\<lambda>x. if P x then Some (f x) else None) xs = map f (filter P xs)"
  by (induction xs) (auto simp: map_filter_simps)

lemma map_filter_eqI: "(\<And>x. x \<in> set xs \<Longrightarrow> f x = g x) \<Longrightarrow> List.map_filter f xs = List.map_filter g xs"
  by (induction xs) (auto simp: map_filter_simps split: option.splits)

lemma set_map_filter: "set (List.map_filter f xs) = {y. \<exists>x \<in> set xs. f x = Some y}"
  by (induction xs) (auto simp: map_filter_simps split: option.splits)

lemma partition_point_le: "partition_point p xs \<le> length xs"
  by (simp add: partition_point_def length_takeWhile_le)

lemma get_at_partition_point:
  "get_at xs (partition_point p xs) = (case dropWhile p xs of [] \<Rightarrow> None | y # ys \<Rightarrow> Some y)"
proof (induction xs)
  case (Cons x xs)
  then show ?case by (cases "p x") (simp_all add: get_at_def partition_point_def split: if_split_asm)
qed (simp add: get_at_def partition_point_def)

lemma windows2_Cons_Cons [simp]: "windows2 (x # y # ys) = (x, y) # windows2 (y # ys)"
  by (simp add: windows2_def)

lemma windows2_short [simp]: "windows2 [] = []" "windows2 [x] = []"
  by (simp_all add: windows2_def)

section \<open>Lemmas on ordered containers\<close>

lemma set_bset_insert [simp]: "set (bset_insert x xs) = insert x (set xs)"
  by (induction xs) auto

lemma sorted_bset_insert:
  "sorted_wrt (<) xs \<Longrightarrow> sorted_wrt (<) (bset_insert x xs)"
  by (induction xs) auto

lemma set_bset_remove [simp]: "set (bset_remove x xs) = set xs - {x}"
  by (auto simp: bset_remove_def)

lemma sorted_bset_remove:
  "sorted_wrt (<) xs \<Longrightarrow> sorted_wrt (<) (bset_remove x xs)"
  by (simp add: bset_remove_def sorted_wrt_filter)

lemma bset_first_from_Some:
  assumes "sorted_wrt (<) (xs :: 'a::linorder list)"
  shows "bset_first_from lo xs = Some x \<longleftrightarrow>
     x \<in> set xs \<and> lo \<le> x \<and> (\<forall>y \<in> set xs. lo \<le> y \<longrightarrow> x \<le> y)"
  using assms
  by (induction xs) (auto simp: bset_first_from_def dest: order_antisym)

lemma bset_first_from_None: "bset_first_from lo xs = None \<longleftrightarrow> (\<forall>y \<in> set xs. \<not> lo \<le> y)"
  by (auto simp: bset_first_from_def find_None_iff)

lemma bset_sorted_unique:
  assumes "sorted_wrt (<) (xs :: 'a::linorder list)" "sorted_wrt (<) ys" "set xs = set ys"
  shows "xs = ys"
  using assms by (metis strict_sorted_equal)

abbreviation bmap_sorted :: "('k::linorder, 'v) bmap \<Rightarrow> bool" where
  "bmap_sorted m \<equiv> sorted_wrt (<) (map fst m)"

lemma set_bmap_insert:
  "bmap_sorted m \<Longrightarrow> set (bmap_insert k v m) = insert (k, v) {p \<in> set m. fst p \<noteq> k}"
  by (induction k v m rule: bmap_insert.induct) auto

lemma sorted_bmap_insert: "bmap_sorted m \<Longrightarrow> bmap_sorted (bmap_insert k v m)"
proof (induction k v m rule: bmap_insert.induct)
  case (2 k v k' v' m)
  have "\<forall>x \<in> fst ` set (bmap_insert k v m). k' < x" if "k' < k"
    using that 2 by (auto simp: set_bmap_insert)
  with 2 show ?case by auto
qed simp

lemma set_bmap_remove [simp]: "set (bmap_remove k m) = {p \<in> set m. fst p \<noteq> k}"
  by (auto simp: bmap_remove_def)

lemma sorted_bmap_remove: "bmap_sorted m \<Longrightarrow> bmap_sorted (bmap_remove k m)"
  by (simp add: bmap_remove_def sorted_wrt_map sorted_wrt_filter)

lemma bmap_sorted_distinct: "bmap_sorted m \<Longrightarrow> distinct (map fst m)"
  by (simp add: strict_sorted_iff)

lemma bmap_get_Some: "bmap_sorted m \<Longrightarrow> bmap_get k m = Some v \<longleftrightarrow> (k, v) \<in> set m"
  by (simp add: bmap_get_def map_of_eq_Some_iff bmap_sorted_distinct)

lemma bmap_get_None: "bmap_get k m = None \<longleftrightarrow> k \<notin> fst ` set m"
  by (simp add: bmap_get_def map_of_eq_None_iff)

lemma bmap_first_from_cases:
  assumes "bmap_sorted m"
  obtains (None) "bmap_first_from k m = None" "\<And>x v. (x, v) \<in> set m \<Longrightarrow> x < k"
  | (Some) k' v where "bmap_first_from k m = Some (k', v)" "(k', v) \<in> set m" "k \<le> k'"
      "\<And>x w. (x, w) \<in> set m \<Longrightarrow> k \<le> x \<Longrightarrow> k' \<le> x"
proof (cases "bmap_first_from k m")
  case n: None
  then show thesis
    by (intro None) (fastforce simp: bmap_first_from_def find_None_iff not_le)+
next
  case s: (Some p)
  have "p \<in> set m \<and> k \<le> fst p \<and> (\<forall>q \<in> set m. k \<le> fst q \<longrightarrow> fst p \<le> fst q)"
    using s assms by (induction m) (auto simp: bmap_first_from_def less_imp_le split: if_splits)
  with s show thesis by (intro Some [of "fst p" "snd p"]) auto
qed

lemma bmap_last_before_cases:
  assumes "bmap_sorted m"
  obtains (None) "bmap_last_before k m = None" "\<And>x v. (x, v) \<in> set m \<Longrightarrow> k \<le> x"
  | (Some) k' v where "bmap_last_before k m = Some (k', v)" "(k', v) \<in> set m" "k' < k"
      "\<And>x w. (x, w) \<in> set m \<Longrightarrow> x < k \<Longrightarrow> x \<le> k'"
proof -
  define b where "b = takeWhile (\<lambda>(k', v'). k' < k) m"
  have b: "set b = {p \<in> set m. fst p < k}" "sorted_wrt (<) (map fst b)"
    using assms unfolding b_def by (induction m) auto
  show thesis
  proof (cases "b = []")
    case True
    then have none: "bmap_last_before k m = None" by (simp add: bmap_last_before_def b_def [symmetric])
    have "k \<le> x" if "(x, v) \<in> set m" for x v
    proof (rule ccontr)
      assume "\<not> k \<le> x"
      then have "(x, v) \<in> set b" using that b(1) by simp
      with True show False by simp
    qed
    then show thesis using none by (intro None)
  next
    case False
    have le: "fst q \<le> fst (last b)" if "q \<in> set b" for q
      using that b(2) False by (induction b) (auto simp: less_imp_le split: if_splits)
    have "last b \<in> set b" using False by simp
    moreover have "bmap_last_before k m = Some (last b)"
      using False by (simp add: bmap_last_before_def b_def [symmetric])
    ultimately show thesis
      using le b(1) by (intro Some [of "fst (last b)" "snd (last b)"]) force+
  qed
qed

section \<open>Scans for a best index\<close>

text \<open>A loop over \<^verbatim>\<open>iter().enumerate()\<close> that keeps the index of the eligible element with the
  smallest key, replacing it only by a strictly smaller one.\<close>

definition scan_min :: "('a \<Rightarrow> bool) \<Rightarrow> ('a \<Rightarrow> 'k::linorder) \<Rightarrow> 'a list \<Rightarrow> nat option" where
  "scan_min elig key xs =
     fold (\<lambda>(i, x) best.
             if elig x \<and> (case best of None \<Rightarrow> True | Some b \<Rightarrow> key x < key (xs ! b))
             then Some i else best)
          (enumerate 0 xs) None"

definition first_min :: "('a \<Rightarrow> bool) \<Rightarrow> ('a \<Rightarrow> 'k::linorder) \<Rightarrow> 'a list \<Rightarrow> nat option \<Rightarrow> bool" where
  "first_min elig key xs r =
     (case r of
        None \<Rightarrow> \<forall>x \<in> set xs. \<not> elig x
      | Some i \<Rightarrow> i < length xs \<and> elig (xs ! i)
          \<and> (\<forall>j < length xs. elig (xs ! j) \<longrightarrow>
               key (xs ! i) \<le> key (xs ! j) \<and> (key (xs ! j) = key (xs ! i) \<longrightarrow> i \<le> j)))"

lemma first_min_snoc:
  assumes "first_min elig key xs r"
  shows "first_min elig key (xs @ [x])
    (if elig x \<and> (case r of None \<Rightarrow> True | Some b \<Rightarrow> key x < key (xs ! b))
     then Some (length xs) else r)"
proof (cases r)
  case None
  then show ?thesis using assms by (auto simp: first_min_def nth_append)
next
  case (Some i)
  then show ?thesis
    using assms by (auto simp: first_min_def nth_append less_Suc_eq intro: less_imp_le order.trans)
qed

lemma scan_min_first: "first_min elig key xs (scan_min elig key xs)"
proof -
  define step where "step = (\<lambda>(i, x) best.
    if elig x \<and> (case best of None \<Rightarrow> True | Some b \<Rightarrow> key x < key (xs ! b))
    then Some i else best)"
  have "first_min elig key ys (fold step (enumerate 0 ys) None)" if "xs = ys @ zs" for ys zs
    using that
  proof (induction ys arbitrary: zs rule: rev_induct)
    case Nil
    then show ?case by (simp add: first_min_def)
  next
    case (snoc x ys)
    define r where "r = fold step (enumerate 0 ys) None"
    have ih: "first_min elig key ys r" using snoc by (simp add: r_def)
    have "xs ! b = ys ! b" if "r = Some b" for b
      using ih that snoc.prems by (simp add: first_min_def nth_append)
    then have "step (length ys, x) r =
        (if elig x \<and> (case r of None \<Rightarrow> True | Some b \<Rightarrow> key x < key (ys ! b))
         then Some (length ys) else r)"
      by (cases r) (simp_all add: step_def)
    then show ?case
      using first_min_snoc [OF ih, of x] by (simp add: enumerate_append_eq r_def)
  qed
  from this [of xs "[]"] show ?thesis by (simp add: scan_min_def step_def)
qed

lemma scan_min_None: "scan_min elig key xs = None \<longleftrightarrow> (\<forall>x \<in> set xs. \<not> elig x)"
  using scan_min_first [of elig key xs]
  by (cases "scan_min elig key xs") (auto simp: first_min_def)

lemma scan_min_Some:
  assumes "scan_min elig key xs = Some i"
  shows "i < length xs" "elig (xs ! i)"
    "\<And>j. j < length xs \<Longrightarrow> elig (xs ! j) \<Longrightarrow> key (xs ! i) \<le> key (xs ! j)"
    "\<And>j. j < length xs \<Longrightarrow> elig (xs ! j) \<Longrightarrow> key (xs ! j) = key (xs ! i) \<Longrightarrow> i \<le> j"
  using scan_min_first [of elig key xs] assms by (auto simp: first_min_def)

section \<open>Families of disjoint sets\<close>

fun disjoint_all :: "'a set list \<Rightarrow> bool" where
  "disjoint_all [] = True"
| "disjoint_all (S # Ss) = (S \<inter> \<Union>(set Ss) = {} \<and> disjoint_all Ss)"

lemma disjoint_all_card:
  assumes "\<forall>S \<in> set Ss. finite S"
  shows "card (\<Union>(set Ss)) \<le> sum_list (map card Ss)"
    and "disjoint_all Ss \<longleftrightarrow> card (\<Union>(set Ss)) = sum_list (map card Ss)"
proof -
  have "card (\<Union>(set Ss)) \<le> sum_list (map card Ss)
     \<and> (disjoint_all Ss \<longleftrightarrow> card (\<Union>(set Ss)) = sum_list (map card Ss))"
    using assms
  proof (induction Ss)
    case (Cons S Ss)
    have fin: "finite S" "finite (\<Union>(set Ss))" using Cons.prems by auto
    have "card (S \<union> \<Union>(set Ss)) + card (S \<inter> \<Union>(set Ss)) = card S + card (\<Union>(set Ss))"
      using card_Un_Int [OF fin] by simp
    moreover have "S \<inter> \<Union>(set Ss) = {} \<longleftrightarrow> card (S \<inter> \<Union>(set Ss)) = 0"
      using fin by simp
    moreover have "card (\<Union>(set Ss)) \<le> sum_list (map card Ss)"
      "disjoint_all Ss \<longleftrightarrow> card (\<Union>(set Ss)) = sum_list (map card Ss)"
      using Cons by auto
    ultimately show ?case
      unfolding disjoint_all.simps list.set list.map sum_list.Cons Union_insert by linarith
  qed simp
  then show "card (\<Union>(set Ss)) \<le> sum_list (map card Ss)"
    "disjoint_all Ss \<longleftrightarrow> card (\<Union>(set Ss)) = sum_list (map card Ss)" by auto
qed

lemma disjoint_all_nth:
  assumes "disjoint_all Ss" "i < length Ss" "j < length Ss" "i \<noteq> j"
  shows "Ss ! i \<inter> Ss ! j = {}"
  using assms
proof (induction Ss arbitrary: i j)
  case (Cons S Ss)
  have "Ss ! k \<subseteq> \<Union>(set Ss)" if "k < length Ss" for k
    using that by (simp add: Union_upper)
  then have "S \<inter> Ss ! k = {}" if "k < length Ss" for k
    using that Cons.prems(1) by (metis disjoint_all.simps(2) inf_mono le_bot order_refl)
  then show ?case using Cons by (cases i; cases j) (simp_all add: Int_commute)
qed simp

end
