(* ===== verification/Core_Types.thy ===== *)
theory Core_Types
  imports Prelude
begin

text \<open>
  Shared value types of \<^verbatim>\<open>hdf5-pure-core\<close>: byte lengths, element and slot counts
  (\<^verbatim>\<open>quantity/mod.rs\<close>), stored and physical addresses with their base (\<^verbatim>\<open>address.rs\<close>), the
  field widths (\<^verbatim>\<open>width.rs\<close>), checked address ranges (\<^verbatim>\<open>address_range.rs\<close>), file ranges and
  regions (\<^verbatim>\<open>region.rs\<close>), file-space settings (\<^verbatim>\<open>file_space_info.rs\<close>) and the userblock size.

  The newtypes around \<^verbatim>\<open>u64\<close> are type synonyms of \<^typ>\<open>u64\<close>. A \<^verbatim>\<open>usize\<close> is bounded by the
  parameter \<open>usize_max\<close> of the definitions that convert to it, as it depends on the platform.
\<close>

section \<open>Errors\<close>

datatype format_error =
    OffsetOverflow u64 u64
  | AddressBelowBase u64 u64
  | ValueTooLargeForPlatform u64 string
  | FileRegionLengthMismatch u64 u64
  | InsufficientRegion u64 u64 u64 u64
  | InvalidOffsetSize nat
  | InvalidLengthSize nat
  | InvalidFileSpacePageSize u64
  | InvalidUserblockSize u64
  | UnexpectedEof nat nat
  | AddressTooLarge u64 nat
  | DefinedAddressIsUndefined u64 nat
  | LengthTooLarge u64 nat
  | ChecksumMismatch nat nat
  | UnsupportedFileSpaceInfoVersion nat
  | InvalidFileSpaceStrategy nat
  | InvalidFreeSpaceManager string
  | InvalidLinkInfoVersion nat
  | InvalidAttributeInfoVersion nat
  | UnsupportedVersion nat
  | SuperblockStatusFlagsTooWide nat
  | SignatureNotFound
  | InvalidGroupLeafNodeK
  | Internal string

definition ok_or :: "'e \<Rightarrow> 'a option \<Rightarrow> 'e + 'a" where
  "ok_or e m = (case m of None \<Rightarrow> Inl e | Some x \<Rightarrow> Inr x)"

definition ok :: "'e + 'a \<Rightarrow> 'a option" where
  "ok r = (case r of Inl _ \<Rightarrow> None | Inr x \<Rightarrow> Some x)"

text \<open>The operator \<^verbatim>\<open>?\<close> on a fallible step that may also panic.\<close>

definition try_bind :: "('e + 'a) option \<Rightarrow> ('a \<Rightarrow> ('e + 'b) option) \<Rightarrow> ('e + 'b) option" where
  "try_bind m f = do { r \<leftarrow> m; case r of Inl e \<Rightarrow> Some (Inl e) | Inr x \<Rightarrow> f x }"

lemma try_bind_simps [simp]:
  "try_bind None f = None" "try_bind (Some (Inl e)) f = Some (Inl e)" "try_bind (Some (Inr x)) f = f x"
  by (simp_all add: try_bind_def)

section \<open>Quantities\<close>

type_synonym byte_length = u64
type_synonym element_count = u64
type_synonym element_size = u64
type_synonym chunk_slot = u64
type_synonym slot_count = u64

text \<open>The \<^verbatim>\<open>NonZero..::new\<close> constructors share one body.\<close>

definition nonzero_new :: "u64 \<Rightarrow> u64 option" where
  "nonzero_new value = (if value = 0 then None else Some value)"

definition bl_elements :: "byte_length \<Rightarrow> element_size \<Rightarrow> element_count option" where
  "bl_elements self esize =
     (if is_multiple_of self esize then Some (self div esize) else None)"

definition es_byte_length :: "element_size \<Rightarrow> element_count \<Rightarrow> byte_length option" where
  "es_byte_length self count = checked_mul self count"

definition ec_chunks :: "element_count \<Rightarrow> element_count \<Rightarrow> slot_count" where
  "ec_chunks self chunk = div_ceil self chunk"

definition slot_checked_add :: "chunk_slot \<Rightarrow> slot_count \<Rightarrow> chunk_slot option" where
  "slot_checked_add self count = checked_add self count"

definition slot_distance_from :: "chunk_slot \<Rightarrow> chunk_slot \<Rightarrow> slot_count option" where
  "slot_distance_from self earlier = checked_sub self earlier"

definition to_usize :: "nat \<Rightarrow> u64 \<Rightarrow> format_error + nat" where
  "to_usize usize_max value =
     (if value \<le> usize_max then Inr value
      else Inl (ValueTooLargeForPlatform value ''usize''))"

section \<open>Field widths\<close>

datatype field_width = Two | Four | Eight

fun width_get :: "field_width \<Rightarrow> nat" where
  "width_get Two = 2"
| "width_get Four = 4"
| "width_get Eight = 8"

definition offset_width_try_from :: "nat \<Rightarrow> format_error + field_width" where
  "offset_width_try_from sz =
     (if sz = 2 then Inr Two else if sz = 4 then Inr Four
      else if sz = 8 then Inr Eight else Inl (InvalidOffsetSize sz))"

definition length_width_try_from :: "nat \<Rightarrow> format_error + field_width" where
  "length_width_try_from sz =
     (if sz = 2 then Inr Two else if sz = 4 then Inr Four
      else if sz = 8 then Inr Eight else Inl (InvalidLengthSize sz))"

section \<open>Addresses\<close>

type_synonym stored_address = u64
type_synonym physical_address = u64
type_synonym base_address = u64

text \<open>The three operations of the trait \<^verbatim>\<open>Address\<close>, shared by both coordinate systems.\<close>

definition addr_checked_add :: "u64 \<Rightarrow> u64 \<Rightarrow> format_error + u64" where
  "addr_checked_add self len = ok_or (OffsetOverflow self len) (checked_add self len)"

definition addr_checked_sub :: "u64 \<Rightarrow> u64 \<Rightarrow> u64 option" where
  "addr_checked_sub self len = checked_sub self len"

definition addr_distance_from :: "u64 \<Rightarrow> u64 \<Rightarrow> u64 option" where
  "addr_distance_from self earlier = checked_sub self earlier"

datatype decoded_address = Defined stored_address | Undefined

fun undefined_address :: "field_width \<Rightarrow> stored_address" where
  "undefined_address Two = 65535"
| "undefined_address Four = 4294967295"
| "undefined_address Eight = u64_max"

definition is_undefined :: "stored_address \<Rightarrow> field_width \<Rightarrow> bool" where
  "is_undefined self offset_width = (self = undefined_address offset_width)"

definition base_resolve :: "base_address \<Rightarrow> stored_address \<Rightarrow> format_error + physical_address" where
  "base_resolve self stored = ok_or (OffsetOverflow stored self) (checked_add stored self)"

definition base_relative :: "base_address \<Rightarrow> physical_address \<Rightarrow> format_error + stored_address" where
  "base_relative self at = ok_or (AddressBelowBase at self) (checked_sub at self)"

section \<open>Address ranges\<close>

record address_range =
  ar_start :: u64
  ar_end :: u64

definition range_new :: "u64 \<Rightarrow> u64 \<Rightarrow> format_error + address_range" where
  "range_new start len =
     (case addr_checked_add start len of
        Inl e \<Rightarrow> Inl e
      | Inr stop \<Rightarrow> Inr \<lparr>ar_start = start, ar_end = stop\<rparr>)"

definition range_length :: "address_range \<Rightarrow> u64 option" where
  "range_length self = addr_distance_from (ar_end self) (ar_start self)"

definition range_is_empty :: "address_range \<Rightarrow> bool" where
  "range_is_empty self = (ar_start self = ar_end self)"

definition range_contains :: "address_range \<Rightarrow> address_range \<Rightarrow> bool" where
  "range_contains self required =
     (ar_start self \<le> ar_start required \<and> ar_end required \<le> ar_end self)"

definition range_overlaps :: "address_range \<Rightarrow> address_range \<Rightarrow> bool" where
  "range_overlaps self other =
     (\<not> range_is_empty self \<and> \<not> range_is_empty other
      \<and> ar_start self < ar_end other \<and> ar_start other < ar_end self)"

definition range_intersection :: "address_range \<Rightarrow> address_range \<Rightarrow> address_range option" where
  "range_intersection self other =
     (let start = max (ar_start self) (ar_start other);
          stop = min (ar_end self) (ar_end other)
      in if start < stop then Some \<lparr>ar_start = start, ar_end = stop\<rparr> else None)"

definition range_adjoins :: "address_range \<Rightarrow> address_range \<Rightarrow> bool" where
  "range_adjoins self other = (ar_end self = ar_start other \<or> ar_end other = ar_start self)"

definition range_precedes :: "address_range \<Rightarrow> address_range \<Rightarrow> bool" where
  "range_precedes self other = (ar_end self \<le> ar_start other)"

section \<open>File regions\<close>

record 'b file_region =
  fr_range :: address_range
  fr_bytes :: "'b list"

definition file_range_length :: "address_range \<Rightarrow> u64" where
  "file_range_length self = ar_end self - ar_start self"

definition region_new :: "address_range \<Rightarrow> 'b list \<Rightarrow> format_error + 'b file_region" where
  "region_new rng bytes =
     (if file_range_length rng \<noteq> length bytes
      then Inl (FileRegionLengthMismatch (file_range_length rng) (length bytes))
      else Inr \<lparr>fr_range = rng, fr_bytes = bytes\<rparr>)"

text \<open>\<^verbatim>\<open>slice::get(start..end)\<close>.\<close>

definition slice_get :: "'b list \<Rightarrow> nat \<Rightarrow> nat \<Rightarrow> 'b list option" where
  "slice_get bytes start stop =
     (if start \<le> stop \<and> stop \<le> length bytes
      then Some (take (stop - start) (drop start bytes)) else None)"

definition subregion ::
  "nat \<Rightarrow> 'b file_region \<Rightarrow> address_range \<Rightarrow> format_error + 'b file_region" where
  "subregion usize_max self required =
     (let rng = fr_range self;
          error = InsufficientRegion (ar_start required) (file_range_length required)
                    (ar_start rng) (file_range_length rng)
      in if \<not> range_contains rng required then Inl error
         else
           let start = ar_start required - ar_start rng;
               stop = ar_end required - ar_start rng
           in case (if start \<le> usize_max \<and> stop \<le> usize_max
                    then slice_get (fr_bytes self) start stop else None) of
                None \<Rightarrow> Inl error
              | Some bytes \<Rightarrow> Inr \<lparr>fr_range = required, fr_bytes = bytes\<rparr>)"

section \<open>File-space settings\<close>

datatype file_space_strategy = FsmAggr | Page | Aggr | NoStrategy

type_synonym page_size = u64

abbreviation page_size_min :: page_size where "page_size_min \<equiv> 512"

abbreviation page_size_max :: page_size where "page_size_max \<equiv> 1073741824"

abbreviation page_size_default :: page_size where "page_size_default \<equiv> 4096"

definition page_size_try_from :: "u64 \<Rightarrow> format_error + page_size" where
  "page_size_try_from sz =
     (if page_size_min \<le> sz \<and> sz \<le> page_size_max then Inr sz
      else Inl (InvalidFileSpacePageSize sz))"

record file_space_settings =
  fss_strategy :: file_space_strategy
  fss_persist :: bool
  fss_threshold :: byte_length
  fss_page_size :: page_size

definition settings_new :: "file_space_strategy \<Rightarrow> file_space_settings" where
  "settings_new strategy =
     \<lparr>fss_strategy = strategy, fss_persist = False, fss_threshold = 1,
      fss_page_size = page_size_default\<rparr>"

definition with_persistence :: "file_space_settings \<Rightarrow> bool \<Rightarrow> file_space_settings" where
  "with_persistence self persist =
     self\<lparr>fss_persist := (case fss_strategy self of
        FsmAggr \<Rightarrow> persist | Page \<Rightarrow> persist | Aggr \<Rightarrow> False | NoStrategy \<Rightarrow> False)\<rparr>"

definition with_threshold :: "file_space_settings \<Rightarrow> u64 \<Rightarrow> file_space_settings" where
  "with_threshold self threshold =
     self\<lparr>fss_threshold := (case fss_strategy self of
        FsmAggr \<Rightarrow> threshold | Page \<Rightarrow> threshold | Aggr \<Rightarrow> 1 | NoStrategy \<Rightarrow> 1)\<rparr>"

definition with_page_size :: "file_space_settings \<Rightarrow> page_size \<Rightarrow> file_space_settings" where
  "with_page_size self sz = self\<lparr>fss_page_size := sz\<rparr>"

text \<open>A page size that the program can hold: its only constructors are the constants and
  \<^const>\<open>page_size_try_from\<close>.\<close>

definition valid_page_size :: "page_size \<Rightarrow> bool" where
  "valid_page_size p = (page_size_min \<le> p \<and> p \<le> page_size_max)"

text \<open>\<^verbatim>\<open>u64::is_power_of_two\<close>.\<close>

definition is_power_of_two :: "u64 \<Rightarrow> bool" where
  "is_power_of_two n = list_ex (\<lambda>k. n = 2 ^ k) [0..<64]"

definition userblock_size_try_from :: "u64 \<Rightarrow> format_error + u64" where
  "userblock_size_try_from sz =
     (if sz = 0 \<or> (512 \<le> sz \<and> is_power_of_two sz) then Inr sz
      else Inl (InvalidUserblockSize sz))"

section \<open>Lemmas\<close>

lemma ok_or_simps [simp]: "ok_or e (Some x) = Inr x" "ok_or e None = Inl e"
  by (simp_all add: ok_or_def)

lemma ok_or_Inr [simp]: "ok_or e m = Inr x \<longleftrightarrow> m = Some x"
  by (auto simp: ok_or_def split: option.splits)

lemma ok_or_Inl [simp]: "ok_or e m = Inl e' \<longleftrightarrow> m = None \<and> e' = e"
  by (auto simp: ok_or_def split: option.splits)

lemma ok_simps [simp]: "ok (Inr x) = Some x" "ok (Inl e) = None"
  by (simp_all add: ok_def)

lemma ok_Some [simp]: "ok r = Some x \<longleftrightarrow> r = Inr x"
  by (cases r) auto

lemma addr_checked_add_Inr [simp]:
  "addr_checked_add a n = Inr b \<longleftrightarrow> b = a + n \<and> a + n \<le> u64_max"
  by (simp add: addr_checked_add_def)

lemma addr_checked_add_eval [checked]: "a + n \<le> u64_max \<Longrightarrow> addr_checked_add a n = Inr (a + n)"
  by simp

lemma addr_checked_add_Inl:
  "addr_checked_add a n = Inl e \<longleftrightarrow> u64_max < a + n \<and> e = OffsetOverflow a n"
  by (simp add: addr_checked_add_def)

lemma addr_distance_from_Some [simp]:
  "addr_distance_from a b = Some d \<longleftrightarrow> b \<le> a \<and> d = a - b"
  by (simp add: addr_distance_from_def)

lemma valid_page_size_pos: "valid_page_size p \<Longrightarrow> 0 < p"
  by (simp add: valid_page_size_def)

lemma page_size_try_from_valid [simp]:
  "page_size_try_from n = Inr p \<longleftrightarrow> p = n \<and> valid_page_size n"
  by (auto simp: page_size_try_from_def valid_page_size_def)

lemma base_resolve_relative:
  "base_resolve b s = Inr p \<longleftrightarrow> base_relative b p = Inr s \<and> p \<le> u64_max"
  by (auto simp: base_resolve_def base_relative_def)

lemma range_intersection_Some:
  "range_intersection a b = Some c \<longleftrightarrow>
     max (ar_start a) (ar_start b) < min (ar_end a) (ar_end b)
     \<and> c = \<lparr>ar_start = max (ar_start a) (ar_start b), ar_end = min (ar_end a) (ar_end b)\<rparr>"
  by (auto simp: range_intersection_def Let_def)

lemma slice_get_length:
  "slice_get xs i j = Some ys \<Longrightarrow> length ys = j - i"
  by (auto simp: slice_get_def split: if_splits)

end
