(* ===== verification/Extents.thy ===== *)
theory Extents
  imports Core_Types
begin

text \<open>
  Nonempty stored-address extents (\<^verbatim>\<open>hdf5-pure-space/src/extent.rs\<close>, on top of
  \<^verbatim>\<open>NonEmptyRange\<close> of \<^verbatim>\<open>hdf5-pure-core/src/address_range.rs\<close>).

  The fields of \<^verbatim>\<open>Extent\<close> are private and its constructors reject empty and overflowing
  ranges, so every extent of the program satisfies \<open>wf_extent\<close>. Under it the sum in
  \<^verbatim>\<open>end\<close> and the difference in \<^verbatim>\<open>AddressRange::length\<close> are representable, which
  \<open>ext_end_checked\<close> and \<open>ext_range_length\<close> state; the two accessors are therefore modelled by
  the plain operations.

  The abstraction of an extent is the set \<open>ext_bytes\<close> of the addresses it holds.
\<close>

record extent =
  ext_start :: stored_address
  ext_len :: byte_length

definition ext_end :: "extent \<Rightarrow> stored_address" where
  "ext_end self = ext_start self + ext_len self"

definition ner_new :: "stored_address \<Rightarrow> u64 \<Rightarrow> format_error + extent" where
  "ner_new start len =
     (case addr_checked_add start len of
        Inl e \<Rightarrow> Inl e
      | Inr _ \<Rightarrow> Inr \<lparr>ext_start = start, ext_len = len\<rparr>)"

definition ext_new :: "stored_address \<Rightarrow> byte_length \<Rightarrow> extent option" where
  "ext_new start len = do { n \<leftarrow> nonzero_new len; ok (ner_new start n) }"

definition ext_between :: "stored_address \<Rightarrow> stored_address \<Rightarrow> extent option" where
  "ext_between start stop = do { d \<leftarrow> addr_distance_from stop start; ext_new start d }"

definition ext_range :: "extent \<Rightarrow> address_range" where
  "ext_range self = \<lparr>ar_start = ext_start self, ar_end = ext_end self\<rparr>"

definition ext_adjoins :: "extent \<Rightarrow> extent \<Rightarrow> bool" where
  "ext_adjoins self other = range_adjoins (ext_range self) (ext_range other)"

definition ext_adjoins_within :: "extent \<Rightarrow> extent \<Rightarrow> byte_length \<Rightarrow> bool" where
  "ext_adjoins_within self other unit =
     ((ext_end self = ext_start other \<and> \<not> is_multiple_of (ext_start other) unit)
      \<or> (ext_start self = ext_end other \<and> \<not> is_multiple_of (ext_end other) unit))"

definition ext_adjoins_whole_unit :: "extent \<Rightarrow> extent \<Rightarrow> byte_length \<Rightarrow> bool" where
  "ext_adjoins_whole_unit self other unit =
     (unit \<le> ext_len self
      \<and> ((ext_end self = ext_start other \<and> is_multiple_of (ext_start other) unit)
         \<or> (ext_start self = ext_end other \<and> is_multiple_of (ext_end other) unit)))"

definition ext_intersection :: "extent \<Rightarrow> extent \<Rightarrow> extent option" where
  "ext_intersection self other = do {
     common \<leftarrow> range_intersection (ext_range self) (ext_range other);
     ext_new (ar_start common) (ar_end common - ar_start common) }"

definition block_capacity :: "extent \<Rightarrow> page_size \<Rightarrow> byte_length \<Rightarrow> byte_length" where
  "block_capacity self page sz =
     (let len = ext_len self;
          head = min len (page - ext_start self mod page)
      in if sz < page then max head (min (len - head) page)
         else if ext_start self mod page = 0 then len
         else len - head)"

definition aligned_interior :: "extent \<Rightarrow> byte_length \<Rightarrow> extent option" where
  "aligned_interior self align =
     (if align = 0 then None
      else do {
        start \<leftarrow> checked_next_multiple_of (ext_start self) align;
        ext_between start ((ext_end self div align) * align) })"

text \<open>Every extent the program can hold, and the addresses it covers.\<close>

definition wf_extent :: "extent \<Rightarrow> bool" where
  "wf_extent e = (0 < ext_len e \<and> ext_end e \<le> u64_max)"

definition ext_bytes :: "extent \<Rightarrow> nat set" where
  "ext_bytes e = {ext_start e ..< ext_end e}"

section \<open>Construction\<close>

lemma ext_end_make [simp]: "ext_end \<lparr>ext_start = s, ext_len = l\<rparr> = s + l"
  by (simp add: ext_end_def)

lemma ext_end_checked:
  "wf_extent e \<Longrightarrow> addr_checked_add (ext_start e) (ext_len e) = Inr (ext_end e)"
  by (simp add: wf_extent_def ext_end_def)

lemma ext_range_length:
  "addr_distance_from (ar_end (ext_range e)) (ar_start (ext_range e)) = Some (ext_len e)"
  by (simp add: ext_range_def ext_end_def)

lemma wf_extentD:
  assumes "wf_extent e"
  shows "0 < ext_len e" and "ext_start e < ext_end e" and "ext_end e \<le> u64_max"
    and "ext_start e < u64_max"
  using assms by (auto simp: wf_extent_def ext_end_def)

lemma ext_len_eq: "ext_len e = ext_end e - ext_start e"
  by (simp add: ext_end_def)

lemma ext_start_le_end [simp]: "ext_start e \<le> ext_end e"
  by (simp add: ext_end_def)

lemma ext_new_Some [simp]:
  "ext_new s l = Some e \<longleftrightarrow> 0 < l \<and> s + l \<le> u64_max \<and> e = \<lparr>ext_start = s, ext_len = l\<rparr>"
  by (auto simp: ext_new_def nonzero_new_def ner_new_def bind_eq_Some_conv
      split: sum.splits if_splits)
    (auto simp: addr_checked_add_def ok_or_def split: option.splits)

lemma ext_new_None [simp]: "ext_new s l = None \<longleftrightarrow> l = 0 \<or> u64_max < s + l"
  using ext_new_Some [of s l] by (metis not_gr_zero not_le option.exhaust option.distinct(1))

lemma ext_between_Some [simp]:
  "ext_between s t = Some e \<longleftrightarrow>
     s < t \<and> t \<le> u64_max \<and> e = \<lparr>ext_start = s, ext_len = t - s\<rparr>"
  by (auto simp: ext_between_def bind_eq_Some_conv)

lemma ext_between_None [simp]: "ext_between s t = None \<longleftrightarrow> t \<le> s \<or> u64_max < t"
  using ext_between_Some [of s t] by (metis not_le option.exhaust option.distinct(1))

lemma ext_eval [checked]:
  "0 < l \<Longrightarrow> s + l \<le> u64_max \<Longrightarrow> ext_new s l = Some \<lparr>ext_start = s, ext_len = l\<rparr>"
  "s < t \<Longrightarrow> t \<le> u64_max \<Longrightarrow> ext_between s t = Some \<lparr>ext_start = s, ext_len = t - s\<rparr>"
  "t \<le> s \<Longrightarrow> ext_between s t = None"
  by simp_all

lemma ext_new_wf: "ext_new s l = Some e \<Longrightarrow> wf_extent e"
  by (auto simp: wf_extent_def ext_end_def)

lemma ext_between_wf: "ext_between s t = Some e \<Longrightarrow> wf_extent e"
  by (auto simp: wf_extent_def ext_end_def)

lemma ext_between_bytes: "ext_between s t = Some e \<Longrightarrow> ext_bytes e = {s ..< t}"
  by (auto simp: ext_bytes_def)

lemma wf_make [simp]:
  "wf_extent \<lparr>ext_start = s, ext_len = l\<rparr> \<longleftrightarrow> 0 < l \<and> s + l \<le> u64_max"
  by (simp add: wf_extent_def)

lemma ext_bytes_make [simp]: "ext_bytes \<lparr>ext_start = s, ext_len = l\<rparr> = {s ..< s + l}"
  by (simp add: ext_bytes_def)

lemma extent_eqI: "ext_start a = ext_start b \<Longrightarrow> ext_end a = ext_end b \<Longrightarrow> a = b"
  by (cases a; cases b) (simp add: ext_end_def)

lemma finite_ext_bytes [simp]: "finite (ext_bytes e)"
  by (simp add: ext_bytes_def)

lemma card_ext_bytes [simp]: "card (ext_bytes e) = ext_len e"
  by (simp add: ext_bytes_def ext_end_def)

lemma wf_ext_bytes_nonempty: "wf_extent e \<Longrightarrow> ext_bytes e \<noteq> {}"
  by (auto simp: ext_bytes_def wf_extent_def ext_end_def)

lemma ext_bytes_bounded: "wf_extent e \<Longrightarrow> ext_bytes e \<subseteq> {..<u64_max}"
  by (auto simp: ext_bytes_def wf_extent_def)

lemma ext_start_in_bytes: "wf_extent e \<Longrightarrow> ext_start e \<in> ext_bytes e"
  by (auto simp: ext_bytes_def wf_extent_def ext_end_def)

lemma ext_bytes_disjoint_iff:
  assumes "wf_extent a" "wf_extent b"
  shows "ext_bytes a \<inter> ext_bytes b = {} \<longleftrightarrow> ext_end a \<le> ext_start b \<or> ext_end b \<le> ext_start a"
proof
  assume disj: "ext_bytes a \<inter> ext_bytes b = {}"
  show "ext_end a \<le> ext_start b \<or> ext_end b \<le> ext_start a"
  proof (rule ccontr)
    assume "\<not> ?thesis"
    then have "max (ext_start a) (ext_start b) \<in> ext_bytes a \<inter> ext_bytes b"
      using wf_extentD(2) [OF assms(1)] wf_extentD(2) [OF assms(2)] by (auto simp: ext_bytes_def)
    with disj show False by simp
  qed
qed (auto simp: ext_bytes_def)

lemma ext_intersection_Some:
  "ext_intersection a b = Some c \<longleftrightarrow>
     max (ext_start a) (ext_start b) < min (ext_end a) (ext_end b)
     \<and> min (ext_end a) (ext_end b) \<le> u64_max
     \<and> c = \<lparr>ext_start = max (ext_start a) (ext_start b),
            ext_len = min (ext_end a) (ext_end b) - max (ext_start a) (ext_start b)\<rparr>"
  by (auto simp: ext_intersection_def bind_eq_Some_conv range_intersection_Some ext_range_def)

lemma ext_intersection_bytes:
  assumes "wf_extent a"
  shows "ext_intersection a b = None \<Longrightarrow> ext_bytes a \<inter> ext_bytes b = {}"
    and "ext_intersection a b = Some c \<Longrightarrow> ext_bytes c = ext_bytes a \<inter> ext_bytes b \<and> wf_extent c"
proof -
  show "ext_bytes c = ext_bytes a \<inter> ext_bytes b \<and> wf_extent c" if "ext_intersection a b = Some c"
    using that by (auto simp: ext_bytes_def ext_intersection_Some)
  assume none: "ext_intersection a b = None"
  have "\<not> max (ext_start a) (ext_start b) < min (ext_end a) (ext_end b)"
  proof
    assume *: "max (ext_start a) (ext_start b) < min (ext_end a) (ext_end b)"
    have "min (ext_end a) (ext_end b) \<le> u64_max"
      using assms by (simp add: wf_extent_def min.coboundedI1)
    with * none show False using ext_intersection_Some [of a b] by (metis option.distinct(1))
  qed
  then show "ext_bytes a \<inter> ext_bytes b = {}" by (auto simp: ext_bytes_def)
qed

section \<open>Aligned interiors\<close>

lemma aligned_interior_Some:
  assumes "wf_extent e" and "0 < a"
  shows "aligned_interior e a = Some i \<longleftrightarrow>
     next_multiple_of (ext_start e) a < ext_end e div a * a
     \<and> ext_start i = next_multiple_of (ext_start e) a \<and> ext_end i = ext_end e div a * a"
proof -
  have le: "ext_end e div a * a \<le> u64_max"
    using wf_extentD(3) [OF assms(1)] div_mult_le_self [of "ext_end e" a] by linarith
  have s: "ext_start e \<le> u64_max" using wf_extentD(4) [OF assms(1)] by simp
  show ?thesis
  proof (cases "next_multiple_of (ext_start e) a \<le> u64_max")
    case True
    then show ?thesis
      using assms le s
      by (auto simp: aligned_interior_def checked_next_multiple_of_eq intro!: extent_eqI)
  next
    case False
    then show ?thesis
      using assms le s by (auto simp: aligned_interior_def checked_next_multiple_of_eq)
  qed
qed

lemma aligned_interiorD:
  assumes "wf_extent e" and "0 < a" and "aligned_interior e a = Some i"
  shows "wf_extent i" and "a dvd ext_start i" and "a dvd ext_end i"
    and "ext_start e \<le> ext_start i" and "ext_end i \<le> ext_end e"
    and "ext_start i < ext_start e + a" and "ext_end e < ext_end i + a"
proof -
  note i = assms(3) [unfolded aligned_interior_Some [OF assms(1,2)]]
  have le: "ext_end e div a * a \<le> ext_end e" by (rule div_mult_le_self)
  show "wf_extent i"
  proof -
    have "ext_end i \<le> u64_max" using i le wf_extentD(3) [OF assms(1)] by linarith
    then show ?thesis using i by (simp add: wf_extent_def ext_len_eq)
  qed
  show "a dvd ext_start i" using i next_multiple_of_dvd [OF assms(2)] by simp
  show "a dvd ext_end i" using i by simp
  show "ext_start e \<le> ext_start i" using i next_multiple_of_ge by simp
  show "ext_end i \<le> ext_end e" using i le by simp
  show "ext_start i < ext_start e + a" using i next_multiple_of_less [OF assms(2)] by simp
  have "ext_end e < ext_end e div a * a + a"
    using assms(2) by (metis add.commute dividend_less_div_times)
  then show "ext_end e < ext_end i + a" using i by simp
qed

text \<open>The interior holds exactly the bytes whose whole unit lies inside the extent.\<close>

definition unit_bytes :: "nat \<Rightarrow> nat \<Rightarrow> nat set" where
  "unit_bytes a x = {x div a * a ..< x div a * a + a}"

lemma unit_bytes_self: "0 < a \<Longrightarrow> x \<in> unit_bytes a x"
  using dividend_less_div_times [of a x] by (auto simp: unit_bytes_def div_mult_le_self)

lemma unit_between:
  assumes a: "0 < a" and "a dvd s" "a dvd t"
  shows "unit_bytes a x \<subseteq> {s ..< t} \<longleftrightarrow> s \<le> x \<and> x < t"
proof
  assume sub: "unit_bytes a x \<subseteq> {s ..< t}"
  have "x \<in> unit_bytes a x" by (rule unit_bytes_self [OF a])
  then show "s \<le> x \<and> x < t" using sub by auto
next
  assume x: "s \<le> x \<and> x < t"
  obtain j where j: "s = a * j" using assms(2) by (rule dvdE)
  obtain k where k: "t = a * k" using assms(3) by (rule dvdE)
  have "j \<le> x div a" using x j a by (metis div_le_mono nonzero_mult_div_cancel_left less_not_refl2)
  moreover have "x div a < k" using x k a by (simp add: less_mult_imp_div_less mult.commute)
  then have "x div a + 1 \<le> k" by simp
  then have "(x div a + 1) * a \<le> k * a" by (rule mult_le_mono1)
  ultimately show "unit_bytes a x \<subseteq> {s ..< t}"
    using j k by (auto simp: unit_bytes_def mult.commute intro: order_trans mult_le_mono2)
qed

lemma unit_inside_iff:
  assumes "wf_extent e" and a: "0 < a"
  shows "unit_bytes a x \<subseteq> ext_bytes e \<longleftrightarrow>
     next_multiple_of (ext_start e) a \<le> x \<and> x < ext_end e div a * a"
proof
  assume sub: "unit_bytes a x \<subseteq> ext_bytes e"
  have lo: "ext_start e \<le> x div a * a"
    using sub a by (auto simp: unit_bytes_def ext_bytes_def)
  have "x div a * a + a - 1 \<in> unit_bytes a x" using a by (auto simp: unit_bytes_def)
  then have "x div a * a + a - 1 \<in> ext_bytes e" using sub by blast
  then have "x div a * a + a - 1 < ext_end e" by (simp add: ext_bytes_def)
  then have hi: "x div a * a + a \<le> ext_end e" using a by linarith
  have "next_multiple_of (ext_start e) a \<le> x div a * a"
    using a lo by (intro next_multiple_of_least) auto
  then have "next_multiple_of (ext_start e) a \<le> x"
    using div_mult_le_self order_trans by blast
  moreover have "x div a + 1 \<le> ext_end e div a"
    using hi a by (metis add.commute div_le_mono mult_Suc nonzero_mult_div_cancel_right Suc_eq_plus1
        less_not_refl2)
  then have "(x div a + 1) * a \<le> ext_end e div a * a" by (rule mult_le_mono1)
  then have "x < ext_end e div a * a"
    using dividend_less_div_times [OF a, of x] by (simp add: add.commute)
  ultimately show "next_multiple_of (ext_start e) a \<le> x \<and> x < ext_end e div a * a" by simp
next
  assume x: "next_multiple_of (ext_start e) a \<le> x \<and> x < ext_end e div a * a"
  have "unit_bytes a x \<subseteq> {next_multiple_of (ext_start e) a ..< ext_end e div a * a}"
    using x unit_between [OF a next_multiple_of_dvd [OF a], of "ext_end e div a * a"] by simp
  also have "\<dots> \<subseteq> ext_bytes e"
    by (simp add: ext_bytes_def next_multiple_of_ge)
  finally show "unit_bytes a x \<subseteq> ext_bytes e" .
qed

lemma aligned_interior_bytes:
  assumes "wf_extent e" and "0 < a"
  shows "aligned_interior e a = Some i \<Longrightarrow> ext_bytes i = {x. unit_bytes a x \<subseteq> ext_bytes e}"
    and "aligned_interior e a = None \<Longrightarrow> {x. unit_bytes a x \<subseteq> ext_bytes e} = {}"
proof -
  show "ext_bytes i = {x. unit_bytes a x \<subseteq> ext_bytes e}" if "aligned_interior e a = Some i"
    using that unfolding aligned_interior_Some [OF assms] unit_inside_iff [OF assms]
    by (auto simp: ext_bytes_def)
  assume none: "aligned_interior e a = None"
  have "\<not> next_multiple_of (ext_start e) a < ext_end e div a * a"
  proof
    assume *: "next_multiple_of (ext_start e) a < ext_end e div a * a"
    let ?i = "\<lparr>ext_start = next_multiple_of (ext_start e) a,
      ext_len = ext_end e div a * a - next_multiple_of (ext_start e) a\<rparr>"
    have "aligned_interior e a = Some ?i"
      unfolding aligned_interior_Some [OF assms] using * by simp
    with none show False by simp
  qed
  then show "{x. unit_bytes a x \<subseteq> ext_bytes e} = {}"
    unfolding unit_inside_iff [OF assms] by auto
qed

text \<open>The bytes of an optional extent.\<close>

definition opt_bytes :: "extent option \<Rightarrow> nat set" where
  "opt_bytes e = (case e of None \<Rightarrow> {} | Some e \<Rightarrow> ext_bytes e)"

lemma opt_bytes_simps [simp]: "opt_bytes None = {}" "opt_bytes (Some e) = ext_bytes e"
  by (simp_all add: opt_bytes_def)

lemma opt_bytes_between [simp]: "t \<le> u64_max \<Longrightarrow> opt_bytes (ext_between s t) = {s ..< t}"
  by (cases "s < t") (simp_all add: checked)

end
