(* ===== verification/Regions.thy ===== *)
theory Regions
  imports Extents
begin

text \<open>
  Address-ordered lists of extents and the byte sets they denote.

  \<open>ordered_regions\<close> lists are sorted and disjoint; \<open>canonical\<close> lists leave a gap between any two
  regions, which is the invariant \<^verbatim>\<open>FreeList\<close> documents. The abstraction of a list is the set
  \<open>region_bytes\<close>. A canonical list is determined by that set (\<open>canonical_unique\<close>), so two
  implementations that compute the same bytes compute the same list.
\<close>

definition ordered_regions :: "extent list \<Rightarrow> bool" where
  "ordered_regions rs =
     ((\<forall>e \<in> set rs. wf_extent e) \<and> sorted_wrt (\<lambda>a b. ext_end a \<le> ext_start b) rs)"

definition canonical :: "extent list \<Rightarrow> bool" where
  "canonical rs =
     ((\<forall>e \<in> set rs. wf_extent e) \<and> sorted_wrt (\<lambda>a b. ext_end a < ext_start b) rs)"

definition region_bytes :: "extent list \<Rightarrow> nat set" where
  "region_bytes rs = (\<Union>e \<in> set rs. ext_bytes e)"

definition region_total :: "extent list \<Rightarrow> nat" where
  "region_total rs = sum_list (map ext_len rs)"

section \<open>Structure\<close>

lemma ordered_regions_simps [simp]:
  "ordered_regions []"
  "ordered_regions (e # rs) \<longleftrightarrow>
     wf_extent e \<and> (\<forall>r \<in> set rs. ext_end e \<le> ext_start r) \<and> ordered_regions rs"
  by (auto simp: ordered_regions_def)

lemma canonical_simps [simp]:
  "canonical []"
  "canonical (e # rs) \<longleftrightarrow>
     wf_extent e \<and> (\<forall>r \<in> set rs. ext_end e < ext_start r) \<and> canonical rs"
  by (auto simp: canonical_def)

lemma ordered_regions_append:
  "ordered_regions (xs @ ys) \<longleftrightarrow> ordered_regions xs \<and> ordered_regions ys
     \<and> (\<forall>x \<in> set xs. \<forall>y \<in> set ys. ext_end x \<le> ext_start y)"
  by (auto simp: ordered_regions_def sorted_wrt_append)

lemma canonical_append:
  "canonical (xs @ ys) \<longleftrightarrow> canonical xs \<and> canonical ys
     \<and> (\<forall>x \<in> set xs. \<forall>y \<in> set ys. ext_end x < ext_start y)"
  by (auto simp: canonical_def sorted_wrt_append)

lemma canonical_ordered: "canonical rs \<Longrightarrow> ordered_regions rs"
  by (induction rs) auto

lemma canonical_wf: "canonical rs \<Longrightarrow> e \<in> set rs \<Longrightarrow> wf_extent e"
  by (simp add: canonical_def)

lemma ordered_wf: "ordered_regions rs \<Longrightarrow> e \<in> set rs \<Longrightarrow> wf_extent e"
  by (simp add: ordered_regions_def)

lemma region_bytes_simps [simp]:
  "region_bytes [] = {}"
  "region_bytes (e # rs) = ext_bytes e \<union> region_bytes rs"
  "region_bytes (xs @ ys) = region_bytes xs \<union> region_bytes ys"
  by (auto simp: region_bytes_def)

lemma region_total_simps [simp]:
  "region_total [] = 0"
  "region_total (e # rs) = ext_len e + region_total rs"
  "region_total (xs @ ys) = region_total xs + region_total ys"
  by (auto simp: region_total_def)

lemma region_bytes_iff: "x \<in> region_bytes rs \<longleftrightarrow> (\<exists>e \<in> set rs. x \<in> ext_bytes e)"
  by (simp add: region_bytes_def)

lemma finite_region_bytes [simp]: "finite (region_bytes rs)"
  by (simp add: region_bytes_def)

lemma ext_bytes_subset_region: "e \<in> set rs \<Longrightarrow> ext_bytes e \<subseteq> region_bytes rs"
  by (auto simp: region_bytes_def)

lemma region_bytes_set_eq: "set xs = set ys \<Longrightarrow> region_bytes xs = region_bytes ys"
  by (simp add: region_bytes_def)

lemma region_bytes_empty_iff:
  "ordered_regions rs \<Longrightarrow> region_bytes rs = {} \<longleftrightarrow> rs = []"
  by (cases rs) (auto dest: wf_ext_bytes_nonempty)

lemma canonical_split_at:
  assumes "i < length rs"
  shows "rs = take i rs @ rs ! i # drop (Suc i) rs"
  using assms by (simp add: id_take_nth_drop)

section \<open>Sizes\<close>

lemma ordered_head_disjoint:
  "ordered_regions (e # rs) \<Longrightarrow> ext_bytes e \<inter> region_bytes rs = {}"
  by (fastforce simp: region_bytes_def ext_bytes_def)

lemma ordered_append_disjoint:
  "ordered_regions (xs @ ys) \<Longrightarrow> region_bytes xs \<inter> region_bytes ys = {}"
  by (fastforce simp: ordered_regions_append region_bytes_def ext_bytes_def)

lemma ordered_card: "ordered_regions rs \<Longrightarrow> card (region_bytes rs) = region_total rs"
proof (induction rs)
  case (Cons e rs)
  then have "ext_bytes e \<inter> region_bytes rs = {}"
    by (intro ordered_head_disjoint)
  then have "card (ext_bytes e \<union> region_bytes rs) = ext_len e + card (region_bytes rs)"
    by (simp add: card_Un_disjoint)
  with Cons show ?case by simp
qed simp

lemma ordered_bounded: "ordered_regions rs \<Longrightarrow> region_bytes rs \<subseteq> {..<u64_max}"
  using ext_bytes_bounded by (fastforce simp: region_bytes_def ordered_regions_def)

lemma bounded_card_le: "S \<subseteq> {..<u64_max} \<Longrightarrow> card S \<le> u64_max"
  using card_mono [of "{..<u64_max}" S] by simp

lemma ordered_total_le: "ordered_regions rs \<Longrightarrow> region_total rs \<le> u64_max"
  using bounded_card_le [OF ordered_bounded] by (simp add: ordered_card)

lemmas canonical_card = ordered_card [OF canonical_ordered]
  and canonical_bounded = ordered_bounded [OF canonical_ordered]
  and canonical_total_le = ordered_total_le [OF canonical_ordered]

section \<open>Uniqueness of the canonical form\<close>

lemma canonical_end_free:
  assumes "canonical rs" "e \<in> set rs"
  shows "ext_end e \<notin> region_bytes rs"
proof -
  obtain xs ys where rs: "rs = xs @ e # ys" using assms(2) by (meson split_list)
  have "ext_end e \<notin> ext_bytes r" if "r \<in> set xs" for r
    using that assms(1) wf_extentD(2) [OF canonical_wf [OF assms]]
    by (fastforce simp: rs canonical_append ext_bytes_def)
  moreover have "ext_end e \<notin> ext_bytes r" if "r \<in> set ys" for r
    using that assms(1) by (fastforce simp: rs canonical_append ext_bytes_def)
  ultimately show ?thesis by (auto simp: rs region_bytes_def ext_bytes_def)
qed

lemma canonical_head_min:
  assumes "canonical (e # rs)" "x \<in> region_bytes (e # rs)"
  shows "ext_start e \<le> x"
  using assms wf_extentD(2) [of e] by (fastforce simp: region_bytes_def ext_bytes_def)

lemma canonical_head_eq:
  assumes a: "canonical (a # xs)" and b: "canonical (b # ys)"
    and eq: "region_bytes (a # xs) = region_bytes (b # ys)"
  shows "a = b"
proof (rule extent_eqI)
  have in_a: "ext_start a \<in> region_bytes (a # xs)" and in_b: "ext_start b \<in> region_bytes (b # ys)"
    using a b by (auto intro: ext_start_in_bytes)
  show start: "ext_start a = ext_start b"
    using canonical_head_min [OF a] canonical_head_min [OF b] in_a in_b eq
    by (metis order_antisym)
  have "\<not> ext_end a < ext_end b"
  proof
    assume "ext_end a < ext_end b"
    then have "ext_end a \<in> ext_bytes b" using start by (simp add: ext_bytes_def flip: start)
    then have "ext_end a \<in> region_bytes (a # xs)" using eq by auto
    then show False using canonical_end_free [OF a] by auto
  qed
  moreover have "\<not> ext_end b < ext_end a"
  proof
    assume "ext_end b < ext_end a"
    then have "ext_end b \<in> ext_bytes a" using start by (simp add: ext_bytes_def)
    then have "ext_end b \<in> region_bytes (b # ys)" using eq by auto
    then show False using canonical_end_free [OF b] by auto
  qed
  ultimately show "ext_end a = ext_end b" by simp
qed

lemma canonical_unique:
  assumes "canonical xs" "canonical ys" "region_bytes xs = region_bytes ys"
  shows "xs = ys"
  using assms
proof (induction xs arbitrary: ys)
  case Nil
  then show ?case
    using region_bytes_empty_iff [OF canonical_ordered, of ys] by simp
next
  case (Cons a xs)
  then obtain b ys' where ys: "ys = b # ys'"
    using region_bytes_empty_iff [OF canonical_ordered, of "a # xs"] by (cases ys) auto
  have ab: "a = b"
    using Cons.prems unfolding ys by (rule canonical_head_eq)
  have "region_bytes zs = region_bytes (c # zs) - ext_bytes c" if "canonical (c # zs)" for c zs
    using ordered_head_disjoint [OF canonical_ordered [OF that]] by auto
  then have "region_bytes xs = region_bytes ys'"
    using Cons.prems unfolding ys ab by metis
  then show ?case using Cons.IH [of ys'] Cons.prems(1,2) unfolding ys ab by simp
qed

section \<open>Adjacency\<close>

lemma canonical_starts_distinct:
  assumes "canonical rs" "a \<in> set rs" "b \<in> set rs" "ext_start a = ext_start b"
  shows "a = b"
  using assms
proof (induction rs)
  case (Cons r rs)
  have "ext_start r < ext_start s" if "s \<in> set rs" for s
    using that Cons.prems(1) wf_extentD(2) [of r] by fastforce
  with Cons show ?case by fastforce
qed simp

lemma ordered_in_order:
  assumes "ordered_regions rs" "a \<in> set rs" "b \<in> set rs" "ext_start a < ext_start b"
  shows "ext_end a \<le> ext_start b"
  using assms
proof (induction rs)
  case (Cons r rs)
  have "ext_start r < ext_start s" if "s \<in> set rs" for s
    using that Cons.prems(1) wf_extentD(2) [of r] by fastforce
  with Cons show ?case by fastforce
qed simp

lemma canonical_in_order:
  assumes "canonical rs" "a \<in> set rs" "b \<in> set rs" "ext_start a < ext_start b"
  shows "ext_end a < ext_start b"
  using assms
proof (induction rs)
  case (Cons r rs)
  have "ext_start r < ext_start s" if "s \<in> set rs" for s
    using that Cons.prems(1) wf_extentD(2) [of r] by fastforce
  with Cons show ?case by fastforce
qed simp

end
