(* ===== verification/Requests.thy ===== *)
theory Requests
  imports Regions
begin

text \<open>
  Allocation classes, PAGE types and reservation requests
  (\<^verbatim>\<open>hdf5-pure-space/src/allocation.rs\<close>, the request half of \<^verbatim>\<open>reservation.rs\<close>, the enums of
  \<^verbatim>\<open>paged/mod.rs\<close>). \<open>place_after\<close> positions a request; the lemmas show that a block placed
  with a page size obeys the PAGE block geometry, that the position is the earliest legal one,
  and that \<^const>\<open>block_capacity\<close> decides whether it fits inside an extent.
\<close>

datatype page_type = Meta | Raw

datatype free_class = Dead | InPage page_type

datatype allocation_class = ClassMetadata | ClassRaw

fun class_page_type :: "allocation_class \<Rightarrow> page_type" where
  "class_page_type ClassMetadata = Meta"
| "class_page_type ClassRaw = Raw"

datatype reservation_kind = Block | Compound

record reservation_request =
  rq_size :: byte_length
  rq_class :: allocation_class
  rq_page_type :: page_type
  rq_kind :: reservation_kind

definition request_with_page_type ::
  "byte_length \<Rightarrow> allocation_class \<Rightarrow> page_type \<Rightarrow> reservation_request" where
  "request_with_page_type sz cls ty =
     \<lparr>rq_size = sz, rq_class = cls, rq_page_type = ty, rq_kind = Compound\<rparr>"

definition request_new :: "byte_length \<Rightarrow> allocation_class \<Rightarrow> reservation_request" where
  "request_new sz cls = request_with_page_type sz cls (class_page_type cls)"

definition for_block :: "reservation_request \<Rightarrow> reservation_request" where
  "for_block self = self\<lparr>rq_kind := Block\<rparr>"

definition is_block :: "reservation_request \<Rightarrow> bool" where
  "is_block self = (rq_kind self = Block)"

record reservation_placement =
  pl_request :: reservation_request
  pl_extent :: extent

definition place_after ::
  "reservation_request \<Rightarrow> stored_address \<Rightarrow> page_size option
     \<Rightarrow> format_error + reservation_placement" where
  "place_after self start page =
     (let placed =
        (case (if is_block self then page else None) of
           None \<Rightarrow> Inr start
         | Some p \<Rightarrow>
             (let remaining = p - start mod p
              in if start mod p \<noteq> 0 \<and> (p \<le> rq_size self \<or> remaining < rq_size self)
                 then addr_checked_add start remaining
                 else Inr start))
      in case placed of
           Inl e \<Rightarrow> Inl e
         | Inr at \<Rightarrow>
             (case ext_new at (rq_size self) of
                None \<Rightarrow> Inl (OffsetOverflow at (rq_size self))
              | Some extent \<Rightarrow> Inr \<lparr>pl_request = self, pl_extent = extent\<rparr>))"

text \<open>A request the program can hold has a \<^verbatim>\<open>NonZeroByteLength\<close>.\<close>

definition wf_request :: "reservation_request \<Rightarrow> bool" where
  "wf_request rq = (0 < rq_size rq \<and> rq_size rq \<le> u64_max)"

text \<open>The PAGE rules for one independently read block of \<open>sz\<close> bytes at \<open>s\<close>.\<close>

definition block_legal :: "page_size \<Rightarrow> nat \<Rightarrow> nat \<Rightarrow> bool" where
  "block_legal p s sz = (if sz < p then s div p = (s + sz - 1) div p else p dvd s)"

definition block_start :: "page_size \<Rightarrow> nat \<Rightarrow> nat \<Rightarrow> nat" where
  "block_start p s sz =
     (if s mod p \<noteq> 0 \<and> (p \<le> sz \<or> p - s mod p < sz) then s + (p - s mod p) else s)"

section \<open>Block geometry\<close>

lemma div_add_eq_iff: "(s + k) div p = s div p \<longleftrightarrow> s mod p + k < p" if "0 < p" for s k p :: nat
proof -
  have "(s + k) div p = s div p + (s mod p + k) div p"
    using div_mult_mod_eq [of s p] that
    by (metis add.assoc add.commute div_mult_self3 less_not_refl2)
  then show ?thesis using that by (simp add: div_eq_0_iff)
qed

lemma block_legal_small:
  "0 < sz \<Longrightarrow> sz < p \<Longrightarrow> block_legal p s sz \<longleftrightarrow> s mod p + sz \<le> p"
  using div_add_eq_iff [of p s "sz - 1"] by (auto simp: block_legal_def)

lemma block_start_ge: "s \<le> block_start p s sz"
  by (simp add: block_start_def)

lemma next_page_dvd: "0 < p \<Longrightarrow> p dvd s + (p - s mod p)" for s p :: nat
proof -
  assume p: "0 < p"
  have "s + (p - s mod p) = (s div p) * p + p"
    using p mod_less_divisor [OF p, of s] div_mult_mod_eq [of s p] by linarith
  then show ?thesis by simp
qed

lemma block_start_legal:
  assumes p: "0 < p" and sz: "0 < sz"
  shows "block_legal p (block_start p s sz) sz"
proof (cases "s mod p \<noteq> 0 \<and> (p \<le> sz \<or> p - s mod p < sz)")
  case True
  then have start: "block_start p s sz = s + (p - s mod p)" by (simp add: block_start_def)
  have "block_legal p t sz" if "p dvd t" for t
  proof (cases "sz < p")
    case True
    with that sz show ?thesis by (simp add: block_legal_small dvd_eq_mod_eq_0)
  next
    case False
    with that show ?thesis by (simp add: block_legal_def)
  qed
  then show ?thesis unfolding start using next_page_dvd [OF p] by blast
next
  case False
  then have start: "block_start p s sz = s" by (simp only: block_start_def if_False)
  show ?thesis
  proof (cases "sz < p")
    case True
    have "s mod p + sz \<le> p"
      using False True mod_less_divisor [OF p, of s] by linarith
    with True sz show ?thesis unfolding start by (simp add: block_legal_small)
  next
    case large: False
    with False have "s mod p = 0" by linarith
    with large show ?thesis unfolding start by (simp add: block_legal_def dvd_eq_mod_eq_0)
  qed
qed

lemma block_start_earliest:
  assumes p: "0 < p" and sz: "0 < sz" and "s \<le> t" and legal: "block_legal p t sz"
  shows "block_start p s sz \<le> t"
proof (cases "s mod p \<noteq> 0 \<and> (p \<le> sz \<or> p - s mod p < sz)")
  case True
  then have start: "block_start p s sz = s + (p - s mod p)" by (simp add: block_start_def)
  have nm: "s + (p - s mod p) = next_multiple_of s p"
    using True by (simp add: next_multiple_of_def)
  show ?thesis
  proof (cases "sz < p")
    case small: True
    then have rem: "p < s mod p + sz" using True by linarith
    have "s div p \<noteq> t div p"
    proof
      assume same: "s div p = t div p"
      have "s mod p \<le> t mod p"
        using same \<open>s \<le> t\<close> div_mult_mod_eq [of s p] div_mult_mod_eq [of t p]
        by (metis add_le_cancel_left)
      then show False
        using legal rem small sz by (simp add: block_legal_small)
    qed
    then have "s div p + 1 \<le> t div p" using div_le_mono [OF \<open>s \<le> t\<close>, of p] by linarith
    then have "(s div p + 1) * p \<le> t div p * p" by (rule mult_le_mono1)
    moreover have "s + (p - s mod p) = (s div p + 1) * p"
    proof -
      have "(s div p + 1) * p = s div p * p + p" by simp
      then show ?thesis
        using mod_less_divisor [OF p, of s] div_mult_mod_eq [of s p] by linarith
    qed
    ultimately show ?thesis
      using start div_mult_le_self [of t p] by linarith
  next
    case False
    then have "p dvd t" using legal by (simp add: block_legal_def)
    then show ?thesis
      using start nm next_multiple_of_least [OF p _ \<open>s \<le> t\<close>] by simp
  qed
next
  case False
  then have "block_start p s sz = s" by (simp only: block_start_def if_False)
  then show ?thesis using \<open>s \<le> t\<close> by simp
qed

section \<open>Placement\<close>

definition placed_start :: "reservation_request \<Rightarrow> stored_address \<Rightarrow> page_size option \<Rightarrow> nat" where
  "placed_start rq s page =
     (case page of
        Some p \<Rightarrow> if is_block rq then block_start p s (rq_size rq) else s
      | None \<Rightarrow> s)"

lemma placed_start_ge: "s \<le> placed_start rq s page"
  by (auto simp: placed_start_def block_start_ge split: option.splits)

lemma place_after_Inr:
  assumes "wf_request rq" and "s \<le> u64_max"
  shows "place_after rq s page = Inr pl \<longleftrightarrow>
     placed_start rq s page + rq_size rq \<le> u64_max
     \<and> pl = \<lparr>pl_request = rq,
             pl_extent = \<lparr>ext_start = placed_start rq s page, ext_len = rq_size rq\<rparr>\<rparr>"
  using assms
  by (auto simp: place_after_def placed_start_def block_start_def wf_request_def Let_def
      addr_checked_add_Inl split: option.splits sum.splits if_splits)

lemma place_after_cases:
  assumes "wf_request rq" and "s \<le> u64_max"
  shows "\<exists>e. place_after rq s page =
     (if placed_start rq s page + rq_size rq \<le> u64_max
      then Inr \<lparr>pl_request = rq,
             pl_extent = \<lparr>ext_start = placed_start rq s page, ext_len = rq_size rq\<rparr>\<rparr>
      else Inl e)"
proof (cases "place_after rq s page")
  case (Inl e)
  then have "\<not> placed_start rq s page + rq_size rq \<le> u64_max"
    using place_after_Inr [OF assms, of page] by (metis sum.distinct(1))
  with Inl show ?thesis by auto
next
  case (Inr pl)
  then show ?thesis using place_after_Inr [OF assms, of page pl] by auto
qed

text \<open>The capacity of an extent decides whether the earliest legal block lies inside it.\<close>

lemma capacity_arith:
  fixes s l m p sz :: nat
  assumes "m < p" "0 < l" "0 < sz"
  shows "sz \<le> (if sz < p then max (min l (p - m)) (min (l - min l (p - m)) p)
               else if m = 0 then l else l - min l (p - m))
     \<longleftrightarrow> (if m \<noteq> 0 \<and> (p \<le> sz \<or> p - m < sz) then s + (p - m) else s) + sz \<le> s + l"
proof (cases "sz < p")
  case small: True
  show ?thesis
  proof (cases "m = 0")
    case True
    then show ?thesis using assms small by (simp add: min_def max_def)
  next
    case False
    then show ?thesis using assms small by (simp add: min_def max_def) linarith
  qed
next
  case False
  then show ?thesis using assms by (simp add: min_def) linarith
qed

lemma block_capacity_fits:
  assumes e: "wf_extent e" and p: "0 < p" and sz: "0 < sz"
  shows "sz \<le> block_capacity e p sz \<longleftrightarrow> block_start p (ext_start e) sz + sz \<le> ext_end e"
  using capacity_arith [OF mod_less_divisor [OF p] wf_extentD(1) [OF e] sz, of "ext_start e"]
  unfolding block_capacity_def Let_def block_start_def ext_end_def .

text \<open>\<^const>\<open>block_capacity\<close> depends on the requested size only through its page class.\<close>

lemma block_capacity_class:
  "sz < p \<longleftrightarrow> sz' < p \<Longrightarrow> block_capacity e p sz = block_capacity e p sz'"
  by (simp add: block_capacity_def Let_def)

end
