(* ===== verification/Free_List.thy ===== *)
theory Free_List
  imports Requests
begin

text \<open>
  The sorted, coalesced free list (\<^verbatim>\<open>hdf5-pure-space/src/list/mod.rs\<close>), one definition per
  method of \<^verbatim>\<open>FreeList\<close>. A method that takes \<^verbatim>\<open>&mut self\<close> returns the new list.

  Loops over \<^verbatim>\<open>self.regions\<close> are recursions over the list of regions. Where the code keeps
  indices \<^verbatim>\<open>lo..hi\<close> and splices, the model keeps the parts before and after. The observer
  callbacks of \<^verbatim>\<open>from_lists_observed\<close> and \<^verbatim>\<open>adjoins_observed\<close> only count and are left out.
\<close>

record free_list =
  fl_regions :: "extent list"
  fl_total :: byte_length

datatype free_list_error = Overlap extent extent | Unsorted extent extent

definition fl_new :: free_list where
  "fl_new = \<lparr>fl_regions = [], fl_total = 0\<rparr>"

text \<open>The order check between one input extent and its predecessor.\<close>

definition order_error :: "extent option \<Rightarrow> extent \<Rightarrow> free_list_error option" where
  "order_error previous next_extent =
     (case previous of
        None \<Rightarrow> None
      | Some prev \<Rightarrow>
          if ext_start next_extent < ext_start prev then Some (Unsorted prev next_extent)
          else if ext_start next_extent < ext_end prev then Some (Overlap prev next_extent)
          else None)"

text \<open>The \<^verbatim>\<open>match list.regions.last_mut()\<close> of \<^verbatim>\<open>from_sorted\<close>.\<close>

definition push_coalesced :: "extent list \<Rightarrow> extent \<Rightarrow> extent list option" where
  "push_coalesced rs e =
     (if rs \<noteq> [] \<and> ext_end (last rs) = ext_start e
      then do { u \<leftarrow> ext_between (ext_start (last rs)) (ext_end e); Some (butlast rs @ [u]) }
      else Some (rs @ [e]))"

fun from_sorted_loop ::
  "free_list \<Rightarrow> extent option \<Rightarrow> extent list \<Rightarrow> (free_list_error + free_list) option" where
  "from_sorted_loop self previous [] = Some (Inr self)"
| "from_sorted_loop self previous (e # es) =
     (case order_error previous e of
        Some err \<Rightarrow> Some (Inl err)
      | None \<Rightarrow> do {
          tot \<leftarrow> checked_add (fl_total self) (ext_len e);
          regions \<leftarrow> push_coalesced (fl_regions self) e;
          from_sorted_loop \<lparr>fl_regions = regions, fl_total = tot\<rparr> (Some e) es })"

definition from_sorted :: "extent list \<Rightarrow> (free_list_error + free_list) option" where
  "from_sorted extents = from_sorted_loop fl_new None extents"

text \<open>The iterator of \<^verbatim>\<open>from_lists\<close>: the lowest head of several lists, until all are consumed.\<close>

definition list_heads :: "extent list list \<Rightarrow> (nat \<times> stored_address) list" where
  "list_heads xss =
     concat (map (\<lambda>(i, xs). case xs of [] \<Rightarrow> [] | x # _ \<Rightarrow> [(i, ext_start x)]) (enumerate 0 xss))"

lemma list_heads_nonempty: "(i, s) \<in> set (list_heads xss) \<Longrightarrow> i < length xss \<and> xss ! i \<noteq> []"
  by (auto simp: list_heads_def in_set_enumerate_eq split: list.splits)

lemma sum_list_update_decreases:
  "i < length ns \<Longrightarrow> (m::nat) < ns ! i \<Longrightarrow> sum_list (ns[i := m]) < sum_list ns"
proof (induction ns arbitrary: i)
  case (Cons n ns)
  then show ?case by (cases i) auto
qed simp

function merge_lists :: "extent list list \<Rightarrow> extent list" where
  "merge_lists xss =
     (case min_by_key snd (list_heads xss) of
        None \<Rightarrow> []
      | Some (i, _) \<Rightarrow> hd (xss ! i) # merge_lists (xss[i := tl (xss ! i)]))"
  by pat_completeness auto
termination
proof (relation "measure (\<lambda>xss. sum_list (map length xss))")
  fix xss :: "extent list list" and x i s
  assume "min_by_key snd (list_heads xss) = Some x" and "(i, s) = x"
  then have "i < length xss \<and> xss ! i \<noteq> []"
    by (auto dest!: min_by_key_in list_heads_nonempty)
  then have "sum_list ((map length xss)[i := length (tl (xss ! i))]) < sum_list (map length xss)"
    by (intro sum_list_update_decreases) auto
  then show "(xss[i := tl (xss ! i)], xss) \<in> measure (\<lambda>xss. sum_list (map length xss))"
    by (simp add: map_update)
qed simp

declare merge_lists.simps [simp del]

definition from_lists :: "free_list list \<Rightarrow> (free_list_error + free_list) option" where
  "from_lists inputs = from_sorted (merge_lists (map fl_regions inputs))"

text \<open>The second loop of \<^verbatim>\<open>free\<close>: fold the touching run into the merged range.\<close>

fun free_merge ::
  "bool \<Rightarrow> extent \<Rightarrow> nat \<Rightarrow> nat \<Rightarrow> byte_length \<Rightarrow> extent list
     \<Rightarrow> (nat \<times> nat \<times> byte_length \<times> extent list) option" where
  "free_merge dbg e merged_start merged_end tot [] = Some (merged_start, merged_end, tot, [])"
| "free_merge dbg e merged_start merged_end tot (r # rs) =
     (if ext_start r \<le> merged_end then do {
        debug_assert dbg (ext_end e \<le> ext_start r \<or> ext_end r \<le> ext_start e);
        tot' \<leftarrow> checked_sub tot (ext_len r);
        free_merge dbg e (min merged_start (ext_start r)) (max merged_end (ext_end r)) tot' rs }
      else Some (merged_start, merged_end, tot, r # rs))"

definition fl_free :: "bool \<Rightarrow> free_list \<Rightarrow> extent \<Rightarrow> free_list option" where
  "fl_free dbg self e =
     (let before = takeWhile (\<lambda>r. ext_end r < ext_start e) (fl_regions self);
          rest = dropWhile (\<lambda>r. ext_end r < ext_start e) (fl_regions self)
      in do {
        (merged_start, merged_end, tot, after) \<leftarrow>
          free_merge dbg e (ext_start e) (ext_end e) (fl_total self) rest;
        merged \<leftarrow> ext_between merged_start merged_end;
        tot' \<leftarrow> checked_add tot (ext_len merged);
        Some \<lparr>fl_regions = before @ merged # after, fl_total = tot'\<rparr> })"

definition subtract_bytes :: "free_list \<Rightarrow> byte_length \<Rightarrow> free_list option" where
  "subtract_bytes self len = do {
     tot \<leftarrow> checked_sub (fl_total self) len;
     Some (self\<lparr>fl_total := tot\<rparr>) }"

text \<open>The best-fit loop of \<^verbatim>\<open>alloc\<close>: the index of the first smallest sufficient region.\<close>

definition alloc_best :: "byte_length \<Rightarrow> extent list \<Rightarrow> nat option" where
  "alloc_best len rs =
     fold (\<lambda>(i, e) best.
             if len \<le> ext_len e
                \<and> (case best of None \<Rightarrow> True | Some b \<Rightarrow> ext_len e < ext_len (rs ! b))
             then Some i else best)
          (enumerate 0 rs) None"

definition fl_alloc :: "free_list \<Rightarrow> byte_length \<Rightarrow> (free_list \<times> extent option) option" where
  "fl_alloc self len =
     (if len = 0 then Some (self, None)
      else case alloc_best len (fl_regions self) of
        None \<Rightarrow> Some (self, None)
      | Some i \<Rightarrow>
          (let region = fl_regions self ! i
           in do {
             allocation \<leftarrow> ext_new (ext_start region) len;
             regions \<leftarrow>
               (if ext_end allocation = ext_end region
                then Some (take i (fl_regions self) @ drop (Suc i) (fl_regions self))
                else do {
                  rest \<leftarrow> ext_between (ext_end allocation) (ext_end region);
                  Some ((fl_regions self)[i := rest]) });
             self' \<leftarrow> subtract_bytes (self\<lparr>fl_regions := regions\<rparr>) len;
             Some (self', Some allocation) }))"

text \<open>The loop of \<^verbatim>\<open>take_range\<close>.\<close>

fun take_range_loop ::
  "extent \<Rightarrow> byte_length \<Rightarrow> extent list \<Rightarrow> extent list \<Rightarrow> (extent list \<times> byte_length) option" where
  "take_range_loop e tot out [] = Some (out, tot)"
| "take_range_loop e tot out (r # rs) =
     (case ext_intersection r e of
        None \<Rightarrow> take_range_loop e tot (out @ [r]) rs
      | Some overlap \<Rightarrow> do {
          tot' \<leftarrow> checked_sub tot (ext_len overlap);
          lower \<leftarrow> (if ext_start r < ext_start e
                   then map_option (\<lambda>x. [x]) (ext_between (ext_start r) (ext_start e))
                   else Some []);
          upper \<leftarrow> (if ext_end e < ext_end r
                   then map_option (\<lambda>x. [x]) (ext_between (ext_end e) (ext_end r))
                   else Some []);
          take_range_loop e tot' (out @ lower @ upper) rs })"

definition take_range :: "free_list \<Rightarrow> extent \<Rightarrow> free_list option" where
  "take_range self e = do {
     (out, tot) \<leftarrow> take_range_loop e (fl_total self) [] (fl_regions self);
     Some \<lparr>fl_regions = out, fl_total = tot\<rparr> }"

definition alloc_block ::
  "free_list \<Rightarrow> reservation_request \<Rightarrow> page_size \<Rightarrow> (free_list \<times> extent option) option" where
  "alloc_block self request page =
     (let candidates = List.map_filter (\<lambda>region.
            let capacity = block_capacity region page (rq_size request)
            in if capacity < rq_size request then None
               else do {
                 placement \<leftarrow> ok (place_after request (ext_start region) (Some page));
                 Some (capacity, pl_extent placement) })
          (fl_regions self)
      in case min_by_key (\<lambda>(capacity, allocation). (capacity, ext_start allocation)) candidates of
           None \<Rightarrow> Some (self, None)
         | Some (_, allocation) \<Rightarrow> do {
             self' \<leftarrow> take_range self allocation;
             Some (self', Some allocation) })"

definition whole_units_best :: "byte_length \<Rightarrow> byte_length \<Rightarrow> extent list \<Rightarrow> (nat \<times> extent) option" where
  "whole_units_best len align rs =
     fold (\<lambda>(i, region) best.
             case aligned_interior region align of
               None \<Rightarrow> best
             | Some interior \<Rightarrow>
                 if len \<le> ext_len interior
                    \<and> (case best of None \<Rightarrow> True | Some (_, b) \<Rightarrow> ext_len interior < ext_len b)
                 then Some (i, interior) else best)
          (enumerate 0 rs) None"

definition alloc_whole_units ::
  "bool \<Rightarrow> free_list \<Rightarrow> byte_length \<Rightarrow> byte_length \<Rightarrow> (free_list \<times> extent option) option" where
  "alloc_whole_units dbg self len align =
     (if len = 0 \<or> align = 0 then Some (self, None)
      else do {
        debug_assert dbg (len mod align = 0);
        (case whole_units_best len align (fl_regions self) of
           None \<Rightarrow> Some (self, None)
         | Some (i, interior) \<Rightarrow>
             (let region = fl_regions self ! i
              in do {
                allocation \<leftarrow> ext_new (ext_start interior) len;
                lower \<leftarrow> (if ext_start region < ext_start allocation
                         then map_option (\<lambda>x. [x])
                                (ext_between (ext_start region) (ext_start allocation))
                         else Some []);
                upper \<leftarrow> (if ext_end allocation < ext_end region
                         then map_option (\<lambda>x. [x])
                                (ext_between (ext_end allocation) (ext_end region))
                         else Some []);
                self' \<leftarrow> subtract_bytes
                  (self\<lparr>fl_regions := take i (fl_regions self) @ (lower @ upper)
                                       @ drop (Suc i) (fl_regions self)\<rparr>) len;
                Some (self', Some allocation) })) })"

text \<open>\<^verbatim>\<open>trailing_run_start\<close> walks the sorted regions from the top.\<close>

fun trailing_walk :: "stored_address \<Rightarrow> extent list \<Rightarrow> stored_address" where
  "trailing_walk start [] = start"
| "trailing_walk start (e # es) =
     (if ext_end e < start then start else trailing_walk (min start (ext_start e)) es)"

definition trailing_run_start :: "free_list list \<Rightarrow> stored_address \<Rightarrow> stored_address" where
  "trailing_run_start inputs eof =
     trailing_walk eof (rev (sort_key ext_start (concat (map fl_regions inputs))))"

definition trailing_reserve_tails :: u64 where
  "trailing_reserve_tails = 4"

definition release_trailing_run ::
  "free_list \<Rightarrow> stored_address \<Rightarrow> byte_length \<Rightarrow> (free_list \<times> stored_address) option" where
  "release_trailing_run self eoa tail_len =
     (let run_start = trailing_run_start [self] eoa
      in case checked_mul trailing_reserve_tails tail_len of
           None \<Rightarrow> Some (self, eoa)
         | Some keep \<Rightarrow>
             (case checked_mul keep 2 of
                None \<Rightarrow> Some (self, eoa)
              | Some release_min \<Rightarrow>
                  (if (case addr_distance_from eoa run_start of
                         None \<Rightarrow> True | Some len \<Rightarrow> len < release_min)
                   then Some (self, eoa)
                   else case addr_checked_add run_start keep of
                     Inl _ \<Rightarrow> Some (self, eoa)
                   | Inr cutoff \<Rightarrow>
                       (case ext_between cutoff eoa of
                          None \<Rightarrow> Some (self, eoa)
                        | Some released \<Rightarrow> do {
                            self' \<leftarrow> take_range self released;
                            Some (self', cutoff) }))))"

definition alloc_below ::
  "free_list \<Rightarrow> byte_length \<Rightarrow> stored_address \<Rightarrow> (free_list \<times> extent option) option" where
  "alloc_below self len limit =
     (case min_by_key ext_len (filter (\<lambda>e. len \<le> ext_len e
              \<and> (case addr_checked_add (ext_start e) len of
                    Inl _ \<Rightarrow> False | Inr stop \<Rightarrow> stop \<le> limit))
            (fl_regions self)) of
        None \<Rightarrow> Some (self, None)
      | Some e \<Rightarrow>
          (case ext_new (ext_start e) len of
             None \<Rightarrow> Some (self, None)
           | Some allocation \<Rightarrow> do {
               self' \<leftarrow> take_range self allocation;
               Some (self', Some allocation) }))"

text \<open>The loops of \<^verbatim>\<open>take_ranges\<close>: \<open>take_one\<close> is the inner loop for one region, which leaves
  the removals that reach past it.\<close>

fun take_one ::
  "stored_address \<Rightarrow> extent \<Rightarrow> byte_length \<Rightarrow> extent list \<Rightarrow> extent list
     \<Rightarrow> (stored_address \<times> byte_length \<times> extent list \<times> extent list) option" where
  "take_one start region tot out [] = Some (start, tot, out, [])"
| "take_one start region tot out (rng # removed) =
     (if ext_end region \<le> ext_start rng then Some (start, tot, out, rng # removed)
      else
        (let out' = (case ext_between start (ext_start rng) of None \<Rightarrow> out | Some h \<Rightarrow> out @ [h]);
             stop = min (ext_end rng) (ext_end region)
         in do {
           overlap \<leftarrow> ext_between (max start (ext_start rng)) stop;
           tot' \<leftarrow> checked_sub tot (ext_len overlap);
           (if ext_end region \<le> ext_end rng then Some (stop, tot', out', rng # removed)
            else take_one stop region tot' out' removed) }))"

fun take_ranges_loop ::
  "byte_length \<Rightarrow> extent list \<Rightarrow> extent list \<Rightarrow> extent list \<Rightarrow> (extent list \<times> byte_length) option" where
  "take_ranges_loop tot out removed [] = Some (out, tot)"
| "take_ranges_loop tot out removed (region # rs) =
     (let removed' = dropWhile (\<lambda>rng. ext_end rng \<le> ext_start region) removed
      in do {
        (start, tot', out', removed'') \<leftarrow> take_one (ext_start region) region tot out removed';
        take_ranges_loop tot'
          (case ext_between start (ext_end region) of None \<Rightarrow> out' | Some t \<Rightarrow> out' @ [t])
          removed'' rs })"

definition fl_is_empty :: "free_list \<Rightarrow> bool" where
  "fl_is_empty self = (fl_regions self = [])"

definition take_ranges :: "free_list \<Rightarrow> free_list \<Rightarrow> free_list option" where
  "take_ranges self ranges =
     (if fl_is_empty self \<or> fl_is_empty ranges then Some self
      else do {
        (out, tot) \<leftarrow> take_ranges_loop (fl_total self) [] (fl_regions ranges) (fl_regions self);
        Some \<lparr>fl_regions = out, fl_total = tot\<rparr> })"

text \<open>The loops of \<^verbatim>\<open>intersection\<close>, in the same shape.\<close>

fun intersect_one :: "extent \<Rightarrow> extent list \<Rightarrow> extent list \<Rightarrow> extent list \<times> extent list" where
  "intersect_one left out [] = (out, [])"
| "intersect_one left out (rng # right) =
     (if ext_end left \<le> ext_start rng then (out, rng # right)
      else
        (let out' = (case ext_intersection left rng of None \<Rightarrow> out | Some o' \<Rightarrow> out @ [o'])
         in if ext_end left \<le> ext_end rng then (out', rng # right)
            else intersect_one left out' right))"

fun intersect_loop :: "extent list \<Rightarrow> extent list \<Rightarrow> extent list \<Rightarrow> extent list" where
  "intersect_loop out right [] = out"
| "intersect_loop out right (left # lefts) =
     (let (out', right') =
        intersect_one left out (dropWhile (\<lambda>rng. ext_end rng \<le> ext_start left) right)
      in intersect_loop out' right' lefts)"

definition fl_intersection :: "free_list \<Rightarrow> free_list \<Rightarrow> free_list option" where
  "fl_intersection self other = do {
     r \<leftarrow> from_sorted (intersect_loop [] (fl_regions other) (fl_regions self));
     ok r }"

definition fl_largest :: "free_list \<Rightarrow> byte_length" where
  "fl_largest self = fold max (map ext_len (fl_regions self)) 0"

definition largest_whole_units :: "free_list \<Rightarrow> byte_length \<Rightarrow> byte_length" where
  "largest_whole_units self align =
     fold max (List.map_filter (\<lambda>e. map_option ext_len (aligned_interior e align))
                 (fl_regions self)) 0"

definition take_trailing ::
  "free_list \<Rightarrow> stored_address \<Rightarrow> (free_list \<times> stored_address option) option" where
  "take_trailing self eof =
     (if fl_regions self \<noteq> [] \<and> ext_end (last (fl_regions self)) = eof
      then
        (let l = last (fl_regions self)
         in do {
           self' \<leftarrow> subtract_bytes self (ext_len l);
           Some (self'\<lparr>fl_regions := butlast (fl_regions self')\<rparr>, Some (ext_start l)) })
      else Some (self, None))"

text \<open>\<^verbatim>\<open>binary_search_by_key(..).is_ok()\<close> on a list sorted by the key is membership of the key.\<close>

definition fl_adjoins :: "free_list \<Rightarrow> extent \<Rightarrow> bool" where
  "fl_adjoins self e =
     (list_ex (\<lambda>r. ext_end r = ext_start e) (fl_regions self)
      \<or> list_ex (\<lambda>r. ext_start r = ext_end e) (fl_regions self))"

definition fl_adjoins_within :: "free_list \<Rightarrow> extent \<Rightarrow> byte_length \<Rightarrow> bool" where
  "fl_adjoins_within self e unit = list_ex (\<lambda>r. ext_adjoins_within r e unit) (fl_regions self)"

definition fl_adjoins_whole_unit :: "free_list \<Rightarrow> extent \<Rightarrow> byte_length \<Rightarrow> bool" where
  "fl_adjoins_whole_unit self e unit =
     list_ex (\<lambda>r. ext_adjoins_whole_unit r e unit) (fl_regions self)"

definition covered_len :: "free_list \<Rightarrow> extent \<Rightarrow> byte_length" where
  "covered_len self e =
     sum_list (map ext_len (List.map_filter (\<lambda>r. ext_intersection r e) (fl_regions self)))"

text \<open>The documented invariant: canonical regions, and a cached total equal to their sum.\<close>

definition fl_inv :: "free_list \<Rightarrow> bool" where
  "fl_inv l = (canonical (fl_regions l) \<and> fl_total l = region_total (fl_regions l))"

definition fl_bytes :: "free_list \<Rightarrow> nat set" where
  "fl_bytes l = region_bytes (fl_regions l)"

lemma fl_inv_eqI:
  assumes "fl_inv a" "fl_inv b" "fl_bytes a = fl_bytes b"
  shows "a = b"
proof -
  have "fl_regions a = fl_regions b"
    using assms canonical_unique by (auto simp: fl_inv_def fl_bytes_def)
  then show ?thesis using assms by (simp add: fl_inv_def)
qed

lemma fl_inv_new [simp]: "fl_inv fl_new" "fl_bytes fl_new = {}"
  by (simp_all add: fl_inv_def fl_bytes_def fl_new_def)

lemma fl_inv_card: "fl_inv l \<Longrightarrow> fl_total l = card (fl_bytes l)"
  by (simp add: fl_inv_def fl_bytes_def canonical_card)

lemma fl_inv_bounded: "fl_inv l \<Longrightarrow> fl_bytes l \<subseteq> {..<u64_max}"
  by (simp add: fl_inv_def fl_bytes_def canonical_bounded)

lemma finite_fl_bytes [simp]: "finite (fl_bytes l)"
  by (simp add: fl_bytes_def)

lemma fl_inv_empty_iff: "fl_inv l \<Longrightarrow> fl_bytes l = {} \<longleftrightarrow> fl_regions l = []"
  by (simp add: fl_inv_def fl_bytes_def region_bytes_empty_iff canonical_ordered)

section \<open>Construction from sorted extents\<close>

lemma push_coalesced_spec:
  assumes "canonical rs" "wf_extent e" "rs \<noteq> [] \<Longrightarrow> ext_end (last rs) \<le> ext_start e"
  shows "\<exists>rs'. push_coalesced rs e = Some rs' \<and> canonical rs' \<and> rs' \<noteq> []
     \<and> ext_end (last rs') = ext_end e \<and> region_bytes rs' = region_bytes rs \<union> ext_bytes e
     \<and> region_total rs' = region_total rs + ext_len e"
proof (cases rs rule: rev_cases)
  case Nil
  then show ?thesis using assms by (simp add: push_coalesced_def)
next
  case (snoc ys y)
  have y: "wf_extent y" "ext_end y \<le> ext_start e" "\<forall>x \<in> set ys. ext_end x < ext_start y"
    using assms snoc by (auto simp: canonical_append)
  show ?thesis
  proof (cases "ext_end y = ext_start e")
    case True
    define u where "u = \<lparr>ext_start = ext_start y, ext_len = ext_end e - ext_start y\<rparr>"
    have le: "ext_start y < ext_end e" "ext_end e \<le> u64_max"
      using y wf_extentD [OF assms(2)] wf_extentD [OF y(1)] by auto
    then have "push_coalesced rs e = Some (ys @ [u])"
      using True snoc by (simp add: push_coalesced_def checked u_def)
    moreover have "ext_bytes u = ext_bytes y \<union> ext_bytes e" "ext_len u = ext_len y + ext_len e"
      "wf_extent u" "ext_start u = ext_start y" "ext_end u = ext_end e"
      using True le by (auto simp: u_def ext_bytes_def ext_end_def)
    ultimately show ?thesis
      using assms(1) snoc y by (auto simp: canonical_append)
  next
    case False
    then show ?thesis
      using assms snoc y wf_extentD(2) [OF y(1)] by (fastforce simp: push_coalesced_def canonical_append)
  qed
qed

text \<open>\<^verbatim>\<open>from_sorted\<close> reports the first neighbouring pair that is out of order or overlaps.\<close>

definition order_violation :: "extent list \<Rightarrow> (extent \<times> extent) option" where
  "order_violation es = find (\<lambda>(a, b). ext_start b < ext_end a) (windows2 es)"

definition order_error_of :: "extent \<times> extent \<Rightarrow> free_list_error" where
  "order_error_of p =
     (if ext_start (snd p) < ext_start (fst p) then Unsorted (fst p) (snd p)
      else Overlap (fst p) (snd p))"

lemma order_violation_simps [simp]:
  "order_violation [] = None"
  "order_violation [a] = None"
  "order_violation (a # b # es) =
     (if ext_start b < ext_end a then Some (a, b) else order_violation (b # es))"
  by (simp_all add: order_violation_def)

lemma order_error_Some [simp]:
  assumes "wf_extent p"
  shows "order_error (Some p) e =
    (if ext_start e < ext_end p then Some (order_error_of (p, e)) else None)"
  using wf_extentD(2) [OF assms] by (simp add: order_error_def order_error_of_def)

lemma order_error_None [simp]: "order_error None e = None"
  by (simp add: order_error_def)

lemma order_violation_None:
  assumes "\<forall>e \<in> set es. wf_extent e"
  shows "order_violation es = None \<longleftrightarrow> ordered_regions es"
  using assms
proof (induction es rule: induct_list012)
  case (3 a b es)
  have "ext_end a \<le> ext_start r"
    if "ext_end a \<le> ext_start b" "ordered_regions (b # es)" "r \<in> set es" for r
    using that wf_extentD(2) [of b] by (meson order.strict_implies_order order.trans ordered_regions_simps(2))
  then have "ordered_regions (a # b # es) \<longleftrightarrow> ext_end a \<le> ext_start b \<and> ordered_regions (b # es)"
    using 3 by auto
  with 3 show ?case by (simp add: not_less)
qed simp_all

definition seeded :: "free_list \<Rightarrow> extent option \<Rightarrow> bool" where
  "seeded self prev =
     (fl_inv self \<and> (case prev of None \<Rightarrow> fl_regions self = []
        | Some p \<Rightarrow> wf_extent p \<and> fl_regions self \<noteq> [] \<and> ext_end (last (fl_regions self)) = ext_end p))"

lemma from_sorted_loop_step:
  assumes "seeded self prev" "wf_extent e" "order_error prev e = None"
  shows "\<exists>self'. from_sorted_loop self prev (e # es) = from_sorted_loop self' (Some e) es
     \<and> seeded self' (Some e) \<and> fl_bytes self' = fl_bytes self \<union> ext_bytes e"
proof -
  have *: "fl_regions self \<noteq> [] \<Longrightarrow> ext_end (last (fl_regions self)) \<le> ext_start e"
    using assms by (auto simp: seeded_def split: option.splits if_splits)
  obtain rs where rs: "push_coalesced (fl_regions self) e = Some rs" "canonical rs" "rs \<noteq> []"
      "ext_end (last rs) = ext_end e" "region_bytes rs = fl_bytes self \<union> ext_bytes e"
      "region_total rs = region_total (fl_regions self) + ext_len e"
    using push_coalesced_spec [OF _ assms(2) *] assms(1)
    by (auto simp: seeded_def fl_inv_def fl_bytes_def)
  then have "checked_add (fl_total self) (ext_len e) = Some (region_total rs)"
    using assms(1) canonical_total_le [OF rs(2)] by (auto simp: seeded_def fl_inv_def)
  then have "from_sorted_loop self prev (e # es)
      = from_sorted_loop \<lparr>fl_regions = rs, fl_total = region_total rs\<rparr> (Some e) es"
    using rs(1) assms(3) by (simp del: checked_add_Some)
  then show ?thesis using rs assms(2)
    by (intro exI [of _ "\<lparr>fl_regions = rs, fl_total = region_total rs\<rparr>"])
      (simp add: seeded_def fl_inv_def fl_bytes_def)
qed

lemma from_sorted_loop_ok:
  assumes "seeded self prev" "\<forall>e \<in> set es. wf_extent e"
    "order_violation ((case prev of None \<Rightarrow> [] | Some p \<Rightarrow> [p]) @ es) = None"
  shows "\<exists>l. from_sorted_loop self prev es = Some (Inr l) \<and> fl_inv l
     \<and> fl_bytes l = fl_bytes self \<union> region_bytes es"
  using assms
proof (induction es arbitrary: self prev)
  case Nil
  then show ?case by (simp add: seeded_def)
next
  case (Cons e es)
  have ok: "order_error prev e = None"
    using Cons.prems by (auto simp: seeded_def split: option.splits if_splits)
  obtain self' where s: "from_sorted_loop self prev (e # es) = from_sorted_loop self' (Some e) es"
    "seeded self' (Some e)" "fl_bytes self' = fl_bytes self \<union> ext_bytes e"
    using from_sorted_loop_step [OF Cons.prems(1) _ ok] Cons.prems(2) by (metis list.set_intros(1))
  have "order_violation (e # es) = None"
    using Cons.prems(3) by (auto split: option.splits if_splits)
  then obtain l where "from_sorted_loop self' (Some e) es = Some (Inr l)" "fl_inv l"
      "fl_bytes l = fl_bytes self' \<union> region_bytes es"
    using Cons.IH [OF s(2)] Cons.prems(2) by auto
  then show ?case using s by (auto simp del: from_sorted_loop.simps)
qed

lemma from_sorted_loop_error:
  assumes "seeded self prev" "\<forall>e \<in> set es. wf_extent e"
    "order_violation ((case prev of None \<Rightarrow> [] | Some p \<Rightarrow> [p]) @ es) = Some v"
  shows "from_sorted_loop self prev es = Some (Inl (order_error_of v))"
  using assms
proof (induction es arbitrary: self prev)
  case Nil
  then show ?case by (simp split: option.splits)
next
  case (Cons e es)
  show ?case
  proof (cases "order_error prev e")
    case None
    obtain self' where s: "from_sorted_loop self prev (e # es) = from_sorted_loop self' (Some e) es"
      "seeded self' (Some e)"
      using from_sorted_loop_step [OF Cons.prems(1) _ None] Cons.prems(2) by (metis list.set_intros(1))
    have "order_violation (e # es) = Some v"
      using Cons.prems None by (auto simp: seeded_def split: option.splits if_splits)
    then show ?thesis using Cons.IH [OF s(2)] Cons.prems(2) s(1) by auto
  next
    case (Some err)
    then show ?thesis
      using Cons.prems by (auto simp: seeded_def split: option.splits if_splits)
  qed
qed

lemma seeded_new: "seeded fl_new None"
  by (simp add: seeded_def) (simp add: fl_new_def)

lemma from_sorted_ok:
  assumes "ordered_regions es"
  shows "\<exists>l. from_sorted es = Some (Inr l) \<and> fl_inv l \<and> fl_bytes l = region_bytes es"
  using from_sorted_loop_ok [OF seeded_new, of es] order_violation_None [of es] assms ordered_wf
  by (auto simp: from_sorted_def)

lemma from_sorted_error:
  assumes "\<forall>e \<in> set es. wf_extent e" "order_violation es = Some v"
  shows "from_sorted es = Some (Inl (order_error_of v))"
  using from_sorted_loop_error [OF seeded_new, of es] assms by (simp add: from_sorted_def)

section \<open>Freeing an extent\<close>

lemma canonical_dropWhile_ends:
  assumes "canonical rs" "r \<in> set (dropWhile (\<lambda>r. ext_end r < s) rs)"
  shows "s \<le> ext_end r"
  using assms
proof (induction rs)
  case (Cons a rs)
  have "s \<le> ext_end r" if "s \<le> ext_end a" "r \<in> set rs"
    using that Cons.prems(1) wf_extentD(2) [of r] canonical_wf [of rs r] by fastforce
  then show ?case using Cons by (auto split: if_splits)
qed simp

lemma free_merge_spec:
  assumes "canonical rs" "s < t" "t \<le> u64_max" "region_total rs \<le> tot"
    "\<forall>r \<in> set rs. s \<le> ext_end r" "dbg \<Longrightarrow> ext_bytes e \<inter> region_bytes rs = {}" "wf_extent e"
  shows "\<exists>s' t' tot' after. free_merge dbg e s t tot rs = Some (s', t', tot', after)
     \<and> {s' ..< t'} \<union> region_bytes after = {s ..< t} \<union> region_bytes rs
     \<and> canonical after \<and> (\<forall>r \<in> set after. t' < ext_start r) \<and> s' \<le> s \<and> t \<le> t' \<and> t' \<le> u64_max
     \<and> tot' + region_total rs = tot + region_total after
     \<and> (s' = s \<or> (\<exists>r \<in> set rs. s' = ext_start r))"
  using assms
proof (induction rs arbitrary: s t tot)
  case Nil
  then show ?case by simp
next
  case (Cons r rs)
  show ?case
  proof (cases "ext_start r \<le> t")
    case True
    have r: "wf_extent r" "\<forall>x \<in> set rs. ext_end r < ext_start x" "canonical rs"
      using Cons.prems(1) by auto
    have ends: "\<forall>x \<in> set rs. min s (ext_start r) \<le> ext_end x"
      using Cons.prems(5) by (auto intro: min.coboundedI1)
    have guard: "\<not> dbg \<or> ext_end e \<le> ext_start r \<or> ext_end r \<le> ext_start e"
      using Cons.prems(6) ext_bytes_disjoint_iff [OF Cons.prems(7) r(1)] by auto
    have "min s (ext_start r) < max t (ext_end r)" "max t (ext_end r) \<le> u64_max"
      "region_total rs \<le> tot - ext_len r" "dbg \<Longrightarrow> ext_bytes e \<inter> region_bytes rs = {}"
      using Cons.prems wf_extentD [OF r(1)] by auto
    from Cons.IH [OF r(3) this(1,2,3) ends this(4) Cons.prems(7)]
    obtain s' t' tot' after where ih:
      "free_merge dbg e (min s (ext_start r)) (max t (ext_end r)) (tot - ext_len r) rs
         = Some (s', t', tot', after)"
      "{s' ..< t'} \<union> region_bytes after
         = {min s (ext_start r) ..< max t (ext_end r)} \<union> region_bytes rs"
      "canonical after" "\<forall>r \<in> set after. t' < ext_start r" "s' \<le> min s (ext_start r)"
      "max t (ext_end r) \<le> t'" "t' \<le> u64_max"
      "tot' + region_total rs = (tot - ext_len r) + region_total after"
      "s' = min s (ext_start r) \<or> (\<exists>r \<in> set rs. s' = ext_start r)" by blast
    have "free_merge dbg e s t tot (r # rs) = Some (s', t', tot', after)"
      using True guard ih(1) Cons.prems(4) by (simp add: checked debug_assert_def)
    moreover have "{min s (ext_start r) ..< max t (ext_end r)} = {s ..< t} \<union> ext_bytes r"
      using True Cons.prems(2,5) wf_extentD(2) [OF r(1)] by (auto simp: ext_bytes_def)
    ultimately show ?thesis
      using ih Cons.prems(4) by (auto simp: min_def split: if_splits)
  next
    case False
    have "\<forall>x \<in> set rs. t < ext_start x"
      using False Cons.prems(1) wf_extentD(2) [of r] by fastforce
    with False show ?thesis using Cons.prems by simp
  qed
qed

text \<open>With debug assertions a freed extent must not overlap the list; without them it is merged.\<close>

lemma fl_free_spec:
  assumes inv: "fl_inv l" and e: "wf_extent e" and "dbg \<Longrightarrow> ext_bytes e \<inter> fl_bytes l = {}"
  shows "\<exists>l'. fl_free dbg l e = Some l' \<and> fl_inv l' \<and> fl_bytes l' = fl_bytes l \<union> ext_bytes e"
proof -
  define before where "before = takeWhile (\<lambda>r. ext_end r < ext_start e) (fl_regions l)"
  define rest where "rest = dropWhile (\<lambda>r. ext_end r < ext_start e) (fl_regions l)"
  have split: "fl_regions l = before @ rest" by (simp add: before_def rest_def)
  have can: "canonical before" "canonical rest"
      "\<forall>x \<in> set before. \<forall>y \<in> set rest. ext_end x < ext_start y"
    using inv by (auto simp: fl_inv_def split canonical_append)
  have before: "\<forall>x \<in> set before. ext_end x < ext_start e"
    by (auto simp: before_def dest: set_takeWhileD)
  have rest: "\<forall>r \<in> set rest. ext_start e \<le> ext_end r"
    using canonical_dropWhile_ends inv by (auto simp: fl_inv_def rest_def)
  have tot: "fl_total l = region_total before + region_total rest"
    using inv by (simp add: fl_inv_def split)
  have "dbg \<Longrightarrow> ext_bytes e \<inter> region_bytes rest = {}"
    using assms(3) by (auto simp: fl_bytes_def split)
  moreover have "region_total rest \<le> fl_total l" using tot by simp
  ultimately obtain s t tot' after where m:
    "free_merge dbg e (ext_start e) (ext_end e) (fl_total l) rest = Some (s, t, tot', after)"
    "{s ..< t} \<union> region_bytes after = {ext_start e ..< ext_end e} \<union> region_bytes rest"
    "canonical after" "\<forall>r \<in> set after. t < ext_start r" "s \<le> ext_start e" "ext_end e \<le> t"
    "t \<le> u64_max" "tot' + region_total rest = fl_total l + region_total after"
    "s = ext_start e \<or> (\<exists>r \<in> set rest. s = ext_start r)"
    using free_merge_spec [OF can(2) wf_extentD(2,3) [OF e] _ rest _ e] by blast
  define u where "u = \<lparr>ext_start = s, ext_len = t - s\<rparr>"
  have st: "s < t" using m(5,6) wf_extentD(2) [OF e] by linarith
  have low: "\<forall>x \<in> set before. ext_end x < s" using can(3) before m(9) by auto
  then have "\<forall>x \<in> set before. \<forall>y \<in> set after. ext_end x < ext_start y"
    using m(4) st by (meson less_trans)
  then have canu: "canonical (before @ u # after)"
    using can(1) low m(3,4,7) st by (auto simp: canonical_append u_def)
  have "tot' + ext_len u = region_total (before @ u # after)" using m(8) tot by simp
  then have "fl_free dbg l e
      = Some \<lparr>fl_regions = before @ u # after, fl_total = region_total (before @ u # after)\<rparr>"
    using m(1,7) st canonical_total_le [OF canu]
    unfolding fl_free_def Let_def before_def [symmetric] rest_def [symmetric]
    by (simp add: checked u_def)
  moreover have "region_bytes (before @ u # after) = fl_bytes l \<union> ext_bytes e"
    using m(2) st unfolding u_def fl_bytes_def split ext_bytes_def by auto
  ultimately show ?thesis using canu by (simp add: fl_inv_def fl_bytes_def)
qed

lemma fl_free_panics:
  assumes inv: "fl_inv l" and e: "wf_extent e" and overlap: "ext_bytes e \<inter> fl_bytes l \<noteq> {}"
  shows "fl_free True l e = None"
proof -
  have "free_merge True e s t tot rs = None"
    if "r \<in> set rs" "canonical rs" "ext_bytes e \<inter> ext_bytes r \<noteq> {}" "ext_end e \<le> t"
    for s t tot rs r
    using that
  proof (induction rs arbitrary: s t tot)
    case (Cons a rs)
    have le: "ext_start a \<le> ext_end e"
      using Cons.prems canonical_wf [OF Cons.prems(2), of a] wf_extentD(2) [of a]
      by (fastforce simp: ext_bytes_def)
    show ?case
    proof (cases "ext_end e \<le> ext_start a \<or> ext_end a \<le> ext_start e")
      case True
      then have "r \<noteq> a" using Cons.prems(3) by (auto simp: ext_bytes_def)
      then have "r \<in> set rs" "canonical rs" using Cons.prems by auto
      then show ?thesis
        using Cons.IH Cons.prems(3,4) le by (simp add: bind_eq_None_conv max.coboundedI1)
    next
      case False
      then show ?thesis using le Cons.prems(4) by (simp add: debug_assert_def)
    qed
  qed simp
  moreover obtain r where r: "r \<in> set (fl_regions l)" "ext_bytes e \<inter> ext_bytes r \<noteq> {}"
    using overlap by (auto simp: fl_bytes_def region_bytes_def)
  have "r \<in> set (dropWhile (\<lambda>r. ext_end r < ext_start e) (fl_regions l))"
  proof -
    have "r \<notin> set (takeWhile (\<lambda>r. ext_end r < ext_start e) (fl_regions l))"
      using r(2) by (auto dest!: set_takeWhileD simp: ext_bytes_def)
    then show ?thesis using r(1) by (metis UnE set_append takeWhile_dropWhile_id)
  qed
  moreover have "canonical (dropWhile (\<lambda>r. ext_end r < ext_start e) (fl_regions l))"
    using inv by (metis canonical_append fl_inv_def takeWhile_dropWhile_id)
  ultimately show ?thesis using r(2) by (simp add: fl_free_def Let_def)
qed

end
