(* ===== verification/Free_List_Ops.thy ===== *)
theory Free_List_Ops
  imports Free_List
begin

text \<open>
  What the remaining operations of the free list do to the set of free bytes: merging several
  lists, the three allocation policies, removal of one range or of a list of ranges, the
  intersection of two lists and the run of free space below the end of allocation.

  Every operation that changes the list is shown to return (no \<^verbatim>\<open>expect\<close> fails), to keep
  \<open>fl_inv\<close> and to change \<open>fl_bytes\<close> by the set operation it is named after. A list that satisfies
  \<open>fl_inv\<close> is determined by its bytes (\<open>fl_inv_eqI\<close>).
\<close>

section \<open>Merging several lists\<close>

lemma sorted_starts_ordered_iff:
  assumes "\<forall>e \<in> set es. wf_extent e" "sorted (map ext_start es)"
  shows "ordered_regions es \<longleftrightarrow> card (region_bytes es) = region_total es"
proof
  show "card (region_bytes es) = region_total es" if "ordered_regions es"
    using that by (rule ordered_card)
  have le: "card (region_bytes xs) \<le> region_total xs" for xs
  proof (induction xs)
    case (Cons x xs)
    then show ?case
      using card_Un_le [of "ext_bytes x" "region_bytes xs"] by simp
  qed simp
  show "ordered_regions es" if "card (region_bytes es) = region_total es"
    using assms that
  proof (induction es)
    case (Cons e es)
    have "card (ext_bytes e \<union> region_bytes es) + card (ext_bytes e \<inter> region_bytes es)
        = ext_len e + card (region_bytes es)"
      using card_Un_Int [of "ext_bytes e" "region_bytes es"] by simp
    with Cons.prems(3) le [of es]
    have "card (region_bytes es) = region_total es" "card (ext_bytes e \<inter> region_bytes es) = 0"
      unfolding region_bytes_simps region_total_simps by linarith+
    then have *: "card (region_bytes es) = region_total es" "ext_bytes e \<inter> region_bytes es = {}"
      by simp_all
    have "ext_end e \<le> ext_start r" if "r \<in> set es" for r
    proof -
      have "wf_extent r" "ext_start e \<le> ext_start r" using Cons.prems that by auto
      moreover have "ext_start r \<notin> ext_bytes e"
        using *(2) ext_bytes_subset_region [OF that] ext_start_in_bytes [OF \<open>wf_extent r\<close>] by auto
      ultimately show ?thesis by (auto simp: ext_bytes_def)
    qed
    with * Cons show ?case by simp
  qed simp
qed

lemma list_heads_iff:
  "(i, s) \<in> set (list_heads xss) \<longleftrightarrow>
     i < length xss \<and> (\<exists>x xs. xss ! i = x # xs \<and> s = ext_start x)"
proof
  assume "i < length xss \<and> (\<exists>x xs. xss ! i = x # xs \<and> s = ext_start x)"
  then obtain x xs where x: "i < length xss" "xss ! i = x # xs" "s = ext_start x" by blast
  have "(i, x # xs) \<in> set (enumerate 0 xss)" using x(1,2) by (simp add: in_set_enumerate_eq)
  then show "(i, s) \<in> set (list_heads xss)" unfolding list_heads_def set_concat set_map
    by (rule UN_I [OF imageI]) (simp add: x(3))
qed (auto simp: list_heads_def in_set_enumerate_eq split: list.splits)

lemma merge_lists_cases:
  obtains (empty) "\<forall>xs \<in> set xss. xs = []" "merge_lists xss = []"
  | (step) i x xs where "i < length xss" "xss ! i = x # xs"
      "merge_lists xss = x # merge_lists (xss[i := xs])"
      "\<And>ys y. y # ys \<in> set xss \<Longrightarrow> ext_start x \<le> ext_start y"
proof (cases "min_by_key snd (list_heads xss)")
  case None
  then have none: "list_heads xss = []" by simp
  have "xs = []" if "xs \<in> set xss" for xs
  proof (cases xs)
    case (Cons y ys)
    with \<open>xs \<in> set xss\<close> obtain i where "i < length xss" "xss ! i = y # ys"
      by (meson in_set_conv_nth)
    then have "(i, ext_start y) \<in> set (list_heads xss)" by (simp add: list_heads_iff)
    with none show ?thesis by simp
  qed
  with None show thesis by (intro empty) (simp_all add: merge_lists.simps [of xss])
next
  case (Some p)
  obtain i s where p: "p = (i, s)" by fastforce
  have "(i, s) \<in> set (list_heads xss)" using min_by_key_in [OF Some] p by simp
  then obtain x xs where x: "i < length xss" "xss ! i = x # xs" "s = ext_start x"
    unfolding list_heads_iff by blast
  have "ext_start x \<le> ext_start y" if y: "y # ys \<in> set xss" for y ys
  proof -
    obtain j where "j < length xss" "xss ! j = y # ys" using y by (meson in_set_conv_nth)
    then have "(j, ext_start y) \<in> set (list_heads xss)" by (simp add: list_heads_iff)
    from min_by_key_le [OF Some this] show ?thesis using p x by simp
  qed
  with x Some p show thesis by (intro step) (simp_all add: merge_lists.simps [of xss])
qed

lemma concat_update_tl:
  assumes "i < length xss" "xss ! i = x # xs"
  shows "\<exists>us vs. concat xss = us @ x # vs \<and> concat (xss[i := xs]) = us @ vs"
proof -
  have "concat xss = concat (take i xss) @ x # (xs @ concat (drop (Suc i) xss))"
    by (subst id_take_nth_drop [OF assms(1)]) (simp add: assms)
  moreover have "concat (xss[i := xs]) = concat (take i xss) @ xs @ concat (drop (Suc i) xss)"
    using assms by (simp add: upd_conv_take_nth_drop)
  ultimately show ?thesis by blast
qed

lemma merge_lists_spec:
  assumes "\<forall>xs \<in> set xss. sorted (map ext_start xs)"
  shows "sorted (map ext_start (merge_lists xss)) \<and> set (merge_lists xss) = set (concat xss)
     \<and> region_total (merge_lists xss) = region_total (concat xss)"
  using assms
proof (induction xss rule: measure_induct_rule [where f = "\<lambda>xss. length (concat xss)"])
  case (less xss)
  show ?case
  proof (cases xss rule: merge_lists_cases)
    case empty
    have "concat xss = []" using empty(1) by (simp only: concat_eq_Nil_conv)
    then show ?thesis unfolding empty(2) by (simp only: region_total_simps list.map sorted_simps)
  next
    case (step i x xs)
    obtain us vs where uv: "concat xss = us @ x # vs" "concat (xss[i := xs]) = us @ vs"
      using concat_update_tl [OF step(1,2)] by blast
    have "sorted (map ext_start (x # xs))"
      using less.prems step(1,2) nth_mem by fastforce
    then have srt: "\<forall>ys \<in> set (xss[i := xs]). sorted (map ext_start ys)"
      using less.prems set_update_subset_insert [of xss i xs] by auto
    then have ih: "sorted (map ext_start (merge_lists (xss[i := xs])))"
      "set (merge_lists (xss[i := xs])) = set (us @ vs)"
      "region_total (merge_lists (xss[i := xs])) = region_total (us @ vs)"
      using less.IH [of "xss[i := xs]"] uv by auto
    have "ext_start x \<le> ext_start z" if "z \<in> set (us @ vs)" for z
    proof -
      have "z \<in> set (concat xss)" using that uv(1) by auto
      then obtain zs where "zs \<in> set xss" "z \<in> set zs" by auto
      then obtain y ys where "zs = y # ys" "y # ys \<in> set xss" by (metis list.exhaust empty_iff list.set(1))
      with step(4) less.prems \<open>z \<in> set zs\<close> show ?thesis
        by (fastforce intro: order.trans)
    qed
    with step(3) ih uv(1) show ?thesis by auto
  qed
qed

lemma canonical_sorted_starts: "canonical rs \<Longrightarrow> sorted (map ext_start rs)"
proof (induction rs)
  case (Cons r rs)
  then show ?case using wf_extentD(2) [of r] by fastforce
qed simp

lemma region_bytes_concat: "region_bytes (concat xss) = \<Union>(set (map region_bytes xss))"
  by (auto simp: region_bytes_def)

lemma region_total_concat: "region_total (concat xss) = sum_list (map region_total xss)"
  by (induction xss) auto

lemma merge_lists_ordered:
  assumes "\<forall>l \<in> set ls. fl_inv l"
  defines "m \<equiv> merge_lists (map fl_regions ls)"
  shows "\<forall>e \<in> set m. wf_extent e" "sorted (map ext_start m)" "region_bytes m = \<Union>(fl_bytes ` set ls)"
    "ordered_regions m \<longleftrightarrow> disjoint_all (map fl_bytes ls)"
proof -
  have *: "sorted (map ext_start m)" "set m = set (concat (map fl_regions ls))"
    "region_total m = region_total (concat (map fl_regions ls))"
    using merge_lists_spec [of "map fl_regions ls"] assms(1)
    by (auto simp: m_def fl_inv_def canonical_sorted_starts)
  show srt: "sorted (map ext_start m)" by fact
  show wf: "\<forall>e \<in> set m. wf_extent e"
    using assms(1) *(2) by (auto simp: fl_inv_def canonical_wf)
  show bytes: "region_bytes m = \<Union>(fl_bytes ` set ls)"
    using region_bytes_set_eq [OF *(2)] by (simp add: region_bytes_concat fl_bytes_def)
  have "region_total m = sum_list (map card (map fl_bytes ls))"
    using *(3) assms(1) fl_inv_card
    by (auto simp: region_total_concat fl_inv_def intro!: arg_cong [of _ _ sum_list])
  then show "ordered_regions m \<longleftrightarrow> disjoint_all (map fl_bytes ls)"
    using sorted_starts_ordered_iff [OF wf srt] bytes disjoint_all_card(2) [of "map fl_bytes ls"]
    by simp
qed

lemma from_lists_ok:
  assumes "\<forall>l \<in> set ls. fl_inv l" "disjoint_all (map fl_bytes ls)"
  shows "\<exists>l. from_lists ls = Some (Inr l) \<and> fl_inv l \<and> fl_bytes l = \<Union>(fl_bytes ` set ls)"
  using from_sorted_ok [of "merge_lists (map fl_regions ls)"] merge_lists_ordered [OF assms(1)]
    assms(2) by (simp add: from_lists_def)

lemma order_violation_in:
  "order_violation es = Some (a, b) \<Longrightarrow> \<exists>us vs. es = us @ a # b # vs \<and> ext_start b < ext_end a"
proof (induction es rule: induct_list012)
  case (3 x y zs)
  show ?case
  proof (cases "ext_start y < ext_end x")
    case True
    then have "x # y # zs = [] @ a # b # zs \<and> ext_start b < ext_end a" using "3.prems" by auto
    then show ?thesis by blast
  next
    case False
    then obtain us vs where "y # zs = us @ a # b # vs" "ext_start b < ext_end a"
      using 3 by auto
    then have "x # y # zs = (x # us) @ a # b # vs \<and> ext_start b < ext_end a" by simp
    then show ?thesis by blast
  qed
qed auto

lemma from_lists_error:
  assumes "\<forall>l \<in> set ls. fl_inv l" "\<not> disjoint_all (map fl_bytes ls)"
  shows "\<exists>a b. from_lists ls = Some (Inl (Overlap a b)) \<and> ext_bytes a \<inter> ext_bytes b \<noteq> {}"
proof -
  define m where "m = merge_lists (map fl_regions ls)"
  note m = merge_lists_ordered [OF assms(1), folded m_def]
  have "order_violation m \<noteq> None" using m(4) assms(2) order_violation_None [OF m(1)] by simp
  then obtain a b where v: "order_violation m = Some (a, b)" by auto
  from order_violation_in [OF v] obtain us vs
    where uv: "m = us @ a # b # vs" "ext_start b < ext_end a" by blast
  have le: "ext_start a \<le> ext_start b" using m(2) by (simp add: uv sorted_append)
  have "wf_extent b" using m(1) by (simp add: uv)
  then have "ext_start b \<in> ext_bytes a \<inter> ext_bytes b"
    using uv(2) le ext_start_in_bytes by (auto simp: ext_bytes_def)
  moreover have "from_lists ls = Some (Inl (Overlap a b))"
    using from_sorted_error [OF m(1) v] le
    by (simp add: from_lists_def m_def [symmetric] order_error_of_def)
  ultimately show ?thesis by blast
qed

section \<open>Removing a range\<close>

text \<open>The pieces of a region that lie below and above a range that meets it.\<close>

definition ext_piece :: "nat \<Rightarrow> nat \<Rightarrow> extent list" where
  "ext_piece s t = (if s < t then [\<lparr>ext_start = s, ext_len = t - s\<rparr>] else [])"

definition carve :: "extent \<Rightarrow> extent \<Rightarrow> extent list" where
  "carve r e = ext_piece (ext_start r) (ext_start e) @ ext_piece (ext_end e) (ext_end r)"

definition meets :: "extent \<Rightarrow> extent \<Rightarrow> bool" where
  "meets r e \<longleftrightarrow> max (ext_start r) (ext_start e) < min (ext_end r) (ext_end e)"

definition overlap_len :: "extent \<Rightarrow> extent \<Rightarrow> nat" where
  "overlap_len r e = min (ext_end r) (ext_end e) - max (ext_start r) (ext_start e)"

definition cut_region :: "extent \<Rightarrow> extent \<Rightarrow> extent list" where
  "cut_region e r = (if meets r e then carve r e else [r])"

definition inside :: "extent \<Rightarrow> extent \<Rightarrow> bool" where
  "inside p r \<longleftrightarrow> ext_start r \<le> ext_start p \<and> ext_end p \<le> ext_end r"

lemma ext_piece_simps:
  "region_bytes (ext_piece s t) = {s ..< t}"
  "region_total (ext_piece s t) = t - s"
  "t \<le> u64_max \<Longrightarrow> canonical (ext_piece s t)"
  "p \<in> set (ext_piece s t) \<Longrightarrow> ext_start p = s \<and> ext_end p = t \<and> s < t"
  by (auto simp: ext_piece_def split: if_splits)

lemma ext_intersection_eq:
  assumes "wf_extent r"
  shows "ext_intersection r e = (if meets r e
     then Some \<lparr>ext_start = max (ext_start r) (ext_start e), ext_len = overlap_len r e\<rparr> else None)"
proof (cases "meets r e")
  case True
  have "min (ext_end r) (ext_end e) \<le> u64_max" using wf_extentD(3) [OF assms] by linarith
  with True show ?thesis
    unfolding if_P [OF True] ext_intersection_Some by (simp add: meets_def overlap_len_def)
next
  case False
  then show ?thesis
    using ext_intersection_Some [of r e] unfolding meets_def by (metis not_None_eq)
qed

lemma not_meets_bytes: "\<not> meets r e \<Longrightarrow> ext_bytes r \<inter> ext_bytes e = {}"
  by (auto simp: meets_def ext_bytes_def)

lemma carve_meet:
  assumes r: "wf_extent r" and e: "wf_extent e" and "meets r e"
  shows "canonical (carve r e)" "\<forall>p \<in> set (carve r e). inside p r"
    "region_bytes (carve r e) = ext_bytes r - ext_bytes e"
    "region_total (carve r e) + overlap_len r e = ext_len r"
proof -
  note meet = assms(3) [unfolded meets_def]
  note w = wf_extentD [OF r] wf_extentD [OF e]
  have "canonical (ext_piece (ext_start r) (ext_start e))"
    "canonical (ext_piece (ext_end e) (ext_end r))"
    using w by (simp_all add: ext_piece_simps)
  then show "canonical (carve r e)"
    using meet by (auto simp: carve_def canonical_append dest!: ext_piece_simps(4))
  show "\<forall>p \<in> set (carve r e). inside p r"
    using meet by (auto simp: carve_def inside_def dest!: ext_piece_simps(4))
  show "region_bytes (carve r e) = ext_bytes r - ext_bytes e"
    using meet by (auto simp: carve_def ext_piece_simps ext_bytes_def)
  show "region_total (carve r e) + overlap_len r e = ext_len r"
    using meet w by (auto simp: carve_def ext_piece_simps ext_len_eq overlap_len_def)
qed

lemma inside_meet:
  "wf_extent e \<Longrightarrow> inside e r \<Longrightarrow> meets r e"
  by (auto simp: inside_def meets_def dest: wf_extentD(2))

lemma inside_bytes: "inside p r \<Longrightarrow> ext_bytes p \<subseteq> ext_bytes r"
  by (auto simp: inside_def ext_bytes_def)

lemma carve_inside:
  assumes "wf_extent r" "wf_extent e" "inside e r"
  shows "region_total (carve r e) + ext_len e = ext_len r"
  using carve_meet(4) [OF assms(1,2) inside_meet [OF assms(2,3)]] assms(3)
  by (simp add: inside_def overlap_len_def max_absorb2 min_absorb2 ext_len_eq)

lemma canonical_concat_inside:
  assumes "canonical rs" "\<forall>r \<in> set rs. canonical (f r) \<and> (\<forall>p \<in> set (f r). inside p r)"
  shows "canonical (concat (map f rs))"
  using assms
proof (induction rs)
  case (Cons r rs)
  have "ext_end p < ext_start q" if "p \<in> set (f r)" "r' \<in> set rs" "q \<in> set (f r')" for p q r'
  proof -
    have "ext_end p \<le> ext_end r" "ext_end r < ext_start r'" "ext_start r' \<le> ext_start q"
      using Cons.prems that by (auto simp: inside_def)
    then show ?thesis by linarith
  qed
  with Cons show ?case by (auto simp: canonical_append)
qed simp

lemma canonical_replace:
  assumes "canonical (xs @ r # ys)" "canonical ps" "\<forall>p \<in> set ps. inside p r"
  shows "canonical (xs @ ps @ ys)"
proof -
  have "\<forall>x \<in> set xs. \<forall>p \<in> set ps. ext_end x < ext_start p"
    "\<forall>p \<in> set ps. \<forall>y \<in> set ys. ext_end p < ext_start y"
    using assms unfolding canonical_append canonical_simps inside_def
    by (meson less_le_trans le_less_trans list.set_intros(1))+
  then show ?thesis using assms by (auto simp: canonical_append)
qed

lemma canonical_others_disjoint:
  assumes "canonical (xs @ r # ys)"
  shows "ext_bytes r \<inter> (region_bytes xs \<union> region_bytes ys) = {}"
proof -
  have "ordered_regions (r # ys)" using assms canonical_append canonical_ordered by blast
  then have "ext_bytes r \<inter> region_bytes ys = {}" by (rule ordered_head_disjoint)
  moreover have "region_bytes xs \<inter> region_bytes (r # ys) = {}"
    by (rule ordered_append_disjoint [OF canonical_ordered [OF assms]])
  ultimately show ?thesis by auto
qed

lemma carve_in_list:
  assumes can: "canonical (xs @ r # ys)" and e: "wf_extent e" "inside e r"
  shows "canonical (xs @ carve r e @ ys)"
    "region_bytes (xs @ carve r e @ ys) = region_bytes (xs @ r # ys) - ext_bytes e"
    "region_total (xs @ carve r e @ ys) + ext_len e = region_total (xs @ r # ys)"
proof -
  have r: "wf_extent r" using can by (simp add: canonical_append)
  note c = carve_meet [OF r e(1) inside_meet [OF e]]
  show "canonical (xs @ carve r e @ ys)" by (rule canonical_replace [OF can c(1,2)])
  show "region_bytes (xs @ carve r e @ ys) = region_bytes (xs @ r # ys) - ext_bytes e"
    using canonical_others_disjoint [OF can] inside_bytes [OF e(2)]
    unfolding region_bytes_simps c(3) by blast
  show "region_total (xs @ carve r e @ ys) + ext_len e = region_total (xs @ r # ys)"
    using carve_inside [OF r e] by simp
qed

lemma cut_region_spec:
  assumes r: "wf_extent r" and e: "wf_extent e"
  shows "canonical (cut_region e r)" "\<forall>p \<in> set (cut_region e r). inside p r"
    "region_bytes (cut_region e r) = ext_bytes r - ext_bytes e"
proof -
  show "canonical (cut_region e r)" "\<forall>p \<in> set (cut_region e r). inside p r"
    using carve_meet(1,2) [OF r e] r by (simp_all add: cut_region_def inside_def)
  show "region_bytes (cut_region e r) = ext_bytes r - ext_bytes e"
    using carve_meet(3) [OF r e] not_meets_bytes [of r e] by (auto simp: cut_region_def)
qed

lemma take_range_loop_step:
  assumes "wf_extent r" "wf_extent e" "ext_len r \<le> tot"
  shows "take_range_loop e tot out (r # rs) = take_range_loop e
     (tot - (if meets r e then overlap_len r e else 0)) (out @ cut_region e r) rs"
proof (cases "meets r e")
  case True
  have "overlap_len r e \<le> tot" using carve_meet(4) [OF assms(1,2) True] assms(3) by simp
  with True show ?thesis
    using wf_extentD(3) [OF assms(1)] wf_extentD(3,4) [OF assms(2)]
    by (simp add: ext_intersection_eq [OF assms(1)] checked cut_region_def carve_def ext_piece_def)
next
  case False
  then show ?thesis by (simp add: ext_intersection_eq [OF assms(1)] cut_region_def)
qed

lemma take_range_loop_eq:
  assumes "canonical rs" "wf_extent e" "region_total rs \<le> tot"
  shows "\<exists>tot'. take_range_loop e tot out rs = Some (out @ concat (map (cut_region e) rs), tot')
     \<and> tot' + region_total rs = tot + region_total (concat (map (cut_region e) rs))"
  using assms
proof (induction rs arbitrary: tot out)
  case (Cons r rs)
  have r: "wf_extent r" "canonical rs" "ext_len r \<le> tot" using Cons.prems by auto
  define k where "k = (if meets r e then overlap_len r e else 0)"
  have k: "region_total (cut_region e r) + k = ext_len r"
    using carve_meet(4) [OF r(1) assms(2)] by (simp add: cut_region_def k_def)
  then have "region_total rs \<le> tot - k" using Cons.prems(3) by simp
  from Cons.IH [OF r(2) assms(2) this, of "out @ cut_region e r"]
  obtain tot' where ih: "take_range_loop e (tot - k) (out @ cut_region e r) rs
       = Some ((out @ cut_region e r) @ concat (map (cut_region e) rs), tot')"
    "tot' + region_total rs = (tot - k) + region_total (concat (map (cut_region e) rs))" by auto
  have "take_range_loop e tot out (r # rs)
      = take_range_loop e (tot - k) (out @ cut_region e r) rs"
    unfolding k_def by (rule take_range_loop_step [OF r(1) assms(2) r(3)])
  with ih k r(3) show ?case by (simp del: take_range_loop.simps)
qed simp

lemma take_range_spec:
  assumes inv: "fl_inv l" and e: "wf_extent e"
  shows "\<exists>l'. take_range l e = Some l' \<and> fl_inv l' \<and> fl_bytes l' = fl_bytes l - ext_bytes e"
proof -
  define rs where "rs = concat (map (cut_region e) (fl_regions l))"
  have can: "canonical (fl_regions l)" using inv by (simp add: fl_inv_def)
  obtain tot' where loop: "take_range_loop e (fl_total l) [] (fl_regions l) = Some (rs, tot')"
    "tot' + region_total (fl_regions l) = fl_total l + region_total rs"
    using take_range_loop_eq [OF can e, of "fl_total l" "[]"] inv by (auto simp: rs_def fl_inv_def)
  have "canonical rs" unfolding rs_def
    by (rule canonical_concat_inside [OF can])
      (use cut_region_spec(1,2) [OF canonical_wf [OF can] e] in blast)
  moreover have "region_bytes rs = fl_bytes l - ext_bytes e"
    using cut_region_spec(3) [OF canonical_wf [OF can] e]
    by (auto simp: rs_def region_bytes_concat fl_bytes_def region_bytes_def)
  moreover have "tot' = region_total rs" using loop(2) inv by (simp add: fl_inv_def)
  ultimately show ?thesis using loop(1) by (simp add: take_range_def fl_inv_def fl_bytes_def)
qed

section \<open>Allocation\<close>

text \<open>\<open>handed_out l a l'\<close>: the bytes of \<open>a\<close> were free in \<open>l\<close> and exactly they left the list.\<close>

definition handed_out :: "free_list \<Rightarrow> extent \<Rightarrow> free_list \<Rightarrow> bool" where
  "handed_out l a l' \<longleftrightarrow> fl_inv l' \<and> wf_extent a \<and> ext_bytes a \<subseteq> fl_bytes l
     \<and> fl_bytes l' = fl_bytes l - ext_bytes a"

lemma region_in_bytes: "r \<in> set (fl_regions l) \<Longrightarrow> ext_bytes r \<subseteq> fl_bytes l"
  by (simp add: fl_bytes_def ext_bytes_subset_region)

lemma fl_region_wf: "fl_inv l \<Longrightarrow> r \<in> set (fl_regions l) \<Longrightarrow> wf_extent r"
  by (auto simp: fl_inv_def intro: canonical_wf)

lemma take_range_handed_out:
  assumes "fl_inv l" "wf_extent a" "r \<in> set (fl_regions l)" "inside a r"
  shows "\<exists>l'. take_range l a = Some l' \<and> handed_out l a l'"
  using take_range_spec [OF assms(1,2)] inside_bytes [OF assms(4)] region_in_bytes [OF assms(3)]
    assms(2) by (auto simp: handed_out_def)

definition carved :: "free_list \<Rightarrow> nat \<Rightarrow> extent \<Rightarrow> free_list" where
  "carved l i a =
     \<lparr>fl_regions = take i (fl_regions l) @ carve (fl_regions l ! i) a @ drop (Suc i) (fl_regions l),
      fl_total = fl_total l - ext_len a\<rparr>"

lemma carved_handed_out:
  assumes inv: "fl_inv l" and i: "i < length (fl_regions l)" and a: "wf_extent a"
    and in_region: "inside a (fl_regions l ! i)"
  shows "handed_out l a (carved l i a)" "ext_len a \<le> fl_total l"
proof -
  let ?rs = "fl_regions l"
  have eq: "?rs = take i ?rs @ ?rs ! i # drop (Suc i) ?rs" by (rule canonical_split_at [OF i])
  have can: "canonical (take i ?rs @ ?rs ! i # drop (Suc i) ?rs)"
    using inv eq by (simp add: fl_inv_def)
  note c = carve_in_list [OF can a in_region, folded eq]
  show "ext_len a \<le> fl_total l" using c(3) inv by (simp add: fl_inv_def)
  show "handed_out l a (carved l i a)"
    using c inv a inside_bytes [OF in_region] region_in_bytes [OF nth_mem [OF i]]
    by (auto simp: handed_out_def carved_def fl_inv_def fl_bytes_def)
qed

text \<open>On a list sorted by address the first smallest index is the smallest key, lowest start.\<close>

definition best_region :: "(extent \<Rightarrow> bool) \<Rightarrow> (extent \<Rightarrow> nat) \<Rightarrow> extent list \<Rightarrow> extent option" where
  "best_region elig key rs = min_by_key (\<lambda>r. (key r, ext_start r)) (filter elig rs)"

lemma best_region_Some:
  assumes "best_region elig key rs = Some r"
  shows "r \<in> set rs" "elig r"
    "\<And>x. x \<in> set rs \<Longrightarrow> elig x \<Longrightarrow> (key r, ext_start r) \<le> (key x, ext_start x)"
proof -
  show "r \<in> set rs" "elig r"
    using min_by_key_in [OF assms [unfolded best_region_def]] by auto
  show "(key r, ext_start r) \<le> (key x, ext_start x)" if "x \<in> set rs" "elig x" for x
    using min_by_key_le [OF assms [unfolded best_region_def], of x] that by simp
qed

lemma best_region_cong:
  "(\<And>r. r \<in> set rs \<Longrightarrow> elig r \<Longrightarrow> key r = key' r) \<Longrightarrow>
     best_region elig key rs = best_region elig key' rs"
  unfolding best_region_def by (rule min_by_key_cong) auto

lemma best_region_None: "best_region elig key rs = None \<longleftrightarrow> (\<forall>r \<in> set rs. \<not> elig r)"
  by (simp add: best_region_def filter_empty_conv)

lemma canonical_nth_start:
  "canonical rs \<Longrightarrow> i < j \<Longrightarrow> j < length rs \<Longrightarrow> ext_end (rs ! i) < ext_start (rs ! j)"
  by (simp add: canonical_def sorted_wrt_iff_nth_less)

lemma scan_min_best:
  assumes can: "canonical rs"
  shows "map_option ((!) rs) (scan_min elig key rs) = best_region elig key rs"
proof (cases "scan_min elig key rs")
  case None
  then show ?thesis using best_region_None [of elig key rs] by (simp add: scan_min_None)
next
  case (Some i)
  note i = scan_min_Some [OF Some]
  have "best_region elig key rs = Some (rs ! i)"
    unfolding best_region_def
  proof (rule min_by_key_unique)
    show "rs ! i \<in> set (filter elig rs)" using i(1,2) by simp
  next
    fix x assume "x \<in> set (filter elig rs)"
    then obtain j where j: "j < length rs" "rs ! j = x" "elig x" by (auto simp: in_set_conv_nth)
    have start: "ext_start (rs ! i) \<le> ext_start x" if "key x = key (rs ! i)"
    proof (cases "i = j")
      case False
      then have "i < j" using i(4) [of j] j that by simp
      from canonical_nth_start [OF can this j(1), unfolded j(2)] show ?thesis
        using ext_start_le_end [of "rs ! i"] by linarith
    qed (simp add: j)
    have "key (rs ! i) \<le> key x" using i(3) [of j] j by simp
    with start show "(key (rs ! i), ext_start (rs ! i)) \<le> (key x, ext_start x)"
      by (cases "key x = key (rs ! i)") (simp_all add: less_eq_prod_def)
    show "x = rs ! i" if "(key x, ext_start x) = (key (rs ! i), ext_start (rs ! i))"
      using canonical_starts_distinct [OF can, of x "rs ! i"] that i(1) j by auto
  qed
  with Some show ?thesis by simp
qed

lemma alloc_best_scan: "alloc_best len rs = scan_min (\<lambda>e. len \<le> ext_len e) ext_len rs"
  by (simp add: alloc_best_def scan_min_def)

definition fit_region :: "free_list \<Rightarrow> byte_length \<Rightarrow> extent option" where
  "fit_region l len = best_region (\<lambda>r. len \<le> ext_len r) ext_len (fl_regions l)"

lemma fl_alloc_None:
  assumes "fl_inv l" "fit_region l len = None"
  shows "fl_alloc l len = Some (l, None)"
  using assms scan_min_best [of "fl_regions l" "\<lambda>r. len \<le> ext_len r" ext_len]
  by (auto simp: fl_alloc_def alloc_best_scan fit_region_def fl_inv_def)

lemma fl_alloc_Some:
  assumes inv: "fl_inv l" and len: "0 < len" and fit: "fit_region l len = Some r"
  defines "a \<equiv> \<lparr>ext_start = ext_start r, ext_len = len\<rparr>"
  shows "\<exists>l'. fl_alloc l len = Some (l', Some a) \<and> handed_out l a l'"
proof -
  let ?rs = "fl_regions l"
  have "map_option ((!) ?rs) (alloc_best len ?rs) = Some r"
    using scan_min_best [of ?rs] inv fit by (simp add: alloc_best_scan fit_region_def fl_inv_def)
  then obtain i where i: "alloc_best len ?rs = Some i" "?rs ! i = r" by auto
  have il: "i < length ?rs" "len \<le> ext_len r"
    using scan_min_Some [OF i(1) [unfolded alloc_best_scan]] i(2) by auto
  have wf: "wf_extent r" using fl_region_wf [OF inv] il(1) i(2) nth_mem by metis
  have a: "wf_extent a" "inside a (?rs ! i)" "ext_new (ext_start r) len = Some a"
    using wf_extentD [OF wf] il(2) len i(2) by (auto simp: a_def inside_def ext_end_def)
  note out = carved_handed_out [OF inv il(1) a(1,2)]
  have "fl_alloc l len = Some (carved l i a, Some a)"
    using i a(3) out(2) len wf_extentD(3) [OF wf] il
    by (auto simp: fl_alloc_def carved_def carve_def ext_piece_def subtract_bytes_def checked a_def
        ext_end_def upd_conv_take_nth_drop)
  with out(1) show ?thesis by blast
qed

text \<open>Whole units: the best aligned interior, taken from its low end.\<close>

definition interior_len :: "byte_length \<Rightarrow> extent \<Rightarrow> nat" where
  "interior_len align r = (case aligned_interior r align of None \<Rightarrow> 0 | Some i \<Rightarrow> ext_len i)"

lemma whole_units_best_scan:
  assumes "0 < len"
  shows "whole_units_best len align rs =
    map_option (\<lambda>i. (i, the (aligned_interior (rs ! i) align)))
      (scan_min (\<lambda>r. len \<le> interior_len align r) (interior_len align) rs)"
proof -
  define elig where "elig = (\<lambda>r. len \<le> interior_len align r)"
  define step where "step = (\<lambda>(i, x) best.
    if elig x \<and> (case best of None \<Rightarrow> True
                   | Some b \<Rightarrow> interior_len align x < interior_len align (rs ! b))
    then Some (i::nat) else best)"
  define wstep where "wstep = (\<lambda>(i, region) best.
    case aligned_interior region align of
      None \<Rightarrow> best
    | Some interior \<Rightarrow>
        if len \<le> ext_len interior
           \<and> (case best of None \<Rightarrow> True | Some (_, b) \<Rightarrow> ext_len interior < ext_len b)
        then Some (i::nat, interior) else best)"
  define f where "f = map_option (\<lambda>i. (i, the (aligned_interior (rs ! i) align)))"
  define ok where "ok = (\<lambda>b. \<forall>i. b = Some i \<longrightarrow> elig (rs ! i))"
  have one: "wstep (i, rs ! i) (f b) = f (step (i, rs ! i) b) \<and> ok (step (i, rs ! i) b)"
    if "ok b" for i b
  proof (cases b)
    case None
    then show ?thesis
      using assms by (auto simp: wstep_def step_def f_def ok_def elig_def interior_len_def
          split: option.splits)
  next
    case (Some k)
    then have k: "len \<le> interior_len align (rs ! k)" using that by (simp add: ok_def elig_def)
    then obtain ki where "aligned_interior (rs ! k) align = Some ki" "interior_len align (rs ! k) = ext_len ki"
      using assms by (auto simp: interior_len_def split: option.splits)
    with Some k show ?thesis
      using assms by (auto simp: wstep_def step_def f_def ok_def elig_def interior_len_def
          split: option.splits)
  qed
  have "fold wstep ps (f b) = f (fold step ps b) \<and> ok (fold step ps b)"
    if "ok b" "\<forall>p \<in> set ps. snd p = rs ! fst p" for ps b
    using that
  proof (induction ps arbitrary: b)
    case (Cons p ps)
    obtain i x where p: "p = (i, x)" by fastforce
    have x: "x = rs ! i" using Cons.prems(2) p by simp
    show ?case using Cons.IH [of "step (i, rs ! i) b"] one [OF Cons.prems(1), of i] Cons.prems(2)
      by (simp add: p x)
  qed simp
  from this [of None "enumerate 0 rs"]
  have "fold wstep (enumerate 0 rs) None = f (fold step (enumerate 0 rs) None)"
    by (auto simp: ok_def f_def in_set_enumerate_eq)
  then show ?thesis
    by (simp add: whole_units_best_def scan_min_def wstep_def step_def f_def elig_def)
qed

definition unit_region :: "free_list \<Rightarrow> byte_length \<Rightarrow> byte_length \<Rightarrow> extent option" where
  "unit_region l len align =
     best_region (\<lambda>r. len \<le> interior_len align r) (interior_len align) (fl_regions l)"

lemma unit_region_scan:
  assumes "fl_inv l" "0 < len"
  shows "map_option (\<lambda>(i, x). (fl_regions l ! i, x)) (whole_units_best len align (fl_regions l))
    = map_option (\<lambda>r. (r, the (aligned_interior r align))) (unit_region l len align)"
  using scan_min_best [of "fl_regions l" "\<lambda>r. len \<le> interior_len align r" "interior_len align"]
    assms(1)
  by (simp add: whole_units_best_scan [OF assms(2)] unit_region_def fl_inv_def option.map_comp
      comp_def) (metis (no_types, lifting) option.map_comp comp_def map_option_cong)

lemma alloc_whole_units_None:
  assumes "fl_inv l" "0 < len" "unit_region l len align = None" "align dvd len"
  shows "alloc_whole_units dbg l len align = Some (l, None)"
  using unit_region_scan [OF assms(1,2), of align] assms(2,3,4)
  by (auto simp: alloc_whole_units_def debug_assert_def dvd_eq_mod_eq_0)

lemma alloc_whole_units_at:
  assumes inv: "fl_inv l" and len: "0 < len" and al: "0 < align" and dvd: "align dvd len"
    and fit: "unit_region l len align = Some r" and interior: "aligned_interior r align = Some interior"
  defines "a \<equiv> \<lparr>ext_start = ext_start interior, ext_len = len\<rparr>"
  shows "\<exists>l'. alloc_whole_units dbg l len align = Some (l', Some a) \<and> handed_out l a l'
     \<and> align dvd ext_start a \<and> inside a r"
proof -
  let ?rs = "fl_regions l"
  obtain i where i: "whole_units_best len align ?rs = Some (i, interior)" "?rs ! i = r"
    using unit_region_scan [OF inv len, of align] fit interior by auto
  have il: "i < length ?rs"
    using i(1) scan_min_Some(1) by (fastforce simp: whole_units_best_scan [OF len])
  have le: "len \<le> interior_len align r" "wf_extent r"
    using best_region_Some(1,2) [OF fit [unfolded unit_region_def]] fl_region_wf [OF inv] by auto
  have int: "aligned_interior r align = Some interior" "len \<le> ext_len interior"
    using le(1) len interior by (auto simp: interior_len_def split: option.splits)
  note I = aligned_interiorD [OF le(2) al int(1)]
  have a: "wf_extent a" "inside a (?rs ! i)" "ext_new (ext_start interior) len = Some a"
    using I(1,4,5) wf_extentD [OF I(1)] int(2) len i(2)
    by (auto simp: a_def inside_def ext_end_def)
  note out = carved_handed_out [OF inv il a(1,2)]
  have "alloc_whole_units dbg l len align = Some (carved l i a, Some a)"
    using i a out(2) len al dvd wf_extentD(3) [OF le(2)] wf_extentD(4) [OF I(1)]
    unfolding alloc_whole_units_def
    by (simp add: debug_assert_def dvd_eq_mod_eq_0 Let_def checked carved_def carve_def
        ext_piece_def subtract_bytes_def a_def del: ext_new_Some)
  with out(1) show ?thesis
    using I(2) a(2) i(2) by (intro exI [of _ "carved l i a"]) (simp add: a_def)
qed

lemma alloc_whole_units_Some:
  assumes "fl_inv l" "0 < len" "0 < align" "align dvd len" "unit_region l len align = Some r"
  shows "\<exists>l' a. alloc_whole_units dbg l len align = Some (l', Some a) \<and> handed_out l a l'
     \<and> ext_len a = len \<and> align dvd ext_start a \<and> inside a r"
proof -
  have "len \<le> interior_len align r"
    using best_region_Some(2) [OF assms(5) [unfolded unit_region_def]] .
  then obtain i where "aligned_interior r align = Some i"
    using assms(2) by (auto simp: interior_len_def split: option.splits)
  from alloc_whole_units_at [OF assms this, of dbg] show ?thesis by fastforce
qed

text \<open>PAGE blocks: the region with the smallest sufficient legal capacity.\<close>

definition block_fits :: "page_size \<Rightarrow> byte_length \<Rightarrow> extent \<Rightarrow> bool" where
  "block_fits page sz r \<longleftrightarrow> sz \<le> block_capacity r page sz"

definition block_at :: "page_size \<Rightarrow> byte_length \<Rightarrow> extent \<Rightarrow> extent" where
  "block_at page sz r = \<lparr>ext_start = block_start page (ext_start r) sz, ext_len = sz\<rparr>"

lemma block_at_spec:
  assumes "wf_extent r" "0 < page" "0 < sz" "block_fits page sz r"
  shows "wf_extent (block_at page sz r)" "inside (block_at page sz r) r"
    "block_legal page (ext_start (block_at page sz r)) sz"
  using assms block_capacity_fits [OF assms(1-3)] block_start_ge [of "ext_start r" page sz]
    block_start_legal [OF assms(2,3), of "ext_start r"] wf_extentD(3) [OF assms(1)]
  by (auto simp: block_at_def block_fits_def inside_def)

lemma block_fits_iff:
  assumes "wf_extent r" "0 < page" "0 < sz"
  shows "block_fits page sz r \<longleftrightarrow>
     (\<exists>s. ext_start r \<le> s \<and> s + sz \<le> ext_end r \<and> block_legal page s sz)"
proof
  assume "block_fits page sz r"
  from block_at_spec [OF assms this]
  show "\<exists>s. ext_start r \<le> s \<and> s + sz \<le> ext_end r \<and> block_legal page s sz"
    by (auto simp: inside_def block_at_def)
next
  assume "\<exists>s. ext_start r \<le> s \<and> s + sz \<le> ext_end r \<and> block_legal page s sz"
  then obtain s where "ext_start r \<le> s" "s + sz \<le> ext_end r" "block_legal page s sz" by blast
  with block_start_earliest [OF assms(2,3), of "ext_start r" s] block_capacity_fits [OF assms]
  show "block_fits page sz r" by (simp add: block_fits_def)
qed

lemma place_block_after:
  assumes "wf_request rq" "is_block rq" "0 < page" "wf_extent r" "block_fits page (rq_size rq) r"
  shows "place_after rq (ext_start r) (Some page)
    = Inr \<lparr>pl_request = rq, pl_extent = block_at page (rq_size rq) r\<rparr>"
proof -
  have "0 < rq_size rq" using assms(1) by (simp add: wf_request_def)
  from block_at_spec [OF assms(4,3) this assms(5)] show ?thesis
    using place_after_Inr [OF assms(1), of "ext_start r" "Some page"] assms(2)
      wf_extentD(4) [OF assms(4)]
    by (simp add: placed_start_def block_at_def)
qed

lemma alloc_block_candidates:
  assumes "wf_request rq" "is_block rq" "0 < page" "\<forall>r \<in> set rs. wf_extent r"
  shows "List.map_filter (\<lambda>region.
            let capacity = block_capacity region page (rq_size rq)
            in if capacity < rq_size rq then None
               else do {
                 placement \<leftarrow> ok (place_after rq (ext_start region) (Some page));
                 Some (capacity, pl_extent placement) }) rs
    = map (\<lambda>r. (block_capacity r page (rq_size rq), block_at page (rq_size rq) r))
        (filter (block_fits page (rq_size rq)) rs)"
proof -
  have "(let capacity = block_capacity r page (rq_size rq)
         in if capacity < rq_size rq then None
            else do {
              placement \<leftarrow> ok (place_after rq (ext_start r) (Some page));
              Some (capacity, pl_extent placement) })
      = (if block_fits page (rq_size rq) r
         then Some (block_capacity r page (rq_size rq), block_at page (rq_size rq) r) else None)"
    if "r \<in> set rs" for r
  proof (cases "block_fits page (rq_size rq) r")
    case True
    with place_block_after [OF assms(1-3) _ True] that assms(4) show ?thesis
      by (simp add: Let_def block_fits_def ok_def not_less)
  qed (simp add: block_fits_def not_le)
  then show ?thesis
    unfolding map_filter_if [symmetric] by (rule map_filter_eqI)
qed

lemma alloc_block_None:
  assumes "fl_inv l" "wf_request rq" "is_block rq" "0 < page"
    "\<forall>r \<in> set (fl_regions l). \<not> block_fits page (rq_size rq) r"
  shows "alloc_block l rq page = Some (l, None)"
  using assms(5) fl_region_wf [OF assms(1)]
  by (simp add: alloc_block_def alloc_block_candidates [OF assms(2-4)] filter_False)

lemma alloc_block_Some:
  assumes inv: "fl_inv l" and rq: "wf_request rq" "is_block rq" and p: "0 < page"
    and r: "r \<in> set (fl_regions l)" "block_fits page (rq_size rq) r"
  shows "\<exists>l' s. alloc_block l rq page = Some (l', Some (block_at page (rq_size rq) s))
     \<and> s \<in> set (fl_regions l) \<and> block_fits page (rq_size rq) s
     \<and> handed_out l (block_at page (rq_size rq) s) l'
     \<and> (\<forall>x \<in> set (fl_regions l). block_fits page (rq_size rq) x \<longrightarrow>
          (block_capacity s page (rq_size rq), ext_start (block_at page (rq_size rq) s))
          \<le> (block_capacity x page (rq_size rq), ext_start (block_at page (rq_size rq) x)))"
proof -
  let ?c = "\<lambda>r. (block_capacity r page (rq_size rq), block_at page (rq_size rq) r)"
  let ?cs = "map ?c (filter (block_fits page (rq_size rq)) (fl_regions l))"
  have sz: "0 < rq_size rq" using rq(1) by (simp add: wf_request_def)
  have wf: "\<forall>r \<in> set (fl_regions l). wf_extent r" using fl_region_wf [OF inv] by blast
  have "?cs \<noteq> []" using r by (auto simp: filter_empty_conv)
  then obtain q where q: "min_by_key (\<lambda>(c, a). (c, ext_start a)) ?cs = Some q"
    by (cases "min_by_key (\<lambda>(c, a). (c, ext_start a)) ?cs") (simp_all only: min_by_key_None)
  then obtain s where s: "s \<in> set (fl_regions l)" "block_fits page (rq_size rq) s" "q = ?c s"
    using min_by_key_in [OF q] by auto
  have min: "(block_capacity s page (rq_size rq), ext_start (block_at page (rq_size rq) s))
      \<le> (block_capacity x page (rq_size rq), ext_start (block_at page (rq_size rq) x))"
    if "x \<in> set (fl_regions l)" "block_fits page (rq_size rq) x" for x
    using min_by_key_le [OF q, of "?c x"] that s(3) by simp
  note b = block_at_spec [OF bspec [OF wf s(1)] p sz s(2)]
  obtain l' where "take_range l (block_at page (rq_size rq) s) = Some l'"
    "handed_out l (block_at page (rq_size rq) s) l'"
    using take_range_handed_out [OF inv b(1) s(1) b(2)] by blast
  moreover have "alloc_block l rq page = do {
      l' \<leftarrow> take_range l (block_at page (rq_size rq) s);
      Some (l', Some (block_at page (rq_size rq) s)) }"
    unfolding alloc_block_def alloc_block_candidates [OF rq p wf] by (simp add: q s(3))
  ultimately show ?thesis using s(1,2) min by auto
qed

text \<open>Allocation below a limit.\<close>

lemma alloc_below_spec:
  assumes inv: "fl_inv l" and len: "0 < len"
  shows "(alloc_below l len limit = Some (l, None)
      \<and> (\<forall>r \<in> set (fl_regions l). len \<le> ext_len r \<longrightarrow> limit < ext_start r + len))
    \<or> (\<exists>l' a. alloc_below l len limit = Some (l', Some a) \<and> handed_out l a l'
         \<and> ext_len a = len \<and> ext_end a \<le> limit)"
proof -
  define fits where "fits = (\<lambda>e :: extent. len \<le> ext_len e
    \<and> (case addr_checked_add (ext_start e) len of Inl _ \<Rightarrow> False | Inr stop \<Rightarrow> stop \<le> limit))"
  have fits: "fits r \<longleftrightarrow> len \<le> ext_len r \<and> ext_start r + len \<le> limit"
    if "r \<in> set (fl_regions l)" for r
  proof -
    have "len \<le> ext_len r \<Longrightarrow> ext_start r + len \<le> u64_max"
      using wf_extentD(3) [OF fl_region_wf [OF inv that]] by (simp add: ext_end_def)
    then show ?thesis by (auto simp: fits_def checked)
  qed
  show ?thesis
  proof (cases "min_by_key ext_len (filter fits (fl_regions l))")
    case None
    then have "alloc_below l len limit = Some (l, None)"
      unfolding alloc_below_def fits_def by (simp only: option.case)
    then show ?thesis using None fits by (auto simp: filter_empty_conv not_le)
  next
    case (Some r)
    have r: "r \<in> set (fl_regions l)" "len \<le> ext_len r" "ext_start r + len \<le> limit"
      using min_by_key_in [OF Some] fits by auto
    define a where "a = \<lparr>ext_start = ext_start r, ext_len = len\<rparr>"
    have a: "wf_extent a" "inside a r" "ext_new (ext_start r) len = Some a"
      using wf_extentD(3) [OF fl_region_wf [OF inv r(1)]] r(2) len
      by (auto simp: a_def inside_def ext_end_def)
    obtain l' where l': "take_range l a = Some l'" "handed_out l a l'"
      using take_range_handed_out [OF inv a(1) r(1) a(2)] by blast
    have "alloc_below l len limit = Some (l', Some a)"
      using Some a(3) l'(1) unfolding alloc_below_def fits_def
      by (simp only: option.case bind.bind_lunit)
    then show ?thesis using l'(2) r(3) by (auto simp: a_def)
  qed
qed

end
