(* ===== verification/Free_List_Ranges.thy ===== *)
theory Free_List_Ranges
  imports Free_List_Ops "HOL-Library.Multiset"
begin

text \<open>
  The linear merges of two free lists (\<^verbatim>\<open>take_ranges\<close>, \<^verbatim>\<open>intersection\<close>), the free run that
  reaches the end of allocation (\<^verbatim>\<open>trailing_run_start\<close>, \<^verbatim>\<open>release_trailing_run\<close>,
  \<^verbatim>\<open>take_trailing\<close>) and the queries of the list.
\<close>

section \<open>Difference of two lists\<close>

lemma ext_between_piece:
  "t \<le> u64_max \<Longrightarrow>
     (case ext_between s t of None \<Rightarrow> out | Some h \<Rightarrow> out @ [h]) = out @ ext_piece s t"
  by (cases "s < t") (simp_all add: checked ext_piece_def)

lemma dropWhile_ends_less:
  assumes "canonical rs"
  shows "canonical (dropWhile (\<lambda>r. ext_end r \<le> s) rs)"
    "\<forall>r \<in> set (dropWhile (\<lambda>r. ext_end r \<le> s) rs). s < ext_end r"
    "s \<le> x \<Longrightarrow> x \<in> region_bytes (dropWhile (\<lambda>r. ext_end r \<le> s) rs) \<longleftrightarrow> x \<in> region_bytes rs"
proof -
  have "canonical (dropWhile (\<lambda>r. ext_end r \<le> s) rs)
    \<and> (\<forall>r \<in> set (dropWhile (\<lambda>r. ext_end r \<le> s) rs). s < ext_end r)
    \<and> (s \<le> x \<longrightarrow> x \<in> region_bytes (dropWhile (\<lambda>r. ext_end r \<le> s) rs) \<longleftrightarrow> x \<in> region_bytes rs)"
    using assms
  proof (induction rs)
    case (Cons a rs)
    have "s < ext_end r" if "s < ext_end a" "r \<in> set rs" for r
    proof -
      have "ext_end a < ext_start r" using Cons.prems that(2) by simp
      then show ?thesis using that(1) ext_start_le_end [of r] by linarith
    qed
    moreover have "x \<notin> ext_bytes a" if "ext_end a \<le> s" "s \<le> x"
      using that by (simp add: ext_bytes_def)
    ultimately show ?case using Cons by auto
  qed simp
  then show "canonical (dropWhile (\<lambda>r. ext_end r \<le> s) rs)"
    "\<forall>r \<in> set (dropWhile (\<lambda>r. ext_end r \<le> s) rs). s < ext_end r"
    "s \<le> x \<Longrightarrow> x \<in> region_bytes (dropWhile (\<lambda>r. ext_end r \<le> s) rs) \<longleftrightarrow> x \<in> region_bytes rs"
    by blast+
qed

lemma canonical_bytes_above:
  assumes "canonical (r # rs)" "x \<in> region_bytes rs"
  shows "ext_end r < x"
  using assms by (fastforce simp: region_bytes_def ext_bytes_def)

text \<open>What is left of \<open>{start ..< ext_end region}\<close> after the removals that start inside it.\<close>

definition taken ::
  "nat \<Rightarrow> extent \<Rightarrow> nat \<Rightarrow> extent list \<Rightarrow> extent list \<Rightarrow> nat \<Rightarrow> extent list \<Rightarrow> bool" where
  "taken start region tot removed ps tot' removed' \<longleftrightarrow>
     canonical ps
     \<and> (\<forall>p \<in> set ps. start \<le> ext_start p \<and> ext_end p \<le> ext_end region)
     \<and> region_bytes ps = {start ..< ext_end region} - region_bytes removed
     \<and> tot' + (ext_end region - start) = tot + region_total ps
     \<and> canonical removed'
     \<and> (\<forall>x \<ge> ext_end region. x \<in> region_bytes removed' \<longleftrightarrow> x \<in> region_bytes removed)"

lemma taken_stop:
  assumes "wf_extent region" "canonical removed" "start \<le> ext_end region"
    "\<And>x. x \<in> region_bytes removed \<Longrightarrow> ext_end region \<le> x"
  shows "taken start region tot removed (ext_piece start (ext_end region)) tot removed"
proof -
  have "{start ..< ext_end region} \<inter> region_bytes removed = {}" using assms(4) by fastforce
  then show ?thesis
    using assms wf_extentD(3) [OF assms(1)]
    by (auto simp: taken_def ext_piece_simps dest!: ext_piece_simps(4))
qed

lemma taken_cover:
  assumes "wf_extent region" "canonical (rng # removed)" "start < ext_end region"
    "start < ext_end rng" "ext_start rng < ext_end region" "ext_end region \<le> ext_end rng"
    "ext_end region - start \<le> tot"
  shows "taken start region tot (rng # removed) (ext_piece start (ext_start rng))
    (tot - (ext_end region - max start (ext_start rng))) (rng # removed)"
proof -
  have "\<And>x. x \<in> region_bytes removed \<Longrightarrow> ext_end region < x"
    using canonical_bytes_above [OF assms(2)] assms(6) by (meson le_less_trans)
  then have "{start ..< ext_start rng} = {start ..< ext_end region} - region_bytes (rng # removed)"
    using assms by (fastforce simp: ext_bytes_def)
  moreover have "tot - (ext_end region - max start (ext_start rng)) + (ext_end region - start)
      = tot + (ext_start rng - start)"
    using assms by (auto simp: max_def)
  ultimately show ?thesis
    using assms wf_extentD(3,4) [of rng]
    by (auto simp: taken_def ext_piece_simps dest!: ext_piece_simps(4))
qed

lemma taken_step:
  assumes rec: "taken (ext_end rng) region
      (tot - (ext_end rng - max start (ext_start rng))) removed ps tot' removed'"
    and can: "canonical (rng # removed)" and "start < ext_end rng" "ext_end rng < ext_end region"
    "ext_end region - start \<le> tot"
  shows "taken start region tot (rng # removed) (ext_piece start (ext_start rng) @ ps) tot' removed'"
proof -
  note t = rec [unfolded taken_def]
  have rng: "wf_extent rng" using can by simp
  have "canonical (ext_piece start (ext_start rng) @ ps)"
    using t wf_extentD(2,4) [OF rng]
    by (fastforce simp: canonical_append ext_piece_simps dest!: ext_piece_simps(4))
  moreover have "\<forall>p \<in> set (ext_piece start (ext_start rng) @ ps).
      start \<le> ext_start p \<and> ext_end p \<le> ext_end region"
    using t assms(3,4) wf_extentD(2) [OF rng] by (fastforce dest!: ext_piece_simps(4))
  moreover have "region_bytes (ext_piece start (ext_start rng) @ ps)
      = {start ..< ext_end region} - region_bytes (rng # removed)"
  proof -
    have above: "\<And>x. x \<in> region_bytes removed \<Longrightarrow> ext_end rng < x"
      by (rule canonical_bytes_above [OF can])
    have "{start ..< ext_end region} - region_bytes (rng # removed)
        = {start ..< ext_start rng} \<union> ({ext_end rng ..< ext_end region} - region_bytes removed)"
      using assms(3,4) above wf_extentD(2) [OF rng] by (fastforce simp: ext_bytes_def)
    then show ?thesis using t by (simp add: ext_piece_simps)
  qed
  moreover have "tot' + (ext_end region - start)
      = tot + region_total (ext_piece start (ext_start rng) @ ps)"
  proof -
    have "tot' + (ext_end region - ext_end rng)
        = tot - (ext_end rng - max start (ext_start rng)) + region_total ps" using t by blast
    then show ?thesis
      using assms(3-5) wf_extentD(2) [OF rng] by (auto simp: ext_piece_simps max_def split: if_splits)
  qed
  moreover have "x \<notin> ext_bytes rng" if "ext_end region \<le> x" for x
    using that assms(4) by (simp add: ext_bytes_def)
  ultimately show ?thesis using t by (auto simp: taken_def)
qed

lemma take_one_spec:
  assumes "wf_extent region" "canonical removed" "start < ext_end region"
    "\<forall>rng \<in> set removed. start < ext_end rng" "ext_end region - start \<le> tot"
  shows "\<exists>ps start' tot' removed'. take_one start region tot out removed
       = Some (start', tot', out @ ps, removed')
     \<and> taken start region tot removed (ps @ ext_piece start' (ext_end region)) tot' removed'"
  using assms
proof (induction removed arbitrary: start tot out)
  case Nil
  then show ?case using taken_stop [of region "[]" start tot] by (intro exI [of _ "[]"]) simp
next
  case (Cons rng removed)
  have rng: "wf_extent rng" "canonical removed" using Cons.prems(2) by auto
  note up = wf_extentD(3) [OF Cons.prems(1)] wf_extentD(2-4) [OF rng(1)]
  show ?case
  proof (cases "ext_end region \<le> ext_start rng")
    case True
    have "ext_end region \<le> x" if "x \<in> region_bytes (rng # removed)" for x
      using True canonical_head_min [OF Cons.prems(2) that] by linarith
    then have "taken start region tot (rng # removed) (ext_piece start (ext_end region)) tot (rng # removed)"
      using Cons.prems by (intro taken_stop) auto
    then show ?thesis using True by (intro exI [of _ "[]"]) simp
  next
    case False
    define k where "k = min (ext_end rng) (ext_end region) - max start (ext_start rng)"
    have ov: "max start (ext_start rng) < min (ext_end rng) (ext_end region)"
      "min (ext_end rng) (ext_end region) \<le> u64_max" "k \<le> tot"
      using False Cons.prems(3-5) up by (auto simp: k_def)
    have step: "take_one start region tot out (rng # removed)
        = (if ext_end region \<le> ext_end rng
           then Some (ext_end region, tot - k, out @ ext_piece start (ext_start rng), rng # removed)
           else take_one (ext_end rng) region (tot - k) (out @ ext_piece start (ext_start rng)) removed)"
      using False ov up(4)
      by (simp add: ext_between_piece checked k_def min_def Let_def del: diff_diff_right)
    show ?thesis
    proof (cases "ext_end region \<le> ext_end rng")
      case cover: True
      have "taken start region tot (rng # removed) (ext_piece start (ext_start rng)) (tot - k) (rng # removed)"
        using taken_cover [OF Cons.prems(1,2,3) _ _ cover Cons.prems(5)] False Cons.prems(4) cover
        by (simp add: k_def min_absorb2)
      then show ?thesis unfolding step using cover by (auto simp: ext_piece_def)
    next
      case part: False
      have k: "k = ext_end rng - max start (ext_start rng)" using part by (simp add: k_def)
      have next_ends: "\<forall>r \<in> set removed. ext_end rng < ext_end r"
        using Cons.prems(2) wf_extentD(2) canonical_wf [OF rng(2)] by fastforce
      have "ext_end region - ext_end rng \<le> tot - k"
        using Cons.prems(3-5) part up by (auto simp: k max_def)
      from Cons.IH [OF Cons.prems(1) rng(2) _ next_ends this,
          of "out @ ext_piece start (ext_start rng)"] part
      obtain ps start' tot' removed' where ih:
        "take_one (ext_end rng) region (tot - k) (out @ ext_piece start (ext_start rng)) removed
           = Some (start', tot', (out @ ext_piece start (ext_start rng)) @ ps, removed')"
        "taken (ext_end rng) region (tot - k) removed
           (ps @ ext_piece start' (ext_end region)) tot' removed'" by auto
      have "taken start region tot (rng # removed)
          (ext_piece start (ext_start rng) @ (ps @ ext_piece start' (ext_end region))) tot' removed'"
        using taken_step [OF ih(2) [unfolded k] Cons.prems(2)] Cons.prems(4,5) part by simp
      then show ?thesis unfolding step using part ih(1) by auto
    qed
  qed
qed
lemma take_ranges_loop_spec:
  assumes "canonical rs" "canonical removed" "region_total rs \<le> tot"
  shows "\<exists>qs tot'. take_ranges_loop tot out removed rs = Some (out @ qs, tot') \<and> canonical qs
     \<and> (\<forall>p \<in> set qs. \<exists>r \<in> set rs. inside p r)
     \<and> region_bytes qs = region_bytes rs - region_bytes removed
     \<and> tot' + region_total rs = tot + region_total qs"
  using assms
proof (induction rs arbitrary: tot out removed)
  case (Cons r rs)
  have r: "wf_extent r" "canonical rs" using Cons.prems(1) by auto
  define removed' where "removed' = dropWhile (\<lambda>rng. ext_end rng \<le> ext_start r) removed"
  note d = dropWhile_ends_less [OF Cons.prems(2), of "ext_start r", folded removed'_def]
  have "ext_end r - ext_start r \<le> tot" using Cons.prems(3) by (simp add: ext_len_eq)
  from take_one_spec [OF r(1) d(1) wf_extentD(2) [OF r(1)] d(2) this, of out]
  obtain ps start tot1 removed'' where one:
    "take_one (ext_start r) r tot out removed' = Some (start, tot1, out @ ps, removed'')"
    "taken (ext_start r) r tot removed' (ps @ ext_piece start (ext_end r)) tot1 removed''" by blast
  define hs where "hs = ps @ ext_piece start (ext_end r)"
  note t = one(2) [folded hs_def, unfolded taken_def]
  have tot1: "tot1 + ext_len r = tot + region_total hs" using t by (simp add: ext_len_eq)
  then have "region_total rs \<le> tot1" using Cons.prems(3) by simp
  from Cons.IH [OF r(2) _ this, of removed'' "out @ hs"] t
  obtain qs tot' where ih: "take_ranges_loop tot1 (out @ hs) removed'' rs = Some ((out @ hs) @ qs, tot')"
    "canonical qs" "\<forall>p \<in> set qs. \<exists>r \<in> set rs. inside p r"
    "region_bytes qs = region_bytes rs - region_bytes removed''"
    "tot' + region_total rs = tot1 + region_total qs" by blast
  have loop: "take_ranges_loop tot out removed (r # rs) = Some (out @ (hs @ qs), tot')"
    using one(1) ih(1) wf_extentD(3) [OF r(1)]
    by (simp add: removed'_def [symmetric] ext_between_piece hs_def)
  have gap: "ext_end p < ext_start q" if p: "p \<in> set hs" and q: "q \<in> set qs" for p q
  proof -
    obtain r' where "r' \<in> set rs" "inside q r'" using ih(3) q by blast
    then have "ext_end r < ext_start r'" "ext_start r' \<le> ext_start q"
      using Cons.prems(1) by (auto simp: inside_def)
    moreover have "ext_end p \<le> ext_end r" using t p by blast
    ultimately show ?thesis by linarith
  qed
  have above: "ext_end r < x" if "x \<in> region_bytes rs" for x
    by (rule canonical_bytes_above [OF Cons.prems(1) that])
  have "region_bytes hs = ext_bytes r - region_bytes removed"
    using t d(3) by (auto simp: ext_bytes_def)
  moreover have "region_bytes qs = region_bytes rs - region_bytes removed"
  proof -
    have "x \<in> region_bytes removed'' \<longleftrightarrow> x \<in> region_bytes removed" if "x \<in> region_bytes rs" for x
      using t d(3) [of x] above [OF that] wf_extentD(2) [OF r(1)] by auto
    then show ?thesis using ih(4) by blast
  qed
  ultimately have "region_bytes (hs @ qs) = region_bytes (r # rs) - region_bytes removed" by auto
  moreover have "canonical (hs @ qs)" using t ih(2) gap by (auto simp: canonical_append)
  moreover have "\<forall>p \<in> set (hs @ qs). \<exists>r' \<in> set (r # rs). inside p r'"
    using t ih(3) by (auto simp: inside_def)
  moreover have "tot' + region_total (r # rs) = tot + region_total (hs @ qs)"
    using tot1 ih(5) by simp
  ultimately show ?case using loop by blast
qed simp

lemma take_ranges_spec:
  assumes "fl_inv l" "fl_inv ranges"
  shows "\<exists>l'. take_ranges l ranges = Some l' \<and> fl_inv l' \<and> fl_bytes l' = fl_bytes l - fl_bytes ranges"
proof (cases "fl_is_empty l \<or> fl_is_empty ranges")
  case True
  then show ?thesis using assms(1) by (auto simp: take_ranges_def fl_is_empty_def fl_bytes_def)
next
  case False
  obtain qs tot' where "take_ranges_loop (fl_total l) [] (fl_regions ranges) (fl_regions l)
      = Some ([] @ qs, tot')" "canonical qs"
    "region_bytes qs = region_bytes (fl_regions l) - region_bytes (fl_regions ranges)"
    "tot' + region_total (fl_regions l) = fl_total l + region_total qs"
    using take_ranges_loop_spec [of "fl_regions l" "fl_regions ranges" "fl_total l" "[]"] assms
    by (auto simp: fl_inv_def)
  then show ?thesis using False assms by (auto simp: take_ranges_def fl_inv_def fl_bytes_def)
qed

section \<open>Intersection of two lists\<close>

lemma intersect_one_spec:
  assumes "wf_extent left" "canonical right"
  shows "\<exists>ps right'. intersect_one left out right = (out @ ps, right') \<and> canonical ps
     \<and> (\<forall>p \<in> set ps. inside p left \<and> (\<exists>r \<in> set right. inside p r))
     \<and> region_bytes ps = ext_bytes left \<inter> region_bytes right
     \<and> canonical right' \<and> (\<forall>x \<ge> ext_end left. x \<in> region_bytes right' \<longleftrightarrow> x \<in> region_bytes right)"
  using assms
proof (induction right arbitrary: out)
  case (Cons rng right)
  have rng: "wf_extent rng" "canonical right" using Cons.prems(2) by auto
  define os where "os = (case ext_intersection left rng of None \<Rightarrow> [] | Some x \<Rightarrow> [x])"
  have os: "canonical os" "region_bytes os = ext_bytes left \<inter> ext_bytes rng"
    "\<forall>p \<in> set os. inside p left \<and> inside p rng"
    unfolding os_def ext_intersection_eq [OF assms(1)]
    using not_meets_bytes [of left rng] wf_extentD(3) [OF assms(1)]
    by (auto simp: meets_def overlap_len_def inside_def ext_bytes_def)
  have app: "(case ext_intersection left rng of None \<Rightarrow> out | Some o' \<Rightarrow> out @ [o']) = out @ os"
    by (cases "ext_intersection left rng") (simp_all only: os_def option.case append_Nil2)
  have above: "\<And>x. x \<in> region_bytes right \<Longrightarrow> ext_end rng < x"
    by (rule canonical_bytes_above [OF Cons.prems(2)])
  show ?case
  proof (cases "ext_end left \<le> ext_start rng")
    case True
    then have "ext_bytes left \<inter> region_bytes (rng # right) = {}"
      using above wf_extentD(2) [OF rng(1)] by (fastforce simp: ext_bytes_def)
    then show ?thesis using True Cons.prems by simp
  next
    case False
    show ?thesis
    proof (cases "ext_end left \<le> ext_end rng")
      case True
      then have "ext_bytes left \<inter> region_bytes right = {}"
        using above by (fastforce simp: ext_bytes_def)
      then show ?thesis using True False os Cons.prems by (auto simp: app)
    next
      case part: False
      obtain ps right' where ih: "intersect_one left (out @ os) right = ((out @ os) @ ps, right')"
        "canonical ps" "\<forall>p \<in> set ps. inside p left \<and> (\<exists>r \<in> set right. inside p r)"
        "region_bytes ps = ext_bytes left \<inter> region_bytes right" "canonical right'"
        "\<forall>x \<ge> ext_end left. x \<in> region_bytes right' \<longleftrightarrow> x \<in> region_bytes right"
        using Cons.IH [OF assms(1) rng(2), of "out @ os"] by blast
      have "ext_end p < ext_start q" if p: "p \<in> set os" and q: "q \<in> set ps" for p q
      proof -
        obtain r where "r \<in> set right" "inside q r" using ih(3) q by blast
        then have "ext_end rng < ext_start r" "ext_start r \<le> ext_start q"
          using Cons.prems(2) by (auto simp: inside_def)
        moreover have "ext_end p \<le> ext_end rng" using os(3) p by (auto simp: inside_def)
        ultimately show ?thesis by linarith
      qed
      then have "canonical (os @ ps)" using os(1) ih(2) by (auto simp: canonical_append)
      moreover have "region_bytes (os @ ps) = ext_bytes left \<inter> region_bytes (rng # right)"
        using os(2) ih(4) by auto
      moreover have "\<forall>x \<ge> ext_end left. x \<notin> ext_bytes rng" using part by (auto simp: ext_bytes_def)
      ultimately show ?thesis using False part ih os(3)
        by (intro exI [of _ "os @ ps"] exI [of _ right']) (auto simp: app)
    qed
  qed
qed simp

lemma intersect_loop_spec:
  assumes "canonical lefts" "canonical right"
  shows "\<exists>qs. intersect_loop out right lefts = out @ qs \<and> canonical qs
     \<and> (\<forall>p \<in> set qs. \<exists>r \<in> set lefts. inside p r)
     \<and> region_bytes qs = region_bytes lefts \<inter> region_bytes right"
  using assms
proof (induction lefts arbitrary: out right)
  case (Cons r rs)
  have r: "wf_extent r" "canonical rs" using Cons.prems(1) by auto
  define right' where "right' = dropWhile (\<lambda>rng. ext_end rng \<le> ext_start r) right"
  note d = dropWhile_ends_less [OF Cons.prems(2), of "ext_start r", folded right'_def]
  obtain ps right'' where one: "intersect_one r out right' = (out @ ps, right'')" "canonical ps"
    "\<forall>p \<in> set ps. inside p r" "region_bytes ps = ext_bytes r \<inter> region_bytes right'"
    "canonical right''" "\<forall>x \<ge> ext_end r. x \<in> region_bytes right'' \<longleftrightarrow> x \<in> region_bytes right'"
    using intersect_one_spec [OF r(1) d(1), of out] by blast
  obtain qs where ih: "intersect_loop (out @ ps) right'' rs = (out @ ps) @ qs" "canonical qs"
    "\<forall>p \<in> set qs. \<exists>r \<in> set rs. inside p r"
    "region_bytes qs = region_bytes rs \<inter> region_bytes right''"
    using Cons.IH [OF r(2) one(5), of "out @ ps"] by blast
  have "ext_end p < ext_start q" if p: "p \<in> set ps" and q: "q \<in> set qs" for p q
  proof -
    obtain r' where "r' \<in> set rs" "inside q r'" using ih(3) q by blast
    then have "ext_end r < ext_start r'" "ext_start r' \<le> ext_start q"
      using Cons.prems(1) by (auto simp: inside_def)
    moreover have "ext_end p \<le> ext_end r" using one(3) p by (auto simp: inside_def)
    ultimately show ?thesis by linarith
  qed
  then have "canonical (ps @ qs)" using one(2) ih(2) by (auto simp: canonical_append)
  moreover have "x \<in> region_bytes right'' \<longleftrightarrow> x \<in> region_bytes right" if "x \<in> region_bytes rs" for x
    using canonical_bytes_above [OF Cons.prems(1) that] d(3) [of x] one(6) wf_extentD(2) [OF r(1)]
    by auto
  then have "region_bytes (ps @ qs) = region_bytes (r # rs) \<inter> region_bytes right"
    using one(4) ih(4) d(3) by (auto simp: ext_bytes_def)
  moreover have "intersect_loop out right (r # rs) = out @ (ps @ qs)"
    using one(1) ih(1) by (simp add: right'_def [symmetric])
  ultimately show ?case using one(3) ih(3) by (intro exI [of _ "ps @ qs"]) auto
qed simp

lemma fl_intersection_spec:
  assumes "fl_inv l" "fl_inv other"
  shows "\<exists>l'. fl_intersection l other = Some l' \<and> fl_inv l' \<and> fl_bytes l' = fl_bytes l \<inter> fl_bytes other"
proof -
  obtain qs where "intersect_loop [] (fl_regions other) (fl_regions l) = qs" "canonical qs"
    "region_bytes qs = fl_bytes l \<inter> fl_bytes other"
    using intersect_loop_spec [of "fl_regions l" "fl_regions other" "[]"] assms
    by (auto simp: fl_inv_def fl_bytes_def)
  then show ?thesis
    using from_sorted_ok [OF canonical_ordered, of qs] by (auto simp: fl_intersection_def ok_def)
qed

section \<open>The free run below the end of allocation\<close>

text \<open>\<open>run_start B eof s\<close>: \<open>s\<close> is the lowest address from which all bytes up to \<open>eof\<close> are in \<open>B\<close>.\<close>

definition run_start :: "nat set \<Rightarrow> nat \<Rightarrow> nat \<Rightarrow> bool" where
  "run_start B eof s \<longleftrightarrow> s \<le> eof \<and> {s ..< eof} \<subseteq> B \<and> (0 < s \<longrightarrow> s - 1 \<notin> B)"

lemma run_start_unique:
  assumes "run_start B eof s" "run_start B eof t"
  shows "s = t"
proof (rule ccontr)
  assume "s \<noteq> t"
  then consider "s < t" | "t < s" by linarith
  then show False
  proof cases
    case 1
    then have "t - 1 \<in> {s ..< eof}" using assms by (auto simp: run_start_def)
    then show False using assms 1 by (auto simp: run_start_def)
  next
    case 2
    then have "s - 1 \<in> {t ..< eof}" using assms by (auto simp: run_start_def)
    then show False using assms 2 by (auto simp: run_start_def)
  qed
qed

lemma trailing_walk_run:
  assumes "ordered_regions rs" "s \<le> eof" "{s ..< eof} \<subseteq> B" "region_bytes rs \<subseteq> B"
    "\<And>x. x < s \<Longrightarrow> x \<in> B \<Longrightarrow> x \<in> region_bytes rs"
  shows "run_start B eof (trailing_walk s (rev rs))"
  using assms
proof (induction rs arbitrary: s rule: rev_induct)
  case Nil
  then have "s - 1 \<notin> B" if "0 < s" using that by fastforce
  with Nil show ?case by (simp add: run_start_def)
next
  case (snoc e rs)
  have e: "wf_extent e" "ordered_regions rs" "\<forall>r \<in> set rs. ext_end r \<le> ext_start e"
    using snoc.prems(1) by (auto simp: ordered_regions_append)
  have below: "x < ext_start e" if "x \<in> region_bytes rs" for x
    using that e(3) by (fastforce simp: region_bytes_def ext_bytes_def)
  show ?case
  proof (cases "ext_end e < s")
    case True
    have "s - 1 \<notin> B"
    proof
      assume "s - 1 \<in> B"
      then have "s - 1 \<in> region_bytes (rs @ [e])" using snoc.prems(5) True by simp
      then show False
        using below [of "s - 1"] True wf_extentD(2) [OF e(1)] by (auto simp: ext_bytes_def)
    qed
    with True show ?thesis using snoc.prems(2,3) by (simp add: run_start_def)
  next
    case False
    have "{min s (ext_start e) ..< eof} \<subseteq> {s ..< eof} \<union> ext_bytes e"
      using False by (auto simp: ext_bytes_def)
    then have "{min s (ext_start e) ..< eof} \<subseteq> B" using snoc.prems(3,4) by auto
    moreover have "x \<in> region_bytes rs" if "x < min s (ext_start e)" "x \<in> B" for x
      using snoc.prems(5) [of x] that by (auto simp: ext_bytes_def)
    ultimately have "run_start B eof (trailing_walk (min s (ext_start e)) (rev rs))"
      using snoc.prems(2,4) by (intro snoc.IH [OF e(2)]) auto
    with False show ?thesis by simp
  qed
qed

lemma region_total_sort: "region_total (sort_key ext_start rs) = region_total rs"
proof -
  have "mset (map ext_len (sort_key ext_start rs)) = mset (map ext_len rs)" by simp
  then show ?thesis unfolding region_total_def by (metis sum_mset_sum_list)
qed

lemma trailing_run_start_run:
  assumes inv: "\<forall>l \<in> set ls. fl_inv l" and disj: "disjoint_all (map fl_bytes ls)"
  shows "run_start (\<Union>(fl_bytes ` set ls)) eof (trailing_run_start ls eof)"
proof -
  define rs where "rs = sort_key ext_start (concat (map fl_regions ls))"
  have bytes: "region_bytes rs = \<Union>(fl_bytes ` set ls)"
    using region_bytes_set_eq [of rs "concat (map fl_regions ls)"]
    by (simp add: rs_def region_bytes_concat fl_bytes_def)
  have wf: "\<forall>e \<in> set rs. wf_extent e" using inv fl_region_wf by (auto simp: rs_def)
  have "region_total rs = sum_list (map card (map fl_bytes ls))"
    using inv fl_inv_card unfolding rs_def region_total_sort region_total_concat
    by (auto simp: fl_inv_def intro!: arg_cong [of _ _ sum_list])
  then have "ordered_regions rs"
    using sorted_starts_ordered_iff [OF wf] bytes disj disjoint_all_card(2) [of "map fl_bytes ls"]
    by (simp add: rs_def)
  from trailing_walk_run [OF this, of eof eof "region_bytes rs"]
  have "run_start (region_bytes rs) eof (trailing_walk eof (rev rs))" by simp
  then show ?thesis unfolding bytes by (simp add: trailing_run_start_def rs_def)
qed

lemma trailing_run_start_one:
  assumes "fl_inv l"
  shows "run_start (fl_bytes l) eof (trailing_run_start [l] eof)"
  using trailing_run_start_run [of "[l]" eof] assms by simp

lemma release_trailing_run_keep:
  assumes inv: "fl_inv l" and eoa: "eoa \<le> u64_max" and run: "run_start (fl_bytes l) eoa s"
    and short: "eoa - s < 8 * tail \<or> u64_max < 8 * tail \<or> s = eoa"
  shows "release_trailing_run l eoa tail = Some (l, eoa)"
proof -
  have s: "trailing_run_start [l] eoa = s" "s \<le> eoa"
    using run_start_unique [OF trailing_run_start_one [OF inv] run] run by (simp_all add: run_start_def)
  show ?thesis
  proof (cases "8 * tail \<le> u64_max \<and> 8 * tail \<le> eoa - s")
    case True
    then have "s = eoa" "tail = 0" using short by auto
    then show ?thesis using s eoa
      by (simp add: release_trailing_run_def trailing_reserve_tails_def checked addr_distance_from_def)
  next
    case False
    then show ?thesis using s(2) unfolding release_trailing_run_def s(1) trailing_reserve_tails_def
      by (cases "4 * tail \<le> u64_max"; cases "8 * tail \<le> u64_max")
        (simp_all add: checked_mul_def addr_distance_from_def checked)
  qed
qed

lemma release_trailing_run_cut:
  assumes inv: "fl_inv l" and eoa: "eoa \<le> u64_max" and run: "run_start (fl_bytes l) eoa s"
    and long: "8 * tail \<le> eoa - s" "s < eoa"
  shows "\<exists>l'. release_trailing_run l eoa tail = Some (l', s + 4 * tail) \<and> fl_inv l'
     \<and> fl_bytes l' = fl_bytes l - {s + 4 * tail ..< eoa}"
proof -
  have s: "trailing_run_start [l] eoa = s"
    using run_start_unique [OF trailing_run_start_one [OF inv] run] by simp
  define cutx where "cutx = \<lparr>ext_start = s + 4 * tail, ext_len = eoa - (s + 4 * tail)\<rparr>"
  have lt: "s + 4 * tail < eoa" using long by (cases "tail = 0") auto
  have max: "8 * tail \<le> u64_max" using long(1) eoa by linarith
  with lt have wf: "wf_extent cutx" "ext_bytes cutx = {s + 4 * tail ..< eoa}"
    using eoa by (auto simp: cutx_def)
  obtain l' where "take_range l cutx = Some l'" "fl_inv l'"
    "fl_bytes l' = fl_bytes l - {s + 4 * tail ..< eoa}"
    using take_range_spec [OF inv wf(1)] wf(2) by auto
  moreover have "release_trailing_run l eoa tail = do {
      l' \<leftarrow> take_range l cutx; Some (l', s + 4 * tail) }"
    using lt max long eoa unfolding release_trailing_run_def s trailing_reserve_tails_def
    by (simp add: checked_mul_def addr_distance_from_def checked cutx_def)
  ultimately show ?thesis by simp
qed

lemma take_trailing_spec:
  assumes inv: "fl_inv l"
  shows "(take_trailing l eof = Some (l, None) \<and> (\<forall>r \<in> set (fl_regions l). ext_end r = eof \<longrightarrow> r \<noteq> last (fl_regions l)))
    \<or> (\<exists>l' r. take_trailing l eof = Some (l', Some (ext_start r)) \<and> r \<in> set (fl_regions l)
         \<and> ext_end r = eof \<and> handed_out l r l')"
proof (cases "fl_regions l \<noteq> [] \<and> ext_end (last (fl_regions l)) = eof")
  case False
  then show ?thesis by (auto simp: take_trailing_def)
next
  case True
  define r where "r = last (fl_regions l)"
  have rs: "fl_regions l = butlast (fl_regions l) @ [r]" using True by (simp add: r_def)
  then have can: "canonical (butlast (fl_regions l) @ r # [])" using inv by (simp add: fl_inv_def)
  have tot: "fl_total l = region_total (butlast (fl_regions l)) + ext_len r"
    using inv rs by (metis fl_inv_def region_total_simps add.right_neutral)
  define l' where "l' = \<lparr>fl_regions = butlast (fl_regions l),
    fl_total = region_total (butlast (fl_regions l))\<rparr>"
  have "fl_bytes l = region_bytes (butlast (fl_regions l)) \<union> ext_bytes r"
    using rs by (metis fl_bytes_def region_bytes_simps sup_bot.right_neutral)
  then have "handed_out l r l'"
    using can canonical_others_disjoint [OF can]
    by (auto simp: handed_out_def l'_def fl_inv_def fl_bytes_def canonical_append)
  moreover have "take_trailing l eof = Some (l', Some (ext_start r))"
    using True tot by (simp add: take_trailing_def r_def [symmetric] subtract_bytes_def checked l'_def)
  moreover have "r \<in> set (fl_regions l)" using True by (simp add: r_def)
  ultimately show ?thesis using True by (auto simp: r_def)
qed

section \<open>Queries\<close>

lemma fold_max_ge: "n \<le> fold max ns (m :: nat) \<longleftrightarrow> n \<le> m \<or> (\<exists>k \<in> set ns. n \<le> k)"
proof (induction ns arbitrary: m)
  case (Cons k ns)
  show ?case unfolding fold_simps Cons.IH by (simp add: le_max_iff_disj disj_assoc) blast
qed simp

text \<open>\<^verbatim>\<open>largest\<close> and \<^verbatim>\<open>largest_whole_units\<close> decide whether an allocation succeeds.\<close>

lemma fl_largest_fits:
  "0 < len \<Longrightarrow> len \<le> fl_largest l \<longleftrightarrow> (\<exists>r \<in> set (fl_regions l). len \<le> ext_len r)"
  by (auto simp: fl_largest_def fold_max_ge)

lemma largest_whole_units_fits:
  assumes "0 < len"
  shows "len \<le> largest_whole_units l align \<longleftrightarrow>
     (\<exists>r \<in> set (fl_regions l). len \<le> interior_len align r)"
proof -
  have "set (List.map_filter (\<lambda>e. map_option ext_len (aligned_interior e align)) rs)
      = {n. \<exists>r \<in> set rs. \<exists>i. aligned_interior r align = Some i \<and> n = ext_len i}" for rs
    by (auto simp: set_map_filter)
  then show ?thesis
    using assms unfolding largest_whole_units_def fold_max_ge
    by (fastforce simp: interior_len_def split: option.splits)
qed

lemma covered_len_card:
  assumes "fl_inv l"
  shows "covered_len l e = card (fl_bytes l \<inter> ext_bytes e)"
proof -
  have "sum_list (map ext_len (List.map_filter (\<lambda>r. ext_intersection r e) rs))
      = card (region_bytes rs \<inter> ext_bytes e)" if "canonical rs" for rs
    using that
  proof (induction rs)
    case (Cons r rs)
    have r: "wf_extent r" using Cons.prems by simp
    have "ext_bytes r \<inter> region_bytes rs = {}"
      using ordered_head_disjoint [OF canonical_ordered [OF Cons.prems]] .
    then have "card (region_bytes (r # rs) \<inter> ext_bytes e)
        = card (ext_bytes r \<inter> ext_bytes e) + card (region_bytes rs \<inter> ext_bytes e)"
      unfolding region_bytes_simps Int_Un_distrib2 by (intro card_Un_disjoint) auto
    moreover have "card (ext_bytes r \<inter> ext_bytes e)
        = (case ext_intersection r e of None \<Rightarrow> 0 | Some c \<Rightarrow> ext_len c)"
    proof (cases "ext_intersection r e")
      case None
      then show ?thesis using ext_intersection_bytes(1) [OF r None] by simp
    next
      case (Some c)
      then show ?thesis
        using ext_intersection_bytes(2) [OF r Some] card_ext_bytes [of c] by (simp only: option.case)
    qed
    ultimately show ?case using Cons by (auto simp: map_filter_simps split: option.splits)
  qed (simp add: map_filter_simps)
  then show ?thesis using assms by (simp add: covered_len_def fl_inv_def fl_bytes_def)
qed

text \<open>A region adjoins a range that is not free exactly if a neighbouring byte is free.\<close>

lemma fl_adjoins_iff:
  assumes inv: "fl_inv l" and "wf_extent e" and disj: "ext_bytes e \<inter> fl_bytes l = {}"
  shows "fl_adjoins l e \<longleftrightarrow> (0 < ext_start e \<and> ext_start e - 1 \<in> fl_bytes l) \<or> ext_end e \<in> fl_bytes l"
proof -
  have r: "ext_start r < ext_end r" "ext_end r \<le> ext_start e \<or> ext_end e \<le> ext_start r"
    if "r \<in> set (fl_regions l)" for r
    using wf_extentD(2) [OF fl_region_wf [OF inv that]] disj region_in_bytes [OF that]
      ext_bytes_disjoint_iff [OF assms(2) fl_region_wf [OF inv that]] by blast+
  have e: "ext_start e < ext_end e" by (rule wf_extentD(2) [OF assms(2)])
  have "ext_end r = ext_start e \<longleftrightarrow> 0 < ext_start e \<and> ext_start e - 1 \<in> ext_bytes r"
    "ext_start r = ext_end e \<longleftrightarrow> ext_end e \<in> ext_bytes r" if "r \<in> set (fl_regions l)" for r
    using r [OF that] e by (auto simp: ext_bytes_def)
  then show ?thesis
    by (auto simp: fl_adjoins_def list_ex_iff fl_bytes_def region_bytes_def)
qed

end
