(* ===== verification/Indexed.thy ===== *)
theory Indexed
  imports Free_List_Ranges
begin

text \<open>
  The indexed view of a free list (\<^verbatim>\<open>hdf5-pure-space/src/list/indexed.rs\<close>): an address map, a
  size index, an aligned-interior index and the lazily built PAGE block indexes.

  A \<^verbatim>\<open>BTreeMap\<close> or \<^verbatim>\<open>BTreeSet\<close> is a strictly sorted list. The reused buffer and the work
  counters of \<^verbatim>\<open>IndexedFreeList\<close> are left out; its borrowed owner and the flag that makes
  \<^verbatim>\<open>restore\<close> idempotent are fields.

  The abstraction \<open>idx_list\<close> of an index is a free list. Every operation of the index is shown to
  be the free-list operation of the same name on it, panics included.
\<close>

record block_index =
  bi_page :: page_size
  bi_small :: "(byte_length \<times> stored_address) list"
  bi_large :: "(byte_length \<times> stored_address) list"

definition bi_new :: "page_size \<Rightarrow> block_index" where
  "bi_new page = \<lparr>bi_page = page, bi_small = [], bi_large = []\<rparr>"

definition bi_find :: "block_index \<Rightarrow> byte_length \<Rightarrow> stored_address option" where
  "bi_find self sz =
     map_option snd
       (bset_first_from (sz, 0) (if sz < bi_page self then bi_small self else bi_large self))"

definition bi_insert :: "block_index \<Rightarrow> extent \<Rightarrow> block_index" where
  "bi_insert self e =
     self\<lparr>bi_small := bset_insert (block_capacity e (bi_page self) 1, ext_start e) (bi_small self),
          bi_large := bset_insert (block_capacity e (bi_page self) (bi_page self), ext_start e)
            (bi_large self)\<rparr>"

definition bi_remove :: "block_index \<Rightarrow> extent \<Rightarrow> block_index" where
  "bi_remove self e =
     self\<lparr>bi_small := bset_remove (block_capacity e (bi_page self) 1, ext_start e) (bi_small self),
          bi_large := bset_remove (block_capacity e (bi_page self) (bi_page self), ext_start e)
            (bi_large self)\<rparr>"

record indexed_free_list =
  ix_owner :: free_list
  ix_regions :: "(stored_address, extent) bmap"
  ix_sizes :: "(byte_length \<times> stored_address) list"
  ix_interiors :: "(byte_length \<times> stored_address) list"
  ix_alignment :: "byte_length option"
  ix_blocks :: "block_index option"
  ix_total :: byte_length
  ix_restored :: bool

definition ix_interior :: "byte_length option \<Rightarrow> extent \<Rightarrow> extent option" where
  "ix_interior alignment e = do { a \<leftarrow> alignment; aligned_interior e a }"

definition idx_insert :: "indexed_free_list \<Rightarrow> extent \<Rightarrow> indexed_free_list" where
  "idx_insert self e =
     self\<lparr>ix_blocks := map_option (\<lambda>b. bi_insert b e) (ix_blocks self),
          ix_regions := bmap_insert (ext_start e) e (ix_regions self),
          ix_sizes := bset_insert (ext_len e, ext_start e) (ix_sizes self),
          ix_interiors := (case ix_interior (ix_alignment self) e of
             None \<Rightarrow> ix_interiors self
           | Some i \<Rightarrow> bset_insert (ext_len i, ext_start e) (ix_interiors self))\<rparr>"

definition idx_remove ::
  "indexed_free_list \<Rightarrow> stored_address \<Rightarrow> (indexed_free_list \<times> extent) option" where
  "idx_remove self start = do {
     e \<leftarrow> bmap_get start (ix_regions self);
     Some (self\<lparr>ix_regions := bmap_remove start (ix_regions self),
                ix_blocks := map_option (\<lambda>b. bi_remove b e) (ix_blocks self),
                ix_sizes := bset_remove (ext_len e, start) (ix_sizes self),
                ix_interiors := (case ix_interior (ix_alignment self) e of
                   None \<Rightarrow> ix_interiors self
                 | Some i \<Rightarrow> bset_remove (ext_len i, start) (ix_interiors self))\<rparr>, e) }"

definition idx_new :: "free_list \<Rightarrow> byte_length option \<Rightarrow> indexed_free_list" where
  "idx_new owner alignment =
     fold (\<lambda>e self. idx_insert self e) (fl_regions owner)
       \<lparr>ix_owner = fl_new, ix_regions = [], ix_sizes = [], ix_interiors = [],
        ix_alignment = alignment, ix_blocks = None, ix_total = fl_total owner,
        ix_restored = False\<rparr>"

text \<open>\<^verbatim>\<open>if let Some(e) = Extent::between(..) { self.insert(e) }\<close>\<close>

definition idx_insert_between ::
  "indexed_free_list \<Rightarrow> stored_address \<Rightarrow> stored_address \<Rightarrow> indexed_free_list" where
  "idx_insert_between self start stop =
     (case ext_between start stop of None \<Rightarrow> self | Some e \<Rightarrow> idx_insert self e)"

definition idx_subtract :: "indexed_free_list \<Rightarrow> byte_length \<Rightarrow> indexed_free_list option" where
  "idx_subtract self len = do {
     tot \<leftarrow> checked_sub (ix_total self) len;
     Some (self\<lparr>ix_total := tot\<rparr>) }"

definition idx_allocate ::
  "indexed_free_list \<Rightarrow> byte_length \<Rightarrow> (indexed_free_list \<times> extent option) option" where
  "idx_allocate self sz =
     (case bset_first_from (sz, 0) (ix_sizes self) of
        None \<Rightarrow> Some (self, None)
      | Some (_, start) \<Rightarrow> do {
          (self, region) \<leftarrow> idx_remove self start;
          allocation \<leftarrow> ext_new (ext_start region) sz;
          self \<leftarrow> idx_subtract
            (idx_insert_between self (ext_end allocation) (ext_end region)) (ext_len allocation);
          Some (self, Some allocation) })"

definition idx_blocks_for :: "indexed_free_list \<Rightarrow> page_size \<Rightarrow> block_index" where
  "idx_blocks_for self page =
     (case ix_blocks self of
        Some b \<Rightarrow> b
      | None \<Rightarrow> fold (\<lambda>e b. bi_insert b e) (map snd (ix_regions self)) (bi_new page))"

definition idx_allocate_block ::
  "indexed_free_list \<Rightarrow> reservation_request \<Rightarrow> page_size
     \<Rightarrow> (indexed_free_list \<times> extent option) option" where
  "idx_allocate_block self request page =
     (let blocks = idx_blocks_for self page;
          self = self\<lparr>ix_blocks := Some blocks\<rparr>
      in case bi_find blocks (rq_size request) of
           None \<Rightarrow> Some (self, None)
         | Some start \<Rightarrow>
             (case bmap_get start (ix_regions self) of
                None \<Rightarrow> Some (self, None)
              | Some region \<Rightarrow>
                  (case place_after request (ext_start region) (Some page) of
                     Inl _ \<Rightarrow> Some (self, None)
                   | Inr placement \<Rightarrow>
                       (let allocation = pl_extent placement
                        in do {
                          (self, _) \<leftarrow> idx_remove self start;
                          self \<leftarrow> idx_subtract
                            (idx_insert_between
                              (idx_insert_between self (ext_start region) (ext_start allocation))
                              (ext_end allocation) (ext_end region)) (ext_len allocation);
                          Some (self, Some allocation) }))))"

definition idx_allocate_whole_units ::
  "bool \<Rightarrow> indexed_free_list \<Rightarrow> byte_length \<Rightarrow> (indexed_free_list \<times> extent option) option" where
  "idx_allocate_whole_units dbg self sz =
     (case ix_alignment self of
        None \<Rightarrow> Some (self, None)
      | Some alignment \<Rightarrow> do {
          debug_assert dbg (sz mod alignment = 0);
          (case bset_first_from (sz, 0) (ix_interiors self) of
             None \<Rightarrow> Some (self, None)
           | Some (_, start) \<Rightarrow> do {
               (self, region) \<leftarrow> idx_remove self start;
               interior \<leftarrow> aligned_interior region alignment;
               allocation \<leftarrow> ext_new (ext_start interior) sz;
               self \<leftarrow> idx_subtract
                 (idx_insert_between
                   (idx_insert_between self (ext_start region) (ext_start allocation))
                   (ext_end allocation) (ext_end region)) (ext_len allocation);
               Some (self, Some allocation) }) })"

text \<open>The two neighbour checks of \<^verbatim>\<open>free\<close>, each of which may absorb one region.\<close>

definition idx_absorb_previous ::
  "indexed_free_list \<Rightarrow> stored_address \<Rightarrow> (indexed_free_list \<times> stored_address) option" where
  "idx_absorb_previous self start =
     (case bmap_last_before start (ix_regions self) of
        None \<Rightarrow> Some (self, start)
      | Some (previous, region) \<Rightarrow> do {
          assert_that (ext_end region \<le> start);
          (if ext_end region = start
           then do { (self, r) \<leftarrow> idx_remove self previous; Some (self, ext_start r) }
           else Some (self, start)) })"

definition idx_absorb_next ::
  "indexed_free_list \<Rightarrow> stored_address \<Rightarrow> stored_address
     \<Rightarrow> (indexed_free_list \<times> stored_address) option" where
  "idx_absorb_next self start stop =
     (case bmap_first_from start (ix_regions self) of
        None \<Rightarrow> Some (self, stop)
      | Some (next_start, region) \<Rightarrow> do {
          assert_that (stop \<le> ext_start region);
          (if stop = ext_start region
           then do { (self, r) \<leftarrow> idx_remove self next_start; Some (self, ext_end r) }
           else Some (self, stop)) })"

definition idx_free :: "indexed_free_list \<Rightarrow> extent \<Rightarrow> indexed_free_list option" where
  "idx_free self e = do {
     (self, start) \<leftarrow> idx_absorb_previous self (ext_start e);
     (self, stop) \<leftarrow> idx_absorb_next self start (ext_end e);
     merged \<leftarrow> ext_between start stop;
     tot \<leftarrow> checked_add (ix_total self) (ext_len e);
     Some ((idx_insert self merged)\<lparr>ix_total := tot\<rparr>) }"

definition idx_restore :: "indexed_free_list \<Rightarrow> indexed_free_list" where
  "idx_restore self =
     (if ix_restored self then self
      else self\<lparr>ix_owner := \<lparr>fl_regions = map snd (ix_regions self), fl_total = ix_total self\<rparr>,
                ix_regions := [], ix_total := 0, ix_sizes := [], ix_interiors := [],
                ix_blocks := None, ix_restored := True\<rparr>)"

definition idx_merges :: "indexed_free_list \<Rightarrow> extent \<Rightarrow> bool" where
  "idx_merges self e =
     ((case bmap_last_before (ext_start e) (ix_regions self) of
         None \<Rightarrow> False | Some (_, previous) \<Rightarrow> ext_end previous = ext_start e)
      \<or> bmap_get (ext_end e) (ix_regions self) \<noteq> None)"

section \<open>The invariant\<close>

definition ix_extents :: "indexed_free_list \<Rightarrow> extent list" where
  "ix_extents ix = map snd (ix_regions ix)"

definition idx_list :: "indexed_free_list \<Rightarrow> free_list" where
  "idx_list ix = \<lparr>fl_regions = ix_extents ix, fl_total = ix_total ix\<rparr>"

text \<open>\<open>indexes key rs S\<close>: the sorted list \<open>S\<close> holds the key and the start of each keyed extent.\<close>

definition indexes :: "(extent \<Rightarrow> nat option) \<Rightarrow> extent set \<Rightarrow> (nat \<times> nat) list \<Rightarrow> bool" where
  "indexes key R S \<longleftrightarrow>
     sorted_wrt (<) S \<and> set S = {(k, ext_start e) | k e. e \<in> R \<and> key e = Some k}"

definition bi_wf :: "page_size \<Rightarrow> extent set \<Rightarrow> block_index \<Rightarrow> bool" where
  "bi_wf page R b \<longleftrightarrow> bi_page b = page
     \<and> indexes (\<lambda>e. Some (block_capacity e page 1)) R (bi_small b)
     \<and> indexes (\<lambda>e. Some (block_capacity e page page)) R (bi_large b)"

definition idx_wf :: "page_size \<Rightarrow> indexed_free_list \<Rightarrow> bool" where
  "idx_wf page ix \<longleftrightarrow>
     (\<forall>(k, e) \<in> set (ix_regions ix). k = ext_start e)
     \<and> bmap_sorted (ix_regions ix)
     \<and> canonical (ix_extents ix)
     \<and> indexes (\<lambda>e. Some (ext_len e)) (set (ix_extents ix)) (ix_sizes ix)
     \<and> indexes (\<lambda>e. map_option ext_len (ix_interior (ix_alignment ix) e)) (set (ix_extents ix))
         (ix_interiors ix)
     \<and> (\<forall>b. ix_blocks ix = Some b \<longrightarrow> bi_wf page (set (ix_extents ix)) b)
     \<and> (\<forall>a. ix_alignment ix = Some a \<longrightarrow> 0 < a)"

definition idx_inv :: "page_size \<Rightarrow> indexed_free_list \<Rightarrow> bool" where
  "idx_inv page ix \<longleftrightarrow> idx_wf page ix \<and> ix_total ix = region_total (ix_extents ix)"

lemma idx_inv_list: "idx_inv page ix \<Longrightarrow> fl_inv (idx_list ix)"
  by (simp add: idx_inv_def idx_wf_def fl_inv_def idx_list_def)

lemma canonical_iff_set:
  assumes "sorted_wrt (<) (map ext_start rs)"
  shows "canonical rs \<longleftrightarrow> (\<forall>e \<in> set rs. wf_extent e)
    \<and> (\<forall>a \<in> set rs. \<forall>b \<in> set rs. ext_start a < ext_start b \<longrightarrow> ext_end a < ext_start b)"
  using assms
proof (induction rs)
  case (Cons r rs)
  have lt: "ext_start r < ext_start x" if "x \<in> set rs" for x using Cons.prems that by simp
  then show ?case using Cons by (auto dest: less_not_sym)
qed simp

lemma indexes_insert:
  assumes "indexes key R S"
  shows "indexes key (insert e R)
    (case key e of None \<Rightarrow> S | Some k \<Rightarrow> bset_insert (k, ext_start e) S)"
  using assms unfolding indexes_def
  by (cases "key e") (auto simp: sorted_bset_insert simp del: sorted_wrt.simps)

lemma indexes_remove:
  assumes "indexes key R S" "e \<in> R" "\<And>a. a \<in> R \<Longrightarrow> ext_start a = ext_start e \<Longrightarrow> a = e"
  shows "indexes key (R - {e})
    (case key e of None \<Rightarrow> S | Some k \<Rightarrow> bset_remove (k, ext_start e) S)"
proof (cases "key e")
  case None
  have "{(k, ext_start e) |k e. e \<in> R \<and> key e = Some k}
      = {(k, ext_start a) |k a. a \<in> R - {e} \<and> key a = Some k}"
    using None by fastforce
  then show ?thesis using assms(1) None by (simp add: indexes_def)
next
  case (Some k)
  have "{(k, ext_start e) |k e. e \<in> R \<and> key e = Some k} - {(k, ext_start e)}
      = {(k, ext_start a) |k a. a \<in> R - {e} \<and> key a = Some k}"
    (is "?S - _ = ?T")
  proof
    show "?S - {(k, ext_start e)} \<subseteq> ?T"
    proof
      fix x assume "x \<in> ?S - {(k, ext_start e)}"
      then obtain j a where a: "x = (j, ext_start a)" "a \<in> R" "key a = Some j"
        "x \<noteq> (k, ext_start e)" by blast
      then have "a \<noteq> e" using Some by auto
      with a show "x \<in> ?T" by blast
    qed
    show "?T \<subseteq> ?S - {(k, ext_start e)}" using assms(3) by fastforce
  qed
  then show ?thesis using assms(1) Some by (simp add: indexes_def sorted_bset_remove)
qed

lemma keyed_starts:
  "\<forall>(k, e) \<in> set m. k = ext_start e \<Longrightarrow> map fst m = map ext_start (map snd m)"
  by (induction m) auto

lemma idx_wf_starts:
  assumes "idx_wf page ix"
  shows "sorted_wrt (<) (map ext_start (ix_extents ix))"
    "(k, e) \<in> set (ix_regions ix) \<longleftrightarrow> k = ext_start e \<and> e \<in> set (ix_extents ix)"
proof -
  have "map fst (ix_regions ix) = map ext_start (ix_extents ix)"
    using assms keyed_starts unfolding idx_wf_def ix_extents_def by blast
  moreover have "bmap_sorted (ix_regions ix)" using assms by (simp add: idx_wf_def)
  ultimately show "sorted_wrt (<) (map ext_start (ix_extents ix))" by simp
  have keys: "k = ext_start e" if "(k, e) \<in> set (ix_regions ix)" for k e
    using assms that unfolding idx_wf_def by blast
  show "(k, e) \<in> set (ix_regions ix) \<longleftrightarrow> k = ext_start e \<and> e \<in> set (ix_extents ix)"
    using keys by (auto simp: ix_extents_def) force
qed

lemma keyed_extents:
  assumes "\<forall>(k, e) \<in> set m. k = ext_start e" "bmap_sorted m"
    "\<forall>e \<in> snd ` set m. wf_extent e"
    "\<forall>a \<in> snd ` set m. \<forall>b \<in> snd ` set m. ext_start a < ext_start b \<longrightarrow> ext_end a < ext_start b"
  shows "canonical (map snd m)"
proof -
  have "sorted_wrt (<) (map ext_start (map snd m))"
    using assms(2) unfolding keyed_starts [OF assms(1)] .
  from canonical_iff_set [OF this] show ?thesis using assms(3,4) unfolding set_map by blast
qed

lemma idx_insert_wf:
  assumes wf: "idx_wf page ix" and e: "wf_extent e"
    and gap: "\<And>r. r \<in> set (ix_extents ix) \<Longrightarrow> ext_end r < ext_start e \<or> ext_end e < ext_start r"
  shows "idx_wf page (idx_insert ix e)"
    "set (ix_extents (idx_insert ix e)) = insert e (set (ix_extents ix))"
    "ix_total (idx_insert ix e) = ix_total ix" "ix_alignment (idx_insert ix e) = ix_alignment ix"
    "ix_restored (idx_insert ix e) = ix_restored ix" "ix_owner (idx_insert ix e) = ix_owner ix"
proof -
  note w = wf [unfolded idx_wf_def]
  have keys: "ext_start e \<noteq> k" if "(k, r) \<in> set (ix_regions ix)" for k r
  proof -
    have "r \<in> set (ix_extents ix)" "k = ext_start r" using that idx_wf_starts(2) [OF wf] by auto
    then show ?thesis
      using gap [of r] ext_start_le_end [of r] ext_start_le_end [of e] by linarith
  qed
  then have regs: "set (ix_regions (idx_insert ix e)) = insert (ext_start e, e) (set (ix_regions ix))"
  proof -
    have "{p \<in> set (ix_regions ix). fst p \<noteq> ext_start e} = set (ix_regions ix)"
      by (auto dest: keys)
    then show ?thesis using w by (simp add: idx_insert_def set_bmap_insert)
  qed
  then show set: "set (ix_extents (idx_insert ix e)) = insert e (set (ix_extents ix))"
    by (simp add: ix_extents_def)
  have srt: "bmap_sorted (ix_regions (idx_insert ix e))"
    using w by (simp add: idx_insert_def sorted_bmap_insert)
  have can: "canonical (ix_extents (idx_insert ix e))"
    unfolding ix_extents_def
  proof (rule keyed_extents [OF _ srt])
    have old: "\<forall>a \<in> set (ix_extents ix). \<forall>b \<in> set (ix_extents ix).
        ext_start a < ext_start b \<longrightarrow> ext_end a < ext_start b" "\<forall>a \<in> set (ix_extents ix). wf_extent a"
      using canonical_iff_set [OF idx_wf_starts(1) [OF wf]] w by simp_all
    have img: "snd ` set (ix_regions (idx_insert ix e)) = insert e (set (ix_extents ix))"
      using set by (simp add: ix_extents_def)
    show "\<forall>a \<in> snd ` set (ix_regions (idx_insert ix e)). wf_extent a"
      unfolding img using old(2) e by simp
    have "ext_end r < ext_start e" if "r \<in> set (ix_extents ix)" "ext_start r < ext_start e" for r
      using gap [OF that(1)] that(2) ext_start_le_end [of e] by linarith
    moreover have "ext_end e < ext_start r" if "r \<in> set (ix_extents ix)" "ext_start e < ext_start r" for r
      using gap [OF that(1)] that(2) ext_start_le_end [of r] by linarith
    ultimately show "\<forall>a \<in> snd ` set (ix_regions (idx_insert ix e)).
        \<forall>b \<in> snd ` set (ix_regions (idx_insert ix e)). ext_start a < ext_start b \<longrightarrow> ext_end a < ext_start b"
      unfolding img using old(1) by blast
    show "\<forall>(k, x) \<in> set (ix_regions (idx_insert ix e)). k = ext_start x"
      unfolding regs using w by simp
  qed
  have "indexes (\<lambda>e. Some (ext_len e)) (insert e (set (ix_extents ix))) (ix_sizes (idx_insert ix e))"
    using indexes_insert [of "\<lambda>e. Some (ext_len e)" _ "ix_sizes ix" e] w by (simp add: idx_insert_def)
  moreover have "indexes (\<lambda>e. map_option ext_len (ix_interior (ix_alignment ix) e))
      (insert e (set (ix_extents ix))) (ix_interiors (idx_insert ix e))"
    using indexes_insert [of "\<lambda>e. map_option ext_len (ix_interior (ix_alignment ix) e)" _ "ix_interiors ix" e] w
    by (auto simp: idx_insert_def split: option.splits)
  moreover have "bi_wf page (insert e (set (ix_extents ix))) (bi_insert b e)" if "ix_blocks ix = Some b" for b
    using indexes_insert [of "\<lambda>e. Some (block_capacity e page 1)" _ "bi_small b" e]
      indexes_insert [of "\<lambda>e. Some (block_capacity e page page)" _ "bi_large b" e] w that
    by (simp add: bi_wf_def bi_insert_def)
  moreover have "ix_blocks (idx_insert ix e) = map_option (\<lambda>b. bi_insert b e) (ix_blocks ix)"
    by (simp add: idx_insert_def)
  moreover show "ix_total (idx_insert ix e) = ix_total ix" "ix_alignment (idx_insert ix e) = ix_alignment ix"
    "ix_restored (idx_insert ix e) = ix_restored ix" "ix_owner (idx_insert ix e) = ix_owner ix"
    by (simp_all add: idx_insert_def)
  ultimately show "idx_wf page (idx_insert ix e)"
    using can srt w set regs unfolding idx_wf_def by auto
qed

lemma idx_remove_wf:
  assumes wf: "idx_wf page ix" and r: "r \<in> set (ix_extents ix)"
  shows "\<exists>ix'. idx_remove ix (ext_start r) = Some (ix', r) \<and> idx_wf page ix'
     \<and> set (ix_extents ix') = set (ix_extents ix) - {r} \<and> ix_total ix' = ix_total ix
     \<and> ix_alignment ix' = ix_alignment ix \<and> ix_restored ix' = ix_restored ix \<and> ix_owner ix' = ix_owner ix"
proof -
  note w = wf [unfolded idx_wf_def]
  have can: "canonical (ix_extents ix)" using w by blast
  have uniq: "a = r" if "a \<in> set (ix_extents ix)" "ext_start a = ext_start r" for a
    using canonical_starts_distinct [OF can that(1) r that(2)] .
  have get: "bmap_get (ext_start r) (ix_regions ix) = Some r"
    using w r idx_wf_starts(2) [OF wf] by (simp add: bmap_get_Some)
  define ix' where "ix' = fst (the (idx_remove ix (ext_start r)))"
  have eq: "idx_remove ix (ext_start r) = Some (ix', r)"
    by (simp add: ix'_def idx_remove_def get)
  have f: "ix_regions ix' = bmap_remove (ext_start r) (ix_regions ix)"
    "ix_sizes ix' = bset_remove (ext_len r, ext_start r) (ix_sizes ix)"
    "ix_blocks ix' = map_option (\<lambda>b. bi_remove b r) (ix_blocks ix)"
    "ix_alignment ix' = ix_alignment ix" "ix_total ix' = ix_total ix"
    "ix_restored ix' = ix_restored ix" "ix_owner ix' = ix_owner ix"
    "ix_interiors ix' = (case ix_interior (ix_alignment ix) r of None \<Rightarrow> ix_interiors ix
       | Some i \<Rightarrow> bset_remove (ext_len i, ext_start r) (ix_interiors ix))"
    by (simp_all add: ix'_def idx_remove_def get)
  have ext': "ix_extents ix' = filter (\<lambda>e. ext_start e \<noteq> ext_start r) (ix_extents ix)"
  proof -
    have "map snd (filter (\<lambda>(k, v). k \<noteq> ext_start r) m) = filter (\<lambda>e. ext_start e \<noteq> ext_start r) (map snd m)"
      if "\<forall>(k, e) \<in> set m. k = ext_start e" for m :: "(nat, extent) bmap"
      using that by (induction m) auto
    then show ?thesis using w by (simp add: ix_extents_def f(1) bmap_remove_def)
  qed
  then have set: "set (ix_extents ix') = set (ix_extents ix) - {r}" using uniq by auto
  have "canonical (ix_extents ix')"
    using can unfolding ext' canonical_def by (auto simp: sorted_wrt_filter)
  moreover have "indexes (\<lambda>e. Some (ext_len e)) (set (ix_extents ix')) (ix_sizes ix')"
    using indexes_remove [of "\<lambda>e. Some (ext_len e)" _ "ix_sizes ix" r] w r uniq
    unfolding set f by simp
  moreover have "indexes (\<lambda>e. map_option ext_len (ix_interior (ix_alignment ix') e)) (set (ix_extents ix'))
      (ix_interiors ix')"
    using indexes_remove [of "\<lambda>e. map_option ext_len (ix_interior (ix_alignment ix) e)" _ "ix_interiors ix" r]
      w r uniq unfolding set f by (cases "ix_interior (ix_alignment ix) r") simp_all
  moreover have "bi_wf page (set (ix_extents ix')) (bi_remove b r)" if "ix_blocks ix = Some b" for b
    using indexes_remove [of "\<lambda>e. Some (block_capacity e page 1)" _ "bi_small b" r]
      indexes_remove [of "\<lambda>e. Some (block_capacity e page page)" _ "bi_large b" r] w that r uniq
    unfolding set by (simp add: bi_wf_def bi_remove_def)
  ultimately have "idx_wf page ix'"
    using w unfolding idx_wf_def by (auto simp: f sorted_bmap_remove)
  then show ?thesis using eq set f by auto
qed

section \<open>Refinement of the free list\<close>

lemma idx_list_bytes: "fl_bytes (idx_list ix) = region_bytes (ix_extents ix)"
  by (simp add: fl_bytes_def idx_list_def)

lemma ix_bytes_set:
  "region_bytes (ix_extents ix) = (\<Union>e \<in> set (ix_extents ix). ext_bytes e)"
  by (simp add: region_bytes_def)

text \<open>The first entry of an index at or above a size names the best region.\<close>

lemma index_best:
  fixes sz :: nat
  assumes idx: "indexes key (set rs) S" and can: "canonical rs"
  defines "best \<equiv> best_region (\<lambda>r. \<exists>k. key r = Some k \<and> sz \<le> k) (\<lambda>r. the (key r)) rs"
  shows "bset_first_from (sz, 0) S = map_option (\<lambda>r. (the (key r), ext_start r)) best"
proof (cases best)
  case None
  then have "\<forall>y \<in> set S. \<not> (sz, 0) \<le> y"
    using idx by (auto simp: best_def best_region_None indexes_def less_eq_prod_def)
  then show ?thesis using None bset_first_from_None [of "(sz, 0)" S] by simp
next
  case (Some r)
  note b = best_region_Some [OF Some [unfolded best_def]]
  obtain k where k: "key r = Some k" "sz \<le> k" using b(2) by blast
  have srt: "sorted_wrt (<) S" using idx by (simp add: indexes_def)
  have "(k, ext_start r) \<in> set S" using idx b(1) k(1) by (auto simp: indexes_def)
  moreover have "(sz, 0) \<le> (k, ext_start r)" using k(2) by (auto simp: less_eq_prod_def)
  moreover have "(k, ext_start r) \<le> y" if y: "y \<in> set S" "(sz, 0) \<le> y" for y
  proof -
    obtain j e where e: "y = (j, ext_start e)" "e \<in> set rs" "key e = Some j"
      using y(1) idx unfolding indexes_def by blast
    have "sz \<le> j" using y(2) e(1) by (auto simp: less_eq_prod_def)
    then show ?thesis using b(3) [OF e(2)] e k by auto
  qed
  ultimately have "bset_first_from (sz, 0) S = Some (k, ext_start r)"
    unfolding bset_first_from_Some [OF srt] by blast
  then show ?thesis using Some k(1) by simp
qed

text \<open>Removing a region and inserting what an allocation leaves of it.\<close>

lemma idx_insert_between_piece:
  assumes wf: "idx_wf page ix" and t: "t \<le> u64_max"
    and gap: "\<And>r. r \<in> set (ix_extents ix) \<Longrightarrow> s < t \<Longrightarrow> ext_end r < s \<or> t < ext_start r"
  shows "idx_wf page (idx_insert_between ix s t)"
    "set (ix_extents (idx_insert_between ix s t)) = set (ext_piece s t) \<union> set (ix_extents ix)"
    "ix_total (idx_insert_between ix s t) = ix_total ix"
    "ix_alignment (idx_insert_between ix s t) = ix_alignment ix"
    "ix_restored (idx_insert_between ix s t) = ix_restored ix"
    "ix_owner (idx_insert_between ix s t) = ix_owner ix"
proof -
  define e where "e = \<lparr>ext_start = s, ext_len = t - s\<rparr>"
  have "idx_wf page (idx_insert_between ix s t)
    \<and> set (ix_extents (idx_insert_between ix s t)) = set (ext_piece s t) \<union> set (ix_extents ix)
    \<and> ix_total (idx_insert_between ix s t) = ix_total ix
    \<and> ix_alignment (idx_insert_between ix s t) = ix_alignment ix
    \<and> ix_restored (idx_insert_between ix s t) = ix_restored ix
    \<and> ix_owner (idx_insert_between ix s t) = ix_owner ix"
  proof (cases "s < t")
    case True
    have eq: "idx_insert_between ix s t = idx_insert ix e" "ext_piece s t = [e]"
      using True t by (simp_all add: idx_insert_between_def checked ext_piece_def e_def)
    have e: "wf_extent e" "\<And>r. r \<in> set (ix_extents ix) \<Longrightarrow> ext_end r < ext_start e \<or> ext_end e < ext_start r"
      using True t gap by (simp_all add: e_def)
    show ?thesis using idx_insert_wf [OF wf e] unfolding eq by simp
  qed (use wf t in \<open>simp add: idx_insert_between_def checked ext_piece_def\<close>)
  then show "idx_wf page (idx_insert_between ix s t)"
    "set (ix_extents (idx_insert_between ix s t)) = set (ext_piece s t) \<union> set (ix_extents ix)"
    "ix_total (idx_insert_between ix s t) = ix_total ix"
    "ix_alignment (idx_insert_between ix s t) = ix_alignment ix"
    "ix_restored (idx_insert_between ix s t) = ix_restored ix"
    "ix_owner (idx_insert_between ix s t) = ix_owner ix" by blast+
qed

definition idx_edges :: "indexed_free_list \<Rightarrow> extent \<Rightarrow> extent \<Rightarrow> indexed_free_list" where
  "idx_edges ix region a =
     idx_insert_between (idx_insert_between ix (ext_start region) (ext_start a))
       (ext_end a) (ext_end region)"

lemma idx_carve:
  assumes inv: "idx_inv page ix" and r: "r \<in> set (ix_extents ix)" and a: "wf_extent a" "inside a r"
  shows "\<exists>ix1 ix'. idx_remove ix (ext_start r) = Some (ix1, r)
     \<and> idx_subtract (idx_edges ix1 r a) (ext_len a) = Some ix' \<and> idx_inv page ix'
     \<and> ix_alignment ix' = ix_alignment ix \<and> ix_restored ix' = ix_restored ix
     \<and> handed_out (idx_list ix) a (idx_list ix')"
proof -
  have wf: "idx_wf page ix" using inv by (simp add: idx_inv_def)
  have can: "canonical (ix_extents ix)" using wf by (simp add: idx_wf_def)
  have wr: "wf_extent r" by (rule canonical_wf [OF can r])
  obtain ix1 where ix1: "idx_remove ix (ext_start r) = Some (ix1, r)" "idx_wf page ix1"
    "set (ix_extents ix1) = set (ix_extents ix) - {r}" "ix_total ix1 = ix_total ix"
    "ix_alignment ix1 = ix_alignment ix" "ix_restored ix1 = ix_restored ix"
    using idx_remove_wf [OF wf r] by blast
  have others: "ext_end x < ext_start r \<or> ext_end r < ext_start x" if "x \<in> set (ix_extents ix1)" for x
  proof -
    have x: "x \<in> set (ix_extents ix)" "x \<noteq> r" using that ix1(3) by auto
    then have "ext_start x \<noteq> ext_start r" using canonical_starts_distinct [OF can _ r] by blast
    then show ?thesis
      using canonical_in_order [OF can x(1) r] canonical_in_order [OF can r x(1)] by linarith
  qed
  note ina = a(2) [unfolded inside_def] and wa = wf_extentD [OF a(1)] and wr' = wf_extentD [OF wr]
  define ix2 where "ix2 = idx_insert_between ix1 (ext_start r) (ext_start a)"
  have ix2: "idx_wf page ix2" "set (ix_extents ix2) = set (ext_piece (ext_start r) (ext_start a)) \<union> set (ix_extents ix1)"
    "ix_total ix2 = ix_total ix1" "ix_alignment ix2 = ix_alignment ix1" "ix_restored ix2 = ix_restored ix1"
    unfolding ix2_def using others ina wa
    by (intro idx_insert_between_piece [OF ix1(2)]; fastforce)+
  have gap2: "ext_end x < ext_end a \<or> ext_end r < ext_start x" if "x \<in> set (ix_extents ix2)" for x
    using that others [of x] ina wa unfolding ix2(2) by (auto dest!: ext_piece_simps(4))
  define ix3 where "ix3 = idx_edges ix1 r a"
  have ix3: "idx_wf page ix3" "set (ix_extents ix3) = set (ext_piece (ext_end a) (ext_end r)) \<union> set (ix_extents ix2)"
    "ix_total ix3 = ix_total ix2" "ix_alignment ix3 = ix_alignment ix2" "ix_restored ix3 = ix_restored ix2"
    unfolding ix3_def idx_edges_def ix2_def [symmetric] using gap2 wr'
    by (intro idx_insert_between_piece [OF ix2(1)]; fastforce)+
  have set3: "set (ix_extents ix3) = set (carve r a) \<union> (set (ix_extents ix) - {r})"
    unfolding ix3(2) ix2(2) ix1(3) by (auto simp: carve_def)
  have bytes: "region_bytes (ix_extents ix3) = region_bytes (ix_extents ix) - ext_bytes a"
  proof -
    have "ext_bytes x \<inter> ext_bytes a = {}" if "x \<in> set (ix_extents ix) - {r}" for x
      using others [of x] that ina unfolding ix1(3) by (auto simp: ext_bytes_def)
    moreover have "region_bytes (carve r a) = ext_bytes r - ext_bytes a"
      by (rule carve_meet(3) [OF wr a(1) inside_meet [OF a]])
    ultimately show ?thesis using r unfolding region_bytes_def set3 by blast
  qed
  have sub: "ext_bytes a \<subseteq> region_bytes (ix_extents ix)"
    using inside_bytes [OF a(2)] ext_bytes_subset_region [OF r] by blast
  have can3: "canonical (ix_extents ix3)" using ix3(1) by (simp add: idx_wf_def)
  have tot: "region_total (ix_extents ix3) + ext_len a = ix_total ix"
    using inv canonical_card [OF can] canonical_card [OF can3] bytes sub card_mono [OF _ sub]
    by (simp add: idx_inv_def card_Diff_subset)
  define ix' where "ix' = ix3\<lparr>ix_total := region_total (ix_extents ix3)\<rparr>"
  have eq: "idx_subtract (idx_edges ix1 r a) (ext_len a) = Some ix'"
    using tot ix3(3) ix2(3) ix1(4)
    by (simp add: idx_subtract_def ix3_def [symmetric] ix'_def checked)
  have "ix_extents ix' = ix_extents ix3" by (simp add: ix'_def ix_extents_def)
  moreover have "idx_wf page ix'"
    using ix3(1) unfolding idx_wf_def by (simp add: ix'_def ix_extents_def)
  ultimately have inv': "idx_inv page ix'" by (simp add: idx_inv_def ix'_def)
  moreover have "handed_out (idx_list ix) a (idx_list ix')"
    using idx_inv_list [OF inv'] bytes sub a(1) \<open>ix_extents ix' = ix_extents ix3\<close>
    by (simp add: handed_out_def idx_list_bytes)
  moreover have "ix_alignment ix' = ix_alignment ix" "ix_restored ix' = ix_restored ix"
    using ix3 ix2 ix1 by (simp_all add: ix'_def)
  ultimately show ?thesis using ix1(1) eq by blast
qed

lemma handed_out_unique: "handed_out l a l' \<Longrightarrow> handed_out l a l'' \<Longrightarrow> l' = l''"
  by (auto simp: handed_out_def intro: fl_inv_eqI)

lemma idx_regions_list: "fl_regions (idx_list ix) = ix_extents ix"
  by (simp add: idx_list_def)

lemma idx_allocate_refines:
  assumes inv: "idx_inv page ix" and sz: "0 < sz"
  shows "\<exists>ix' r. idx_allocate ix sz = Some (ix', r) \<and> idx_inv page ix'
     \<and> ix_alignment ix' = ix_alignment ix \<and> ix_restored ix' = ix_restored ix
     \<and> fl_alloc (idx_list ix) sz = Some (idx_list ix', r)"
proof -
  have wf: "idx_wf page ix" using inv by (simp add: idx_inv_def)
  have "bset_first_from (sz, 0) (ix_sizes ix)
      = map_option (\<lambda>r. (ext_len r, ext_start r)) (fit_region (idx_list ix) sz)"
    using index_best [of "\<lambda>e. Some (ext_len e)" "ix_extents ix" "ix_sizes ix" sz] wf
    by (simp add: idx_wf_def fit_region_def idx_regions_list)
  note pick = this
  show ?thesis
  proof (cases "fit_region (idx_list ix) sz")
    case None
    then have "idx_allocate ix sz = Some (ix, None)" by (simp add: idx_allocate_def pick)
    then show ?thesis using inv fl_alloc_None [OF idx_inv_list [OF inv] None] by auto
  next
    case (Some r)
    note b = best_region_Some(1,2) [OF Some [unfolded fit_region_def idx_regions_list]]
    define a where "a = \<lparr>ext_start = ext_start r, ext_len = sz\<rparr>"
    obtain l' where l': "fl_alloc (idx_list ix) sz = Some (l', Some a)" "handed_out (idx_list ix) a l'"
      using fl_alloc_Some [OF idx_inv_list [OF inv] sz Some] by (auto simp: a_def)
    have wr: "wf_extent r" using canonical_wf [OF _ b(1)] wf by (simp add: idx_wf_def)
    have a: "wf_extent a" "inside a r" "ext_new (ext_start r) sz = Some a"
      using wf_extentD [OF wr] b(2) sz by (auto simp: a_def inside_def ext_end_def)
    obtain ix1 ix' where c: "idx_remove ix (ext_start r) = Some (ix1, r)"
      "idx_subtract (idx_edges ix1 r a) (ext_len a) = Some ix'" "idx_inv page ix'"
      "ix_alignment ix' = ix_alignment ix" "ix_restored ix' = ix_restored ix"
      "handed_out (idx_list ix) a (idx_list ix')"
      using idx_carve [OF inv b(1) a(1,2)] by blast
    have "idx_edges ix1 r a = idx_insert_between ix1 (ext_end a) (ext_end r)"
      by (simp add: idx_edges_def a_def idx_insert_between_def checked)
    then have "idx_allocate ix sz = Some (ix', Some a)"
      using Some c(1,2) a(3) by (simp add: idx_allocate_def pick del: ext_new_Some)
    then show ?thesis using c l'(1) handed_out_unique [OF l'(2) c(6)] by auto
  qed
qed

lemma idx_allocate_whole_units_refines:
  assumes inv: "idx_inv page ix" and sz: "0 < sz" and al: "ix_alignment ix = Some align"
    and dvd: "align dvd sz"
  shows "\<exists>ix' r. idx_allocate_whole_units dbg ix sz = Some (ix', r) \<and> idx_inv page ix'
     \<and> ix_alignment ix' = ix_alignment ix \<and> ix_restored ix' = ix_restored ix
     \<and> alloc_whole_units dbg (idx_list ix) sz align = Some (idx_list ix', r)"
proof -
  have wf: "idx_wf page ix" using inv by (simp add: idx_inv_def)
  have al0: "0 < align" using wf al by (simp add: idx_wf_def)
  have elig: "(\<lambda>r. \<exists>k. map_option ext_len (aligned_interior r align) = Some k \<and> sz \<le> k)
      = (\<lambda>r. sz \<le> interior_len align r)"
    using sz by (auto simp: interior_len_def split: option.splits)
  have key: "best_region (\<lambda>r. sz \<le> interior_len align r)
        (\<lambda>r. the (map_option ext_len (aligned_interior r align))) rs
      = best_region (\<lambda>r. sz \<le> interior_len align r) (interior_len align) rs" for rs
    using sz by (intro best_region_cong) (auto simp: interior_len_def split: option.splits)
  have pick: "bset_first_from (sz, 0) (ix_interiors ix)
      = map_option (\<lambda>r. (the (map_option ext_len (aligned_interior r align)), ext_start r))
          (unit_region (idx_list ix) sz align)"
  proof -
    have "indexes (\<lambda>e. map_option ext_len (aligned_interior e align)) (set (ix_extents ix)) (ix_interiors ix)"
      "canonical (ix_extents ix)"
      using wf by (simp_all add: idx_wf_def al ix_interior_def)
    from index_best [OF this, of sz] show ?thesis
      unfolding elig key unit_region_def idx_regions_list .
  qed
  have assert: "debug_assert dbg (sz mod align = 0) = Some ()"
    using dvd by (simp add: debug_assert_def dvd_eq_mod_eq_0)
  show ?thesis
  proof (cases "unit_region (idx_list ix) sz align")
    case None
    then have "idx_allocate_whole_units dbg ix sz = Some (ix, None)"
      by (simp add: idx_allocate_whole_units_def al assert pick)
    then show ?thesis
      using inv alloc_whole_units_None [OF idx_inv_list [OF inv] sz None dvd] by auto
  next
    case (Some r)
    note b = best_region_Some(1,2) [OF Some [unfolded unit_region_def idx_regions_list]]
    have wr: "wf_extent r" using canonical_wf [OF _ b(1)] wf by (simp add: idx_wf_def)
    obtain i where i: "aligned_interior r align = Some i" "sz \<le> ext_len i"
      using b(2) sz by (auto simp: interior_len_def split: option.splits)
    note I = aligned_interiorD [OF wr al0 i(1)]
    define a where "a = \<lparr>ext_start = ext_start i, ext_len = sz\<rparr>"
    have a: "wf_extent a" "inside a r" "ext_new (ext_start i) sz = Some a"
      using I(1,4,5) wf_extentD [OF I(1)] i(2) sz by (auto simp: a_def inside_def ext_end_def)
    obtain l' where l': "alloc_whole_units dbg (idx_list ix) sz align = Some (l', Some a)"
      "handed_out (idx_list ix) a l'"
      using alloc_whole_units_at [OF idx_inv_list [OF inv] sz al0 dvd Some i(1)] by (auto simp: a_def)
    obtain ix1 ix' where c: "idx_remove ix (ext_start r) = Some (ix1, r)"
      "idx_subtract (idx_edges ix1 r a) (ext_len a) = Some ix'" "idx_inv page ix'"
      "ix_alignment ix' = ix_alignment ix" "ix_restored ix' = ix_restored ix"
      "handed_out (idx_list ix) a (idx_list ix')"
      using idx_carve [OF inv b(1) a(1,2)] by blast
    then have "idx_allocate_whole_units dbg ix sz = Some (ix', Some a)"
      using Some i(1) a(3)
      by (simp add: idx_allocate_whole_units_def al assert pick idx_edges_def del: ext_new_Some)
    then show ?thesis using c l'(1) handed_out_unique [OF l'(2) c(6)] by auto
  qed
qed

lemma alloc_block_best:
  assumes inv: "fl_inv l" and rq: "wf_request rq" "is_block rq" and p: "0 < page"
    and best: "best_region (block_fits page (rq_size rq)) (\<lambda>r. block_capacity r page (rq_size rq))
       (fl_regions l) = Some s"
  shows "\<exists>l'. alloc_block l rq page = Some (l', Some (block_at page (rq_size rq) s))
     \<and> handed_out l (block_at page (rq_size rq) s) l'"
proof -
  let ?cap = "\<lambda>r. block_capacity r page (rq_size rq)" and ?at = "block_at page (rq_size rq)"
  have sz: "0 < rq_size rq" using rq(1) by (simp add: wf_request_def)
  note b = best_region_Some [OF best]
  have can: "canonical (fl_regions l)" using inv by (simp add: fl_inv_def)
  obtain l' t where t: "alloc_block l rq page = Some (l', Some (?at t))" "t \<in> set (fl_regions l)"
    "block_fits page (rq_size rq) t" "handed_out l (?at t) l'"
    "\<forall>x \<in> set (fl_regions l). block_fits page (rq_size rq) x \<longrightarrow>
       (?cap t, ext_start (?at t)) \<le> (?cap x, ext_start (?at x))"
    using alloc_block_Some [OF inv rq p b(1,2)] by blast
  have le: "(?cap t, ext_start (?at t)) \<le> (?cap s, ext_start (?at s))" using t(5) b(1,2) by blast
  have ge: "(?cap s, ext_start s) \<le> (?cap t, ext_start t)" using b(3) t(2,3) by blast
  have "ext_start s = ext_start t"
  proof (rule ccontr)
    assume "ext_start s \<noteq> ext_start t"
    then have "ext_start s < ext_start t" using le ge by (auto simp: less_eq_prod_def)
    then have "ext_end s < ext_start t" by (rule canonical_in_order [OF can b(1) t(2)])
    moreover have "inside (?at s) s" "inside (?at t) t" "wf_extent (?at s)"
      using block_at_spec [OF fl_region_wf [OF inv b(1)] p sz b(2)]
        block_at_spec [OF fl_region_wf [OF inv t(2)] p sz t(3)] by blast+
    ultimately have "ext_start (?at s) < ext_start (?at t)"
      using wf_extentD(2) [of "?at s"] by (simp add: inside_def)
    then show False using le ge by (auto simp: less_eq_prod_def)
  qed
  then have "s = t" by (rule canonical_starts_distinct [OF can b(1) t(2)])
  then show ?thesis using t(1,4) by blast
qed

lemma idx_blocks_for_wf:
  assumes "idx_wf page ix"
  shows "bi_wf page (set (ix_extents ix)) (idx_blocks_for ix page)"
proof (cases "ix_blocks ix")
  case (Some b)
  then show ?thesis using assms by (simp add: idx_wf_def idx_blocks_for_def)
next
  case None
  have step: "bi_wf page (insert e R) (bi_insert b e)" if "bi_wf page R b" for e R b
    using that indexes_insert [of "\<lambda>e. Some (block_capacity e page 1)" R "bi_small b" e]
      indexes_insert [of "\<lambda>e. Some (block_capacity e page page)" R "bi_large b" e]
    by (simp add: bi_wf_def bi_insert_def)
  have "bi_wf page (R \<union> set es) (fold (\<lambda>e b. bi_insert b e) es b)" if "bi_wf page R b" for es R b
    using that
  proof (induction es arbitrary: R b)
    case (Cons e es)
    from Cons.IH [OF step [OF Cons.prems]] show ?case by simp
  qed simp
  from this [of "{}" "bi_new page" "map snd (ix_regions ix)"] None show ?thesis
    by (simp add: idx_blocks_for_def ix_extents_def bi_wf_def bi_new_def indexes_def)
qed

lemma bi_find_best:
  assumes b: "bi_wf page (set rs) b" and can: "canonical rs" and p: "1 < page"
  shows "bi_find b sz = map_option ext_start
    (best_region (block_fits page sz) (\<lambda>r. block_capacity r page sz) rs)"
proof -
  have cap: "block_capacity r page (if sz < page then 1 else page) = block_capacity r page sz"
    for r
    using p by (intro block_capacity_class) auto
  have "bi_find b sz = map_option snd (bset_first_from (sz, 0) (if sz < page then bi_small b else bi_large b))"
    using b by (simp add: bi_find_def bi_wf_def)
  also have "\<dots> = map_option ext_start (best_region (\<lambda>r. sz \<le> block_capacity r page (if sz < page then 1 else page))
      (\<lambda>r. block_capacity r page (if sz < page then 1 else page)) rs)"
    using b index_best [of "\<lambda>e. Some (block_capacity e page 1)" rs "bi_small b" sz, OF _ can]
      index_best [of "\<lambda>e. Some (block_capacity e page page)" rs "bi_large b" sz, OF _ can]
    by (simp add: bi_wf_def option.map_comp comp_def)
  also have "\<dots> = map_option ext_start
      (best_region (block_fits page sz) (\<lambda>r. block_capacity r page sz) rs)"
    by (simp add: cap block_fits_def [abs_def])
  finally show ?thesis .
qed

lemma idx_allocate_block_refines:
  assumes inv: "idx_inv page ix" and rq: "wf_request rq" "is_block rq" and p1: "1 < page"
  shows "\<exists>ix' r. idx_allocate_block ix rq page = Some (ix', r) \<and> idx_inv page ix'
     \<and> ix_alignment ix' = ix_alignment ix \<and> ix_restored ix' = ix_restored ix
     \<and> alloc_block (idx_list ix) rq page = Some (idx_list ix', r)"
proof -
  define b where "b = idx_blocks_for ix page"
  define ix0 where "ix0 = ix\<lparr>ix_blocks := Some b\<rparr>"
  have p: "0 < page" using p1 by simp
  have wf: "idx_wf page ix" using inv by (simp add: idx_inv_def)
  have b: "bi_wf page (set (ix_extents ix)) b"
    unfolding b_def by (rule idx_blocks_for_wf [OF wf])
  have same: "ix_extents ix0 = ix_extents ix" "idx_list ix0 = idx_list ix"
    "ix_regions ix0 = ix_regions ix" "ix_alignment ix0 = ix_alignment ix" "ix_restored ix0 = ix_restored ix"
    by (simp_all add: ix0_def ix_extents_def idx_list_def)
  have inv0: "idx_inv page ix0" "idx_wf page ix0"
    using inv b by (auto simp: idx_inv_def idx_wf_def ix0_def ix_extents_def)
  have can: "canonical (ix_extents ix)" using wf by (simp add: idx_wf_def)
  define best where "best = best_region (block_fits page (rq_size rq))
    (\<lambda>r. block_capacity r page (rq_size rq)) (ix_extents ix)"
  have find: "bi_find b (rq_size rq) = map_option ext_start best"
    unfolding best_def by (rule bi_find_best [OF b can p1])
  have unf: "idx_allocate_block ix rq page = (case bi_find b (rq_size rq) of
      None \<Rightarrow> Some (ix0, None)
    | Some start \<Rightarrow> (case bmap_get start (ix_regions ix0) of
        None \<Rightarrow> Some (ix0, None)
      | Some region \<Rightarrow> (case place_after rq (ext_start region) (Some page) of
          Inl _ \<Rightarrow> Some (ix0, None)
        | Inr placement \<Rightarrow> do {
            (self, _) \<leftarrow> idx_remove ix0 start;
            self \<leftarrow> idx_subtract (idx_edges self region (pl_extent placement))
              (ext_len (pl_extent placement));
            Some (self, Some (pl_extent placement)) })))"
    unfolding idx_allocate_block_def Let_def idx_edges_def b_def [symmetric] ix0_def [symmetric] ..
  show ?thesis
  proof (cases best)
    case None
    then have "\<forall>r \<in> set (fl_regions (idx_list ix)). \<not> block_fits page (rq_size rq) r"
      by (simp add: best_def best_region_None idx_regions_list)
    from alloc_block_None [OF idx_inv_list [OF inv] rq p this]
    show ?thesis using None find inv0 same by (simp add: unf)
  next
    case (Some s)
    note s = best_region_Some(1,2) [OF Some [unfolded best_def]]
    have ws: "wf_extent s" by (rule canonical_wf [OF can s(1)])
    have sz: "0 < rq_size rq" using rq(1) by (simp add: wf_request_def)
    note at = block_at_spec [OF ws p sz s(2)]
    obtain l' where l': "alloc_block (idx_list ix) rq page = Some (l', Some (block_at page (rq_size rq) s))"
      "handed_out (idx_list ix) (block_at page (rq_size rq) s) l'"
      using alloc_block_best [OF idx_inv_list [OF inv] rq p, of s] Some
      by (auto simp: best_def idx_regions_list)
    obtain ix1 ix' where c: "idx_remove ix0 (ext_start s) = Some (ix1, s)"
      "idx_subtract (idx_edges ix1 s (block_at page (rq_size rq) s))
         (ext_len (block_at page (rq_size rq) s)) = Some ix'" "idx_inv page ix'"
      "ix_alignment ix' = ix_alignment ix0" "ix_restored ix' = ix_restored ix0"
      "handed_out (idx_list ix0) (block_at page (rq_size rq) s) (idx_list ix')"
      using idx_carve [OF inv0(1) _ at(1,2)] s(1) same by auto
    have "bmap_get (ext_start s) (ix_regions ix0) = Some s"
      using s(1) wf idx_wf_starts(2) [OF wf] by (simp add: bmap_get_Some same idx_wf_def)
    then have "idx_allocate_block ix rq page = Some (ix', Some (block_at page (rq_size rq) s))"
      using Some find c(1,2) place_block_after [OF rq p ws s(2)] by (simp add: unf)
    then show ?thesis using c l'(1) handed_out_unique [OF l'(2) c(6) [unfolded same]] same by auto
  qed
qed

section \<open>Freeing through the index\<close>

lemma canonical_rest_disjoint:
  assumes can: "canonical rs" and r: "r \<in> set rs" "e \<in> set rs - {r}"
  shows "ext_bytes e \<inter> ext_bytes r = {}"
proof -
  have "ext_start e \<noteq> ext_start r" using canonical_starts_distinct [OF can _ r(1)] r(2) by blast
  then consider "ext_end e < ext_start r" | "ext_end r < ext_start e"
    using canonical_in_order [OF can _ r(1)] canonical_in_order [OF can r(1)] r(2) by fastforce
  then show ?thesis by cases (auto simp: ext_bytes_def)
qed

text \<open>After the previous-neighbour check nothing that starts below \<open>s\<close> reaches the merged start.\<close>

lemma absorb_previous_cases:
  assumes wf: "idx_wf page ix"
  obtains (overlap) r where "r \<in> set (ix_extents ix)" "ext_start r < s" "s < ext_end r"
      "idx_absorb_previous ix s = None"
  | (ok) ix1 s1 where "idx_absorb_previous ix s = Some (ix1, s1)" "idx_wf page ix1" "s1 \<le> s"
      "region_bytes (ix_extents ix) = region_bytes (ix_extents ix1) \<union> {s1..<s}"
      "region_bytes (ix_extents ix1) \<inter> {s1..<s} = {}"
      "\<And>r. r \<in> set (ix_extents ix1) \<Longrightarrow> r \<in> set (ix_extents ix)"
      "\<And>r. r \<in> set (ix_extents ix1) \<Longrightarrow> ext_start r < s \<Longrightarrow> ext_end r < s1"
      "ix_total ix1 = ix_total ix" "ix_alignment ix1 = ix_alignment ix" "ix_restored ix1 = ix_restored ix"
proof -
  have srt: "bmap_sorted (ix_regions ix)" and can: "canonical (ix_extents ix)"
    using wf by (simp_all add: idx_wf_def)
  note mem = idx_wf_starts(2) [OF wf]
  from srt show thesis
  proof (cases "ix_regions ix" rule: bmap_last_before_cases [where k = s])
    case None
    have "\<forall>r \<in> set (ix_extents ix). \<not> ext_start r < s"
      using None(2) mem by (simp add: not_less not_le)
    then show thesis
      using None(1) wf by (intro ok [of ix s]) (auto simp: idx_absorb_previous_def)
  next
    case (Some k r)
    have r: "r \<in> set (ix_extents ix)" "k = ext_start r" using Some(2) mem by auto
    have before: "ext_end x < ext_start r" if "x \<in> set (ix_extents ix)" "x \<noteq> r" "ext_start x < s" for x
    proof -
      have "ext_start x \<le> ext_start r" using Some(4) [of "ext_start x" x] mem that r(2) by auto
      moreover have "ext_start x \<noteq> ext_start r" using canonical_starts_distinct [OF can that(1) r(1)] that(2) by blast
      ultimately show ?thesis using canonical_in_order [OF can that(1) r(1)] by simp
    qed
    show thesis
    proof (cases "s < ext_end r")
      case True
      then show thesis
        using r Some(1,3) by (intro overlap [of r]) (simp_all add: idx_absorb_previous_def assert_that_def)
    next
      case le: False
      show thesis
      proof (cases "ext_end r = s")
        case True
        obtain ix1 where ix1: "idx_remove ix (ext_start r) = Some (ix1, r)" "idx_wf page ix1"
          "set (ix_extents ix1) = set (ix_extents ix) - {r}" "ix_total ix1 = ix_total ix"
          "ix_alignment ix1 = ix_alignment ix" "ix_restored ix1 = ix_restored ix"
          using idx_remove_wf [OF wf r(1)] by blast
        have eb: "ext_bytes r = {ext_start r..<s}" by (simp add: ext_bytes_def True)
        have "region_bytes (ix_extents ix1) \<inter> ext_bytes r = {}"
          using canonical_rest_disjoint [OF can r(1)] ix1(3) by (auto simp: region_bytes_def)
        moreover have "region_bytes (ix_extents ix) = region_bytes (ix_extents ix1) \<union> ext_bytes r"
          using ix1(3) r(1) by (auto simp: region_bytes_def)
        moreover have "idx_absorb_previous ix s = Some (ix1, ext_start r)"
          using Some(1) True ix1(1) r(2) by (simp add: idx_absorb_previous_def assert_that_def)
        ultimately show thesis
          using ix1 before eb True by (intro ok [of ix1 "ext_start r"]) auto
      next
        case False
        then have lt: "ext_end r < s" using le by simp
        have "ext_end x < s" if "x \<in> set (ix_extents ix)" "ext_start x < s" for x
        proof (cases "x = r")
          case False
          then have "ext_end x < ext_start r" using before that by blast
          then show ?thesis using lt ext_start_le_end [of r] by linarith
        qed (simp add: lt)
        then show thesis
          using Some(1) lt wf by (intro ok [of ix s]) (auto simp: idx_absorb_previous_def assert_that_def)
      qed
    qed
  qed
qed

lemma absorb_next_cases:
  assumes wf: "idx_wf page ix"
  obtains (overlap) r where "r \<in> set (ix_extents ix)" "s \<le> ext_start r" "ext_start r < t"
      "idx_absorb_next ix s t = None"
  | (ok) ix1 t1 where "idx_absorb_next ix s t = Some (ix1, t1)" "idx_wf page ix1" "t \<le> t1"
      "t1 = t \<or> t1 \<le> u64_max"
      "region_bytes (ix_extents ix) = region_bytes (ix_extents ix1) \<union> {t..<t1}"
      "region_bytes (ix_extents ix1) \<inter> {t..<t1} = {}"
      "\<And>r. r \<in> set (ix_extents ix1) \<Longrightarrow> r \<in> set (ix_extents ix)"
      "\<And>r. r \<in> set (ix_extents ix1) \<Longrightarrow> s \<le> ext_start r \<Longrightarrow> t1 < ext_start r"
      "ix_total ix1 = ix_total ix" "ix_alignment ix1 = ix_alignment ix" "ix_restored ix1 = ix_restored ix"
proof -
  have srt: "bmap_sorted (ix_regions ix)" and can: "canonical (ix_extents ix)"
    using wf by (simp_all add: idx_wf_def)
  note mem = idx_wf_starts(2) [OF wf]
  from srt show thesis
  proof (cases "ix_regions ix" rule: bmap_first_from_cases [where k = s])
    case None
    have "\<forall>r \<in> set (ix_extents ix). \<not> s \<le> ext_start r"
      using None(2) mem by (simp add: not_less not_le)
    then show thesis
      using None(1) wf by (intro ok [of ix t]) (auto simp: idx_absorb_next_def)
  next
    case (Some k r)
    have r: "r \<in> set (ix_extents ix)" "k = ext_start r" using Some(2) mem by auto
    have after: "ext_end r < ext_start x" if "x \<in> set (ix_extents ix)" "x \<noteq> r" "s \<le> ext_start x" for x
    proof -
      have "ext_start r \<le> ext_start x" using Some(4) [of "ext_start x" x] mem that r(2) by auto
      moreover have "ext_start x \<noteq> ext_start r" using canonical_starts_distinct [OF can that(1) r(1)] that(2) by blast
      ultimately show ?thesis using canonical_in_order [OF can r(1) that(1)] by simp
    qed
    show thesis
    proof (cases "ext_start r < t")
      case True
      then show thesis
        using r Some(1,3) by (intro overlap [of r]) (simp_all add: idx_absorb_next_def assert_that_def)
    next
      case le: False
      show thesis
      proof (cases "ext_start r = t")
        case True
        obtain ix1 where ix1: "idx_remove ix (ext_start r) = Some (ix1, r)" "idx_wf page ix1"
          "set (ix_extents ix1) = set (ix_extents ix) - {r}" "ix_total ix1 = ix_total ix"
          "ix_alignment ix1 = ix_alignment ix" "ix_restored ix1 = ix_restored ix"
          using idx_remove_wf [OF wf r(1)] by blast
        have eb: "ext_bytes r = {t..<ext_end r}" by (simp add: ext_bytes_def True)
        have "region_bytes (ix_extents ix1) \<inter> ext_bytes r = {}"
          using canonical_rest_disjoint [OF can r(1)] ix1(3) by (auto simp: region_bytes_def)
        moreover have "region_bytes (ix_extents ix) = region_bytes (ix_extents ix1) \<union> ext_bytes r"
          using ix1(3) r(1) by (auto simp: region_bytes_def)
        moreover have "idx_absorb_next ix s t = Some (ix1, ext_end r)"
          using Some(1) True ix1(1) r(2) by (simp add: idx_absorb_next_def assert_that_def)
        moreover have "ext_end r \<le> u64_max" by (rule wf_extentD(3) [OF canonical_wf [OF can r(1)]])
        moreover have "t \<le> ext_end r" using True ext_start_le_end [of r] by simp
        ultimately show thesis
          using ix1 after eb by (intro ok [of ix1 "ext_end r"]) auto
      next
        case False
        then have lt: "t < ext_start r" using le by simp
        have "t < ext_start x" if "x \<in> set (ix_extents ix)" "s \<le> ext_start x" for x
        proof (cases "x = r")
          case False
          then have "ext_end r < ext_start x" using after that by blast
          then show ?thesis using lt ext_start_le_end [of r] by linarith
        qed (simp add: lt)
        then show thesis
          using Some(1) lt wf by (intro ok [of ix t]) (auto simp: idx_absorb_next_def assert_that_def)
      qed
    qed
  qed
qed

lemma idx_free_refines:
  assumes inv: "idx_inv page ix" and e: "wf_extent e"
    and disj: "ext_bytes e \<inter> fl_bytes (idx_list ix) = {}"
  shows "\<exists>ix'. idx_free ix e = Some ix' \<and> idx_inv page ix'
     \<and> ix_alignment ix' = ix_alignment ix \<and> ix_restored ix' = ix_restored ix
     \<and> fl_free dbg (idx_list ix) e = Some (idx_list ix')"
proof -
  note we = wf_extentD [OF e]
  have wf: "idx_wf page ix" using inv by (simp add: idx_inv_def)
  have can: "canonical (ix_extents ix)" using wf by (simp add: idx_wf_def)
  have dj: "x \<notin> region_bytes (ix_extents ix)" if "ext_start e \<le> x" "x < ext_end e" for x
    using disj that by (auto simp: idx_list_bytes ext_bytes_def)
  have in_bytes: "x \<in> region_bytes (ix_extents ix)"
    if "r \<in> set (ix_extents ix)" "ext_start r \<le> x" "x < ext_end r" for r x
    using that by (auto simp: region_bytes_def ext_bytes_def)
  from wf obtain ix1 s1 where p: "idx_absorb_previous ix (ext_start e) = Some (ix1, s1)" "idx_wf page ix1"
    "s1 \<le> ext_start e" "region_bytes (ix_extents ix) = region_bytes (ix_extents ix1) \<union> {s1..<ext_start e}"
    "region_bytes (ix_extents ix1) \<inter> {s1..<ext_start e} = {}"
    "\<And>r. r \<in> set (ix_extents ix1) \<Longrightarrow> r \<in> set (ix_extents ix)"
    "\<And>r. r \<in> set (ix_extents ix1) \<Longrightarrow> ext_start r < ext_start e \<Longrightarrow> ext_end r < s1"
    "ix_total ix1 = ix_total ix" "ix_alignment ix1 = ix_alignment ix" "ix_restored ix1 = ix_restored ix"
  proof (cases rule: absorb_previous_cases [where s = "ext_start e"])
    case (overlap r)
    then have "ext_start e \<in> region_bytes (ix_extents ix)" by (intro in_bytes [of r]) auto
    with dj [of "ext_start e"] we(2) show thesis by blast
  next
    case (ok ix1 s1)
    show thesis by (rule that [OF ok])
  qed
  have above: "ext_start e \<le> ext_start r" if "r \<in> set (ix_extents ix1)" "s1 \<le> ext_start r" for r
    using p(7) [OF that(1)] that(2) ext_start_le_end [of r] by linarith
  from p(2) obtain ix2 t1 where n: "idx_absorb_next ix1 s1 (ext_end e) = Some (ix2, t1)" "idx_wf page ix2"
    "ext_end e \<le> t1" "t1 = ext_end e \<or> t1 \<le> u64_max"
    "region_bytes (ix_extents ix1) = region_bytes (ix_extents ix2) \<union> {ext_end e..<t1}"
    "region_bytes (ix_extents ix2) \<inter> {ext_end e..<t1} = {}"
    "\<And>r. r \<in> set (ix_extents ix2) \<Longrightarrow> r \<in> set (ix_extents ix1)"
    "\<And>r. r \<in> set (ix_extents ix2) \<Longrightarrow> s1 \<le> ext_start r \<Longrightarrow> t1 < ext_start r"
    "ix_total ix2 = ix_total ix1" "ix_alignment ix2 = ix_alignment ix1" "ix_restored ix2 = ix_restored ix1"
  proof (cases rule: absorb_next_cases [where s = s1 and t = "ext_end e"])
    case (overlap r)
    have "ext_start r < ext_end r" using wf_extentD(2) [OF canonical_wf [OF can]] p(6) overlap(1) by blast
    then have "ext_start r \<in> region_bytes (ix_extents ix)" using p(6) overlap(1) by (intro in_bytes [of r]) auto
    with dj [of "ext_start r"] above [OF overlap(1,2)] overlap(3) show thesis by blast
  next
    case (ok ix2 t1)
    show thesis by (rule that [OF ok])
  qed
  define m where "m = \<lparr>ext_start = s1, ext_len = t1 - s1\<rparr>"
  have st: "s1 < t1" "t1 \<le> u64_max" using p(3) n(3,4) we by linarith+
  have m: "wf_extent m" "ext_between s1 t1 = Some m" "ext_start m = s1" "ext_end m = t1"
    using st by (simp_all add: m_def)
  have gap: "ext_end r < ext_start m \<or> ext_end m < ext_start r" if r: "r \<in> set (ix_extents ix2)" for r
  proof (cases "s1 \<le> ext_start r")
    case True
    then show ?thesis using n(8) [OF r] m by simp
  next
    case False
    then show ?thesis using p(7) [OF n(7) [OF r]] p(3) m by simp
  qed
  note ins = idx_insert_wf [OF n(2) m(1) gap]
  define ix' where "ix' = (idx_insert ix2 m)\<lparr>ix_total := region_total (ix_extents (idx_insert ix2 m))\<rparr>"
  have ext': "ix_extents ix' = ix_extents (idx_insert ix2 m)" by (simp add: ix'_def ix_extents_def)
  have wf': "idx_wf page ix'"
    using ins(1) unfolding idx_wf_def by (simp add: ix'_def ix_extents_def)
  then have inv': "idx_inv page ix'" by (simp add: idx_inv_def ix'_def ix_extents_def)
  have bytes': "region_bytes (ix_extents ix') = region_bytes (ix_extents ix) \<union> ext_bytes e"
  proof -
    have "region_bytes (ix_extents ix') = region_bytes (ix_extents ix2) \<union> {s1..<t1}"
      using ins(2) m unfolding ext' by (auto simp: region_bytes_def ext_bytes_def)
    moreover have "{s1..<t1} = {s1..<ext_start e} \<union> ext_bytes e \<union> {ext_end e..<t1}"
      using p(3) n(3) we(2) by (auto simp: ext_bytes_def)
    ultimately show ?thesis using p(4) n(5) by auto
  qed
  have can': "canonical (ix_extents ix')" using wf' by (simp add: idx_wf_def)
  have "region_total (ix_extents ix') = ix_total ix + ext_len e"
  proof -
    have "card (region_bytes (ix_extents ix) \<union> ext_bytes e) = card (region_bytes (ix_extents ix)) + ext_len e"
      using disj by (subst card_Un_disjoint) (auto simp: idx_list_bytes)
    then show ?thesis
      using canonical_card [OF can'] canonical_card [OF can] bytes' inv by (simp add: idx_inv_def)
  qed
  moreover have "region_total (ix_extents ix') \<le> u64_max" by (rule canonical_total_le [OF can'])
  ultimately have "checked_add (ix_total ix2) (ext_len e) = Some (region_total (ix_extents ix'))"
    using p(8) n(9) by simp
  then have "idx_free ix e = Some ((idx_insert ix2 m)\<lparr>ix_total := region_total (ix_extents ix')\<rparr>)"
    by (simp only: idx_free_def p(1) n(1) m(2) bind.bind_lunit prod.case)
  then have "idx_free ix e = Some ix'" unfolding ext' ix'_def [symmetric] .
  moreover obtain l' where l': "fl_free dbg (idx_list ix) e = Some l'" "fl_inv l'"
    "fl_bytes l' = fl_bytes (idx_list ix) \<union> ext_bytes e"
    using fl_free_spec [OF idx_inv_list [OF inv] e, of dbg] disj by blast
  moreover have "l' = idx_list ix'"
    using l'(2,3) idx_inv_list [OF inv'] bytes' by (intro fl_inv_eqI) (simp_all add: idx_list_bytes)
  moreover have "ix_alignment ix' = ix_alignment ix" "ix_restored ix' = ix_restored ix"
    using ins(4,5) n(10,11) p(9,10) by (simp_all add: ix'_def)
  ultimately show ?thesis using inv' by blast
qed

lemma idx_free_panics:
  assumes inv: "idx_inv page ix" and e: "wf_extent e"
    and overlap: "ext_bytes e \<inter> fl_bytes (idx_list ix) \<noteq> {}"
  shows "idx_free ix e = None"
proof -
  have wf: "idx_wf page ix" using inv by (simp add: idx_inv_def)
  obtain r x where r: "r \<in> set (ix_extents ix)" "x \<in> ext_bytes r" "x \<in> ext_bytes e"
    using overlap by (auto simp: idx_list_bytes region_bytes_def)
  from wf show ?thesis
  proof (cases rule: absorb_previous_cases [where s = "ext_start e"])
    case overlap
    then show ?thesis by (simp add: idx_free_def)
  next
    case p: (ok ix1 s1)
    have "x \<notin> {s1..<ext_start e}" using r(3) by (auto simp: ext_bytes_def)
    then have "x \<in> region_bytes (ix_extents ix1)"
      using p(4) r ext_bytes_subset_region [OF r(1)] by blast
    then obtain q where q: "q \<in> set (ix_extents ix1)" "x \<in> ext_bytes q" by (auto simp: region_bytes_def)
    have le: "ext_start e \<le> ext_start q"
      using p(3) p(7) [OF q(1)] q(2) r(3) by (fastforce simp: ext_bytes_def)
    from p(2) show ?thesis
    proof (cases rule: absorb_next_cases [where s = s1 and t = "ext_end e"])
      case overlap
      then show ?thesis using p(1) by (simp add: idx_free_def)
    next
      case n: (ok ix2 t1)
      have "x \<notin> {ext_end e..<t1}" using r(3) by (auto simp: ext_bytes_def)
      then have "x \<in> region_bytes (ix_extents ix2)"
        using n(5) q ext_bytes_subset_region [OF q(1)] by blast
      then obtain z where z: "z \<in> set (ix_extents ix2)" "x \<in> ext_bytes z" by (auto simp: region_bytes_def)
      have "ext_start e \<le> ext_start z"
        using p(3) p(7) [OF n(7) [OF z(1)]] z(2) r(3) by (fastforce simp: ext_bytes_def)
      then have "t1 < ext_start z" using n(8) [OF z(1)] p(3) by simp
      then show ?thesis using n(3) z(2) r(3) by (auto simp: ext_bytes_def)
    qed
  qed
qed

section \<open>Building and restoring the index\<close>

lemma idx_new_inv:
  assumes inv: "fl_inv l" and al: "\<And>a. alignment = Some a \<Longrightarrow> 0 < a"
  shows "idx_inv page (idx_new l alignment)" "idx_list (idx_new l alignment) = l"
    "ix_alignment (idx_new l alignment) = alignment" "\<not> ix_restored (idx_new l alignment)"
proof -
  let ?step = "\<lambda>e self. idx_insert self e"
  define ix0 where "ix0 = \<lparr>ix_owner = fl_new, ix_regions = [], ix_sizes = [], ix_interiors = [],
    ix_alignment = alignment, ix_blocks = None, ix_total = fl_total l, ix_restored = False\<rparr>"
  have wf0: "idx_wf page ix0" "ix_extents ix0 = []"
    using al by (simp_all add: ix0_def idx_wf_def ix_extents_def indexes_def)
  have "idx_wf page (fold ?step es ix) \<and> set (ix_extents (fold ?step es ix)) = set (ix_extents ix) \<union> set es
      \<and> ix_total (fold ?step es ix) = ix_total ix \<and> ix_alignment (fold ?step es ix) = ix_alignment ix
      \<and> ix_restored (fold ?step es ix) = ix_restored ix"
    if "idx_wf page ix" "canonical es"
      "\<And>x e. x \<in> set (ix_extents ix) \<Longrightarrow> e \<in> set es \<Longrightarrow> ext_end x < ext_start e" for es ix
    using that
  proof (induction es arbitrary: ix)
    case (Cons e es)
    have e: "wf_extent e" "canonical es" "\<forall>x \<in> set es. ext_end e < ext_start x" using Cons.prems(2) by auto
    have "ext_end r < ext_start e \<or> ext_end e < ext_start r" if "r \<in> set (ix_extents ix)" for r
      using Cons.prems(3) [OF that] by simp
    note ins = idx_insert_wf [OF Cons.prems(1) e(1) this]
    have "ext_end x < ext_start y" if "x \<in> set (ix_extents (idx_insert ix e))" "y \<in> set es" for x y
      using that ins(2) Cons.prems(3) e(3) by auto
    from Cons.IH [OF ins(1) e(2) this] show ?case using ins by auto
  qed simp
  from this [OF wf0(1), of "fl_regions l"] inv wf0(2)
  have "idx_wf page (fold ?step (fl_regions l) ix0)
      \<and> set (ix_extents (fold ?step (fl_regions l) ix0)) = set (fl_regions l)
      \<and> ix_total (fold ?step (fl_regions l) ix0) = ix_total ix0
      \<and> ix_alignment (fold ?step (fl_regions l) ix0) = ix_alignment ix0
      \<and> ix_restored (fold ?step (fl_regions l) ix0) = ix_restored ix0"
    by (simp add: fl_inv_def)
  moreover have "idx_new l alignment = fold ?step (fl_regions l) ix0"
    by (simp add: idx_new_def ix0_def)
  moreover have "ix_total ix0 = fl_total l" "ix_alignment ix0 = alignment" "\<not> ix_restored ix0"
    by (simp_all add: ix0_def)
  ultimately have f: "idx_wf page (idx_new l alignment)" "set (ix_extents (idx_new l alignment)) = set (fl_regions l)"
    "ix_total (idx_new l alignment) = fl_total l" "ix_alignment (idx_new l alignment) = alignment"
    "\<not> ix_restored (idx_new l alignment)"
    by simp_all
  have can: "canonical (ix_extents (idx_new l alignment))" using f(1) by (simp add: idx_wf_def)
  have "ix_extents (idx_new l alignment) = fl_regions l"
    using canonical_unique [OF can] inv region_bytes_set_eq [OF f(2)] by (simp add: fl_inv_def)
  then show "idx_inv page (idx_new l alignment)" "idx_list (idx_new l alignment) = l"
    using f inv by (simp_all add: idx_inv_def idx_list_def fl_inv_def)
  show "ix_alignment (idx_new l alignment) = alignment" "\<not> ix_restored (idx_new l alignment)"
    using f by blast+
qed

lemma idx_restore_owner: "\<not> ix_restored ix \<Longrightarrow> ix_owner (idx_restore ix) = idx_list ix"
  by (simp add: idx_restore_def idx_list_def ix_extents_def)

lemma idx_restore_idem: "idx_restore (idx_restore ix) = idx_restore ix"
  by (simp add: idx_restore_def)

lemma idx_merges_refines:
  assumes inv: "idx_inv page ix"
  shows "idx_merges ix e = fl_adjoins (idx_list ix) e"
proof -
  have wf: "idx_wf page ix" using inv by (simp add: idx_inv_def)
  have srt: "bmap_sorted (ix_regions ix)" and can: "canonical (ix_extents ix)"
    using wf by (simp_all add: idx_wf_def)
  note mem = idx_wf_starts(2) [OF wf]
  have pos: "ext_start r < ext_end r" if "r \<in> set (ix_extents ix)" for r
    by (rule wf_extentD(2) [OF canonical_wf [OF can that]])
  have prev: "(case bmap_last_before (ext_start e) (ix_regions ix) of
      None \<Rightarrow> False | Some (_, previous) \<Rightarrow> ext_end previous = ext_start e)
    \<longleftrightarrow> (\<exists>r \<in> set (ix_extents ix). ext_end r = ext_start e)"
    using srt
  proof (cases "ix_regions ix" rule: bmap_last_before_cases [where k = "ext_start e"])
    case None
    have "\<forall>r \<in> set (ix_extents ix). ext_start e \<le> ext_start r" using None(2) mem by simp
    then show ?thesis using None(1) pos by fastforce
  next
    case (Some k r)
    have r: "r \<in> set (ix_extents ix)" "k = ext_start r" using Some(2) mem by auto
    have "ext_end r = ext_start e" if x: "x \<in> set (ix_extents ix)" "ext_end x = ext_start e" for x
    proof -
      have le: "ext_start x \<le> ext_start r" using Some(4) [of "ext_start x" x] mem x pos [OF x(1)] r(2) by auto
      have "\<not> ext_start x < ext_start r"
        using canonical_in_order [OF can x(1) r(1)] x(2) Some(3) r(2) by linarith
      then have "x = r" using le canonical_starts_distinct [OF can x(1) r(1)] by simp
      then show ?thesis using x(2) by simp
    qed
    then show ?thesis using Some(1) r(1) by auto
  qed
  have "bmap_get (ext_end e) (ix_regions ix) \<noteq> None \<longleftrightarrow> (\<exists>r \<in> set (ix_extents ix). ext_start r = ext_end e)"
    unfolding bmap_get_None using mem by force
  then show ?thesis
    unfolding idx_merges_def prev fl_adjoins_def list_ex_iff idx_regions_list by blast
qed

end
