(* ===== verification/Allocators.thy ===== *)
theory Allocators
  imports Indexed
begin

text \<open>
  The contracts shared by the allocators of the space crate, as locales.

  \<^item> \<open>allocator\<close>: an operation that hands out extents of a set of free bytes. A sequence of
    requests hands out pairwise disjoint extents, whatever the policy.
  \<^item> \<open>reclaimer\<close>: an allocator that takes extents back. Allocation followed by return restores the
    free bytes.
  \<^item> \<open>partial_simulation\<close>: a detailed implementation whose every step that does not panic is a step
    of an abstract one.
  \<^item> \<open>simulation\<close>: a partial simulation that panics only where the abstract side panics.

  They are interpreted on the free list, on PAGE block allocation, on the indexed free list, and
  on the pair of the two. The indexed list asserts in every build that a returned extent is not
  free already; the plain list asserts it in debug builds only and absorbs the extent otherwise.
  The pair is therefore a simulation for the debug build of the plain list and a partial
  simulation for its release build.
\<close>

text \<open>Running a list of operations, collecting their results; a panic ends the run.\<close>

fun run_steps :: "('s \<Rightarrow> 'o \<Rightarrow> ('s \<times> 'r) option) \<Rightarrow> 's \<Rightarrow> 'o list \<Rightarrow> ('s \<times> 'r list) option" where
  "run_steps step s [] = Some (s, [])"
| "run_steps step s (q # qs) = do {
     (s', r) \<leftarrow> step s q;
     (s'', rs) \<leftarrow> run_steps step s' qs;
     Some (s'', r # rs) }"

definition granted :: "extent option list \<Rightarrow> extent list" where
  "granted rs = List.map_filter id rs"

lemma granted_simps [simp]:
  "granted [] = []" "granted (None # rs) = granted rs" "granted (Some e # rs) = e # granted rs"
  by (simp_all add: granted_def map_filter_simps)

locale allocator =
  fixes inv :: "'s \<Rightarrow> bool"
    and bytes :: "'s \<Rightarrow> nat set"
    and admits :: "'q \<Rightarrow> bool"
    and alloc :: "'s \<Rightarrow> 'q \<Rightarrow> ('s \<times> extent option) option"
  assumes alloc_returns: "inv s \<Longrightarrow> admits q \<Longrightarrow> \<exists>s' r. alloc s q = Some (s', r)"
    and alloc_inv: "inv s \<Longrightarrow> admits q \<Longrightarrow> alloc s q = Some (s', r) \<Longrightarrow> inv s'"
    and alloc_none: "inv s \<Longrightarrow> admits q \<Longrightarrow> alloc s q = Some (s', None) \<Longrightarrow> bytes s' = bytes s"
    and alloc_some: "inv s \<Longrightarrow> admits q \<Longrightarrow> alloc s q = Some (s', Some a) \<Longrightarrow>
      wf_extent a \<and> ext_bytes a \<subseteq> bytes s \<and> bytes s' = bytes s - ext_bytes a"
begin

lemma run_disjoint:
  assumes "inv s" "\<forall>q \<in> set qs. admits q"
  shows "\<exists>s' rs. run_steps alloc s qs = Some (s', rs) \<and> inv s'
     \<and> disjoint_all (map ext_bytes (granted rs))
     \<and> region_bytes (granted rs) \<subseteq> bytes s \<and> bytes s' = bytes s - region_bytes (granted rs)"
  using assms
proof (induction qs arbitrary: s)
  case Nil
  then show ?case by simp
next
  case (Cons q qs)
  obtain s1 r where r: "alloc s q = Some (s1, r)"
    using alloc_returns [OF Cons.prems(1), of q] Cons.prems(2) by auto
  have inv1: "inv s1" using alloc_inv [OF Cons.prems(1) _ r] Cons.prems(2) by simp
  obtain s' rs where ih: "run_steps alloc s1 qs = Some (s', rs)" "inv s'"
    "disjoint_all (map ext_bytes (granted rs))" "region_bytes (granted rs) \<subseteq> bytes s1"
    "bytes s' = bytes s1 - region_bytes (granted rs)"
    using Cons.IH [OF inv1] Cons.prems(2) by auto
  show ?case
  proof (cases r)
    case None
    then show ?thesis using r ih alloc_none [OF Cons.prems(1), of q s1] Cons.prems(2) by auto
  next
    case (Some a)
    have a: "wf_extent a" "ext_bytes a \<subseteq> bytes s" "bytes s1 = bytes s - ext_bytes a"
      using alloc_some [OF Cons.prems(1), of q s1 a] r Some Cons.prems(2) by auto
    have "ext_bytes a \<inter> \<Union>(set (map ext_bytes (granted rs))) = {}"
      using a(3) ih(4) by (auto simp: region_bytes_def)
    then show ?thesis using r ih a Some by auto
  qed
qed

end

locale reclaimer = allocator +
  fixes give_back :: "'s \<Rightarrow> extent \<Rightarrow> 's option"
  assumes give_back_ok: "inv s \<Longrightarrow> wf_extent e \<Longrightarrow> ext_bytes e \<inter> bytes s = {} \<Longrightarrow>
      \<exists>s'. give_back s e = Some s' \<and> inv s' \<and> bytes s' = bytes s \<union> ext_bytes e"
    and determined: "inv s \<Longrightarrow> inv t \<Longrightarrow> bytes s = bytes t \<Longrightarrow> s = t"
begin

lemma give_back_undoes:
  assumes "inv s" "admits q" "alloc s q = Some (s', Some a)"
  shows "give_back s' a = Some s"
proof -
  have a: "wf_extent a" "ext_bytes a \<subseteq> bytes s" "bytes s' = bytes s - ext_bytes a" "inv s'"
    using alloc_some [OF assms] alloc_inv [OF assms] by auto
  then obtain t where t: "give_back s' a = Some t" "inv t" "bytes t = bytes s' \<union> ext_bytes a"
    using give_back_ok [of s' a] by blast
  moreover have "bytes s' \<union> ext_bytes a = bytes s" using a by auto
  ultimately show ?thesis using determined [OF t(2) assms(1)] by simp
qed

end

lemma run_steps_append:
  "run_steps step s (ps @ qs) = do {
     (s', rs) \<leftarrow> run_steps step s ps;
     (s'', rs') \<leftarrow> run_steps step s' qs;
     Some (s'', rs @ rs') }"
  by (induction ps arbitrary: s) (auto simp: bind_eq_None_conv split: option.splits bind_splits)

lemma run_steps_panics:
  "run_steps step s qs = None \<longleftrightarrow>
     (\<exists>before q after s' rs. qs = before @ q # after
        \<and> run_steps step s before = Some (s', rs) \<and> step s' q = None)"
proof
  assume "run_steps step s qs = None"
  then show "\<exists>before q after s' rs. qs = before @ q # after
      \<and> run_steps step s before = Some (s', rs) \<and> step s' q = None"
  proof (induction qs arbitrary: s)
    case (Cons q qs)
    show ?case
    proof (cases "step s q")
      case None
      then have "run_steps step s [] = Some (s, [])" "q # qs = [] @ q # qs" "step s q = None" by simp_all
      then show ?thesis by blast
    next
      case (Some p)
      obtain s1 r where p: "p = (s1, r)" by fastforce
      have "run_steps step s1 qs = None"
        using Cons.prems Some p by (cases "run_steps step s1 qs") auto
      then obtain before q' after s' rs where "qs = before @ q' # after"
        "run_steps step s1 before = Some (s', rs)" "step s' q' = None"
        using Cons.IH by blast
      then have "q # qs = (q # before) @ q' # after" "run_steps step s (q # before) = Some (s', r # rs)"
        "step s' q' = None"
        using Some p by simp_all
      then show ?thesis by blast
    qed
  qed simp
qed (auto simp: run_steps_append)

locale partial_simulation =
  fixes inv :: "'c \<Rightarrow> bool"
    and abs :: "'c \<Rightarrow> 'a"
    and legal :: "'o \<Rightarrow> bool"
    and cstep :: "'c \<Rightarrow> 'o \<Rightarrow> ('c \<times> 'r) option"
    and astep :: "'a \<Rightarrow> 'o \<Rightarrow> ('a \<times> 'r) option"
  assumes sim_step: "inv c \<Longrightarrow> legal q \<Longrightarrow> cstep c q = Some (c', r) \<Longrightarrow>
      inv c' \<and> astep (abs c) q = Some (abs c', r)"
begin

lemma sim_run:
  assumes "inv c" "\<forall>q \<in> set qs. legal q" "run_steps cstep c qs = Some (c', rs)"
  shows "inv c' \<and> run_steps astep (abs c) qs = Some (abs c', rs)"
  using assms
proof (induction qs arbitrary: c rs)
  case (Cons q qs)
  obtain c1 r rs1 where c1: "cstep c q = Some (c1, r)" "run_steps cstep c1 qs = Some (c', rs1)" "rs = r # rs1"
    using Cons.prems(3) by (auto split: bind_splits)
  have "inv c1" "astep (abs c) q = Some (abs c1, r)"
    using sim_step [OF Cons.prems(1) _ c1(1)] Cons.prems(2) by simp_all
  then show ?case using Cons.IH [OF _ _ c1(2)] Cons.prems(2) c1(3) by simp
qed simp

end

locale simulation = partial_simulation +
  assumes sim_panic: "inv c \<Longrightarrow> legal q \<Longrightarrow> cstep c q = None \<Longrightarrow> astep (abs c) q = None"
begin

lemma sim_run_panic:
  assumes "inv c" "\<forall>q \<in> set qs. legal q" "run_steps cstep c qs = None"
  shows "run_steps astep (abs c) qs = None"
proof -
  obtain before q after c' rs where q: "qs = before @ q # after"
    "run_steps cstep c before = Some (c', rs)" "cstep c' q = None"
    using assms(3) unfolding run_steps_panics by blast
  have "inv c'" "run_steps astep (abs c) before = Some (abs c', rs)"
    using sim_run [OF assms(1) _ q(2)] assms(2) q(1) by simp_all
  then show ?thesis
    using sim_panic [OF _ _ q(3)] assms(2) q(1) unfolding run_steps_panics by auto
qed

end

section \<open>The free list\<close>

lemma fl_alloc_contract:
  assumes "fl_inv l" "0 < len" "fl_alloc l len = Some (l', r)"
  shows "case r of None \<Rightarrow> l' = l | Some a \<Rightarrow> handed_out l a l'"
  using fl_alloc_None [OF assms(1), of len] fl_alloc_Some [OF assms(1,2)] assms(3)
  by (cases "fit_region l len") auto

lemma alloc_block_contract:
  assumes "fl_inv l" "wf_request rq \<and> is_block rq" "0 < page" "alloc_block l rq page = Some (l', r)"
  shows "case r of None \<Rightarrow> l' = l | Some a \<Rightarrow> handed_out l a l'"
proof (cases "\<exists>x \<in> set (fl_regions l). block_fits page (rq_size rq) x")
  case True
  then show ?thesis using alloc_block_Some [OF assms(1) _ _ assms(3)] assms(2,4) by fastforce
next
  case False
  then show ?thesis using alloc_block_None [OF assms(1) _ _ assms(3)] assms(2,4) by auto
qed

interpretation fl: reclaimer fl_inv fl_bytes "\<lambda>len. 0 < len" fl_alloc "fl_free dbg" for dbg
proof
  fix l l' :: free_list and len :: nat and r
  assume l: "fl_inv l" "0 < len"
  show "\<exists>s' r. fl_alloc l len = Some (s', r)"
    using fl_alloc_None [OF l(1), of len] fl_alloc_Some [OF l] by (cases "fit_region l len") auto
  show "fl_inv l'" if "fl_alloc l len = Some (l', r)"
    using fl_alloc_contract [OF l that] l(1) by (auto simp: handed_out_def split: option.splits)
  show "fl_bytes l' = fl_bytes l" if "fl_alloc l len = Some (l', None)"
    using fl_alloc_contract [OF l that] by simp
next
  fix l l' :: free_list and len :: nat and a
  assume "fl_inv l" "0 < len" "fl_alloc l len = Some (l', Some a)"
  from fl_alloc_contract [OF this]
  show "wf_extent a \<and> ext_bytes a \<subseteq> fl_bytes l \<and> fl_bytes l' = fl_bytes l - ext_bytes a"
    by (simp add: handed_out_def)
qed (auto intro: fl_free_spec fl_inv_eqI)

locale page_space =
  fixes page :: page_size
  assumes page_pos: "1 < page"
begin

lemma block_allocator:
  "allocator fl_inv fl_bytes (\<lambda>rq. wf_request rq \<and> is_block rq) (\<lambda>l rq. alloc_block l rq page)"
proof
  fix l l' :: free_list and rq r
  assume l: "fl_inv l" "wf_request rq \<and> is_block rq"
  have p: "0 < page" using page_pos by simp
  show "\<exists>s' r. alloc_block l rq page = Some (s', r)"
    using alloc_block_None [OF l(1) _ _ p] alloc_block_Some [OF l(1) _ _ p] l(2) by blast
  show "fl_inv l'" if "alloc_block l rq page = Some (l', r)"
    using alloc_block_contract [OF l p that] l(1) by (auto simp: handed_out_def split: option.splits)
  show "fl_bytes l' = fl_bytes l" if "alloc_block l rq page = Some (l', None)"
    using alloc_block_contract [OF l p that] by simp
next
  fix l l' :: free_list and rq a
  assume l: "fl_inv l" "wf_request rq \<and> is_block rq" "alloc_block l rq page = Some (l', Some a)"
  have p: "0 < page" using page_pos by simp
  from alloc_block_contract [OF l(1,2) p l(3)]
  show "wf_extent a \<and> ext_bytes a \<subseteq> fl_bytes l \<and> fl_bytes l' = fl_bytes l - ext_bytes a"
    by (simp add: handed_out_def)
qed

end

sublocale page_space \<subseteq> blocks: allocator fl_inv fl_bytes
  "\<lambda>rq. wf_request rq \<and> is_block rq" "\<lambda>l rq. alloc_block l rq page"
  by (rule block_allocator)

section \<open>The indexed free list\<close>

text \<open>
  The operations a reservation batch issues, on a plain and on an indexed list, in a build with or
  without debug assertions. The indexes fix the alignment of whole-unit requests when they are
  built, the plain list takes it with each request; a batch opened without an alignment has no
  whole units to grant.
\<close>

datatype list_op = Reserve byte_length | ReserveBlock reservation_request | ReserveUnits byte_length
  | Return extent

fun legal_op :: "byte_length option \<Rightarrow> list_op \<Rightarrow> bool" where
  "legal_op align (Reserve n) = (0 < n)"
| "legal_op align (ReserveBlock rq) = (wf_request rq \<and> is_block rq)"
| "legal_op align (ReserveUnits n) = (0 < n \<and> (case align of None \<Rightarrow> True | Some a \<Rightarrow> a dvd n))"
| "legal_op align (Return e) = wf_extent e"

fun fl_op :: "bool \<Rightarrow> page_size \<Rightarrow> byte_length option \<Rightarrow> free_list \<Rightarrow> list_op
    \<Rightarrow> (free_list \<times> extent option) option" where
  "fl_op dbg page align l (Reserve n) = fl_alloc l n"
| "fl_op dbg page align l (ReserveBlock rq) = alloc_block l rq page"
| "fl_op dbg page align l (ReserveUnits n) =
     (case align of None \<Rightarrow> Some (l, None) | Some a \<Rightarrow> alloc_whole_units dbg l n a)"
| "fl_op dbg page align l (Return e) = map_option (\<lambda>l'. (l', None)) (fl_free dbg l e)"

fun idx_op :: "bool \<Rightarrow> page_size \<Rightarrow> indexed_free_list \<Rightarrow> list_op
    \<Rightarrow> (indexed_free_list \<times> extent option) option" where
  "idx_op dbg page ix (Reserve n) = idx_allocate ix n"
| "idx_op dbg page ix (ReserveBlock rq) = idx_allocate_block ix rq page"
| "idx_op dbg page ix (ReserveUnits n) = idx_allocate_whole_units dbg ix n"
| "idx_op dbg page ix (Return e) = map_option (\<lambda>ix'. (ix', None)) (idx_free ix e)"

definition idx_open :: "page_size \<Rightarrow> byte_length option \<Rightarrow> indexed_free_list \<Rightarrow> bool" where
  "idx_open page align ix \<longleftrightarrow> idx_inv page ix \<and> ix_alignment ix = align \<and> \<not> ix_restored ix"

lemma idx_free_returns_iff:
  assumes "idx_inv page ix" "wf_extent e"
  shows "idx_free ix e = None \<longleftrightarrow> ext_bytes e \<inter> fl_bytes (idx_list ix) \<noteq> {}"
  using idx_free_refines [OF assms, of True] idx_free_panics [OF assms]
  by (cases "ext_bytes e \<inter> fl_bytes (idx_list ix) = {}") fastforce+

lemma alloc_whole_units_builds:
  assumes "align dvd n"
  shows "alloc_whole_units dbg l n align = alloc_whole_units dbg' l n align"
  using assms by (simp add: alloc_whole_units_def debug_assert_def dvd_eq_mod_eq_0)

lemma idx_op_step:
  assumes "idx_open page align ix" "legal_op align q" "1 < page" "idx_op dbg page ix q = Some (ix', r)"
  shows "idx_open page align ix' \<and> fl_op dbg' page align (idx_list ix) q = Some (idx_list ix', r)"
proof -
  have ix: "idx_inv page ix" "ix_alignment ix = align" "\<not> ix_restored ix"
    using assms(1) by (simp_all add: idx_open_def)
  show ?thesis
  proof (cases q)
    case (Reserve n)
    then show ?thesis
      using idx_allocate_refines [OF ix(1), of n] assms(2,4) ix by (auto simp: idx_open_def)
  next
    case (ReserveBlock rq)
    then show ?thesis
      using idx_allocate_block_refines [OF ix(1) _ _ assms(3), of rq] assms(2,4) ix
      by (auto simp: idx_open_def)
  next
    case (ReserveUnits n)
    show ?thesis
    proof (cases align)
      case None
      then show ?thesis
        using ReserveUnits assms(1,4) ix(2) by (auto simp: idx_allocate_whole_units_def)
    next
      case (Some a)
      then have n: "0 < n" "a dvd n" "ix_alignment ix = Some a"
        using ReserveUnits assms(2) ix(2) by simp_all
      show ?thesis
        using idx_allocate_whole_units_refines [OF ix(1) n(1,3,2), of dbg] ReserveUnits assms(4) ix Some
          alloc_whole_units_builds [OF n(2), of dbg "idx_list ix" dbg']
        by (auto simp: idx_open_def)
    qed
  next
    case (Return e)
    then have e: "wf_extent e" "ext_bytes e \<inter> fl_bytes (idx_list ix) = {}"
      using assms(2,4) idx_free_returns_iff [OF ix(1), of e] by auto
    show ?thesis
      using idx_free_refines [OF ix(1) e, of dbg'] Return assms(4) ix by (auto simp: idx_open_def)
  qed
qed

lemma idx_op_panics:
  assumes "idx_open page align ix" "legal_op align q" "1 < page"
  shows "idx_op dbg page ix q = None \<longleftrightarrow> (\<exists>e. q = Return e \<and> ext_bytes e \<inter> fl_bytes (idx_list ix) \<noteq> {})"
proof -
  have ix: "idx_inv page ix" "ix_alignment ix = align"
    using assms(1) by (simp_all add: idx_open_def)
  show ?thesis
  proof (cases q)
    case (Reserve n)
    then show ?thesis using idx_allocate_refines [OF ix(1), of n] assms(2) by auto
  next
    case (ReserveBlock rq)
    then show ?thesis
      using idx_allocate_block_refines [OF ix(1) _ _ assms(3), of rq] assms(2) by auto
  next
    case (ReserveUnits n)
    then show ?thesis
      using idx_allocate_whole_units_refines [OF ix(1), of n _ dbg] assms(2) ix(2)
      by (cases align) (auto simp: idx_allocate_whole_units_def)
  next
    case (Return e)
    then show ?thesis using idx_free_returns_iff [OF ix(1), of e] assms(2) by simp
  qed
qed

context page_space
begin

lemma idx_partial_simulation:
  "partial_simulation (idx_open page align) idx_list (legal_op align) (idx_op dbg page) (fl_op dbg' page align)"
  by unfold_locales (rule idx_op_step [OF _ _ page_pos])

lemma idx_simulation:
  "simulation (idx_open page align) idx_list (legal_op align) (idx_op dbg page) (fl_op True page align)"
proof -
  have "fl_op True page align (idx_list ix) q = None"
    if ix: "idx_open page align ix" and q: "legal_op align q" and n: "idx_op dbg page ix q = None" for ix q
  proof -
    obtain e where "q = Return e" "ext_bytes e \<inter> fl_bytes (idx_list ix) \<noteq> {}"
      using idx_op_panics [OF ix q page_pos] n by blast
    then show ?thesis
      using fl_free_panics [OF idx_inv_list, of page ix e] ix q by (simp add: idx_open_def)
  qed
  then show ?thesis
    by (intro simulation.intro idx_partial_simulation simulation_axioms.intro)
qed

end

sublocale page_space \<subseteq> indexed_any: partial_simulation "idx_open page align" idx_list "legal_op align"
  "idx_op dbg page" "fl_op dbg' page align" for align dbg dbg'
  by (rule idx_partial_simulation)

sublocale page_space \<subseteq> indexed: simulation "idx_open page align" idx_list "legal_op align"
  "idx_op dbg page" "fl_op True page align" for align dbg
  by (rule idx_simulation)

context page_space
begin

lemma idx_run:
  assumes "idx_open page align ix" "\<forall>q \<in> set ops. legal_op align q"
    "run_steps (idx_op dbg page) ix ops = Some (ix', rs)"
  shows "idx_open page align ix' \<and> run_steps (fl_op dbg' page align) (idx_list ix) ops = Some (idx_list ix', rs)"
  by (rule indexed_any.sim_run [OF assms])

lemma idx_run_panic:
  assumes ix: "idx_open page align ix" and legal: "\<forall>q \<in> set ops. legal_op align q"
  shows "run_steps (idx_op dbg page) ix ops = None \<Longrightarrow> run_steps (fl_op True page align) (idx_list ix) ops = None"
    and "run_steps (idx_op dbg page) ix ops = None \<longleftrightarrow>
      (\<exists>before e after l rs. ops = before @ Return e # after
        \<and> run_steps (fl_op True page align) (idx_list ix) before = Some (l, rs)
        \<and> ext_bytes e \<inter> fl_bytes l \<noteq> {}
        \<and> (\<exists>l'. fl_free False l e = Some l' \<and> fl_bytes l' = fl_bytes l \<union> ext_bytes e))"
proof -
  show run: "run_steps (fl_op True page align) (idx_list ix) ops = None" if "run_steps (idx_op dbg page) ix ops = None"
    by (rule indexed.sim_run_panic [OF ix legal that])
  show "run_steps (idx_op dbg page) ix ops = None \<longleftrightarrow>
      (\<exists>before e after l rs. ops = before @ Return e # after
        \<and> run_steps (fl_op True page align) (idx_list ix) before = Some (l, rs)
        \<and> ext_bytes e \<inter> fl_bytes l \<noteq> {}
        \<and> (\<exists>l'. fl_free False l e = Some l' \<and> fl_bytes l' = fl_bytes l \<union> ext_bytes e))"
  proof
    assume "run_steps (idx_op dbg page) ix ops = None"
    then obtain before q after ix' rs where q: "ops = before @ q # after"
      "run_steps (idx_op dbg page) ix before = Some (ix', rs)" "idx_op dbg page ix' q = None"
      unfolding run_steps_panics by blast
    have ix': "idx_open page align ix'" "run_steps (fl_op True page align) (idx_list ix) before = Some (idx_list ix', rs)"
      using idx_run [OF ix _ q(2), of True] legal q(1) by auto
    obtain e where e: "q = Return e" "ext_bytes e \<inter> fl_bytes (idx_list ix') \<noteq> {}"
      using idx_op_panics [OF ix'(1) _ page_pos] q(1,3) legal by auto
    have "fl_inv (idx_list ix')" "wf_extent e"
      using ix'(1) idx_inv_list legal q(1) e(1) by (auto simp: idx_open_def)
    then have "\<exists>l'. fl_free False (idx_list ix') e = Some l' \<and> fl_bytes l' = fl_bytes (idx_list ix') \<union> ext_bytes e"
      using fl_free_spec [of "idx_list ix'" e False] by blast
    then show "\<exists>before e after l rs. ops = before @ Return e # after
        \<and> run_steps (fl_op True page align) (idx_list ix) before = Some (l, rs)
        \<and> ext_bytes e \<inter> fl_bytes l \<noteq> {}
        \<and> (\<exists>l'. fl_free False l e = Some l' \<and> fl_bytes l' = fl_bytes l \<union> ext_bytes e)"
      using q(1) ix'(2) e by blast
  next
    assume "\<exists>before e after l rs. ops = before @ Return e # after
        \<and> run_steps (fl_op True page align) (idx_list ix) before = Some (l, rs)
        \<and> ext_bytes e \<inter> fl_bytes l \<noteq> {}
        \<and> (\<exists>l'. fl_free False l e = Some l' \<and> fl_bytes l' = fl_bytes l \<union> ext_bytes e)"
    then obtain before e after l rs where o: "ops = before @ Return e # after"
      "run_steps (fl_op True page align) (idx_list ix) before = Some (l, rs)" "ext_bytes e \<inter> fl_bytes l \<noteq> {}"
      by blast
    obtain ix' rs' where run': "run_steps (idx_op dbg page) ix before = Some (ix', rs')"
      using indexed.sim_run_panic [OF ix, of before dbg] legal o(1,2)
      by (cases "run_steps (idx_op dbg page) ix before") auto
    have ix': "idx_open page align ix'" "idx_list ix' = l"
      using idx_run [OF ix _ run', of True] legal o(1,2) by auto
    have "idx_op dbg page ix' (Return e) = None"
      using idx_op_panics [OF ix'(1) _ page_pos, of "Return e"] legal o(1,3) ix'(2) by simp
    then show "run_steps (idx_op dbg page) ix ops = None" unfolding run_steps_panics using o(1) run' by blast
  qed
qed

end

text \<open>The page size every file starts with.\<close>

interpretation default_page: page_space page_size_default
  by unfold_locales simp

end
