(* ===== verification/Free_List_Properties.thy ===== *)
theory Free_List_Properties
  imports Allocators
begin

text \<open>
  The contract of the free list, one theorem per operation: each is total on lists that satisfy
  \<^const>\<open>fl_inv\<close>, keeps the invariant, and acts on the set of free bytes as its documentation
  says. Each theorem with hypotheses is followed by an instance on a small concrete list.
\<close>

abbreviation list_a :: free_list where
  "list_a \<equiv> \<lparr>fl_regions = [\<lparr>ext_start = 100, ext_len = 50\<rparr>, \<lparr>ext_start = 200, ext_len = 30\<rparr>],
     fl_total = 80\<rparr>"

abbreviation list_b :: free_list where
  "list_b \<equiv> \<lparr>fl_regions = [\<lparr>ext_start = 120, ext_len = 10\<rparr>, \<lparr>ext_start = 210, ext_len = 40\<rparr>],
     fl_total = 50\<rparr>"

lemmas list_eval = fl_inv_def fl_bytes_def u64_max_def ext_end_def wf_extent_def ext_bytes_def

lemma list_a_inv: "fl_inv list_a" and list_b_inv: "fl_inv list_b"
  by (simp_all add: list_eval)

text \<open>C1: freeing an extent adds exactly its bytes to the list and keeps the list canonical with
  the right total; no checked step of the method fails. A debug build panics exactly if the extent
  overlaps recorded free space, a release build absorbs the overlap.\<close>

theorem free_correct:
  assumes "fl_inv l" "wf_extent e"
  shows "if dbg \<and> ext_bytes e \<inter> fl_bytes l \<noteq> {} then fl_free dbg l e = None
    else \<exists>l'. fl_free dbg l e = Some l' \<and> fl_inv l' \<and> fl_bytes l' = fl_bytes l \<union> ext_bytes e"
  using fl_free_spec [OF assms, of dbg] fl_free_panics [OF assms] by auto

theorem free_correct_witness:
  "fl_free True list_a \<lparr>ext_start = 140, ext_len = 20\<rparr> = None
   \<and> (\<exists>l'. fl_free True list_a \<lparr>ext_start = 150, ext_len = 50\<rparr> = Some l'
        \<and> fl_bytes l' = {100..<230})"
proof
  have "145 \<in> ext_bytes \<lparr>ext_start = 140, ext_len = 20\<rparr> \<inter> fl_bytes list_a"
    by (simp add: list_eval)
  then have "ext_bytes \<lparr>ext_start = 140, ext_len = 20\<rparr> \<inter> fl_bytes list_a \<noteq> {}" by blast
  moreover have "wf_extent \<lparr>ext_start = 140, ext_len = 20\<rparr>" by (simp add: u64_max_def)
  ultimately show "fl_free True list_a \<lparr>ext_start = 140, ext_len = 20\<rparr> = None"
    using free_correct [OF list_a_inv, of "\<lparr>ext_start = 140, ext_len = 20\<rparr>" True] by simp
  have "ext_bytes \<lparr>ext_start = 150, ext_len = 50\<rparr> \<inter> fl_bytes list_a = {}"
    by (auto simp: list_eval)
  moreover have "fl_bytes list_a \<union> ext_bytes \<lparr>ext_start = 150, ext_len = 50\<rparr> = {100..<230}"
    by (auto simp: list_eval)
  ultimately show "\<exists>l'. fl_free True list_a \<lparr>ext_start = 150, ext_len = 50\<rparr> = Some l'
      \<and> fl_bytes l' = {100..<230}"
    using free_correct [OF list_a_inv, of "\<lparr>ext_start = 150, ext_len = 50\<rparr>" True]
    by (auto simp: u64_max_def)
qed

text \<open>C2: best-fit allocation. The request is refused, with the list unchanged, exactly if no
  region is long enough. Otherwise it is served from the low end of the smallest sufficient region
  (of several equally small ones the lowest), and exactly the allocated bytes leave the list.\<close>

theorem alloc_best_fit:
  assumes "fl_inv l" "0 < len"
  shows "(\<forall>r \<in> set (fl_regions l). ext_len r < len) \<and> fl_alloc l len = Some (l, None)
    \<or> (\<exists>l' r. let a = \<lparr>ext_start = ext_start r, ext_len = len\<rparr> in
         fl_alloc l len = Some (l', Some a) \<and> r \<in> set (fl_regions l) \<and> len \<le> ext_len r
         \<and> fl_inv l' \<and> ext_bytes a \<subseteq> fl_bytes l \<and> fl_bytes l' = fl_bytes l - ext_bytes a
         \<and> (\<forall>x \<in> set (fl_regions l). len \<le> ext_len x \<longrightarrow>
              ext_len r < ext_len x \<or> ext_len r = ext_len x \<and> ext_start r \<le> ext_start x))"
proof (cases "fit_region l len")
  case None
  then show ?thesis
    using fl_alloc_None [OF assms(1) None] by (simp add: fit_region_def best_region_None not_le)
next
  case (Some r)
  note b = best_region_Some [OF Some [unfolded fit_region_def]]
  obtain l' where "fl_alloc l len = Some (l', Some \<lparr>ext_start = ext_start r, ext_len = len\<rparr>)"
    "handed_out l \<lparr>ext_start = ext_start r, ext_len = len\<rparr> l'"
    using fl_alloc_Some [OF assms Some] by auto
  moreover have "ext_len r < ext_len x \<or> ext_len r = ext_len x \<and> ext_start r \<le> ext_start x"
    if "x \<in> set (fl_regions l)" "len \<le> ext_len x" for x
    using b(3) [OF that] by (auto simp: less_eq_prod_def)
  ultimately show ?thesis using b(1,2) unfolding handed_out_def Let_def by blast
qed

theorem alloc_best_fit_witness:
  "\<exists>l'. fl_alloc list_a 20 = Some (l', Some \<lparr>ext_start = 200, ext_len = 20\<rparr>)
     \<and> fl_bytes l' = {100..<150} \<union> {220..<230}"
proof -
  have "fl_bytes list_a - {200..<220} = {100..<150} \<union> {220..<230}" by (auto simp: list_eval)
  then show ?thesis using alloc_best_fit [OF list_a_inv, of 20] by (auto simp: Let_def)
qed

text \<open>C3: PAGE block allocation is sound and complete. It fails exactly if no free region has room
  for the block at any position the PAGE rules allow; otherwise the block lies in one free region
  at a legal position and exactly its bytes leave the list, and no other region could have served
  it with a smaller capacity for its class.\<close>

theorem alloc_block_complete:
  assumes "fl_inv l" "wf_request rq" "is_block rq" "0 < page"
  shows "alloc_block l rq page = Some (l, None)
      \<and> \<not> (\<exists>r \<in> set (fl_regions l). \<exists>s. ext_start r \<le> s \<and> s + rq_size rq \<le> ext_end r
             \<and> block_legal page s (rq_size rq))
    \<or> (\<exists>l' a r. alloc_block l rq page = Some (l', Some a) \<and> ext_len a = rq_size rq
         \<and> r \<in> set (fl_regions l) \<and> ext_start r \<le> ext_start a \<and> ext_end a \<le> ext_end r
         \<and> block_legal page (ext_start a) (rq_size rq)
         \<and> fl_inv l' \<and> fl_bytes l' = fl_bytes l - ext_bytes a
         \<and> (\<forall>x \<in> set (fl_regions l). rq_size rq \<le> block_capacity x page (rq_size rq) \<longrightarrow>
              block_capacity r page (rq_size rq) \<le> block_capacity x page (rq_size rq)))"
proof (cases "\<exists>r \<in> set (fl_regions l). block_fits page (rq_size rq) r")
  case False
  have sz: "0 < rq_size rq" using assms(2) by (simp add: wf_request_def)
  have "\<not> (\<exists>r \<in> set (fl_regions l). \<exists>s. ext_start r \<le> s \<and> s + rq_size rq \<le> ext_end r
      \<and> block_legal page s (rq_size rq))"
    using False block_fits_iff [OF fl_region_wf [OF assms(1)] assms(4) sz] by blast
  then show ?thesis using alloc_block_None [OF assms] False by blast
next
  case True
  have sz: "0 < rq_size rq" using assms(2) by (simp add: wf_request_def)
  obtain l' s where s: "alloc_block l rq page = Some (l', Some (block_at page (rq_size rq) s))"
    "s \<in> set (fl_regions l)" "block_fits page (rq_size rq) s"
    "handed_out l (block_at page (rq_size rq) s) l'"
    "\<And>x. x \<in> set (fl_regions l) \<Longrightarrow> block_fits page (rq_size rq) x \<Longrightarrow>
      block_capacity s page (rq_size rq) \<le> block_capacity x page (rq_size rq)"
    using alloc_block_Some [OF assms] True by (fastforce simp: less_eq_prod_def)
  note b = block_at_spec [OF fl_region_wf [OF assms(1) s(2)] assms(4) sz s(3)]
  have "ext_len (block_at page (rq_size rq) s) = rq_size rq" by (simp add: block_at_def)
  then show ?thesis using s b unfolding handed_out_def inside_def block_fits_def by blast
qed

theorem alloc_block_complete_witness:
  "let rq = for_block (request_new 600 ClassMetadata);
       l = \<lparr>fl_regions = [\<lparr>ext_start = 100, ext_len = 1100\<rparr>], fl_total = 1100\<rparr>
   in \<exists>l' a. alloc_block l rq 512 = Some (l', Some a) \<and> 512 dvd ext_start a"
proof -
  let ?rq = "for_block (request_new 600 ClassMetadata)"
  let ?l = "\<lparr>fl_regions = [\<lparr>ext_start = 100, ext_len = 1100\<rparr>], fl_total = 1100\<rparr>"
  have inv: "fl_inv ?l" by (simp add: list_eval)
  have rq: "wf_request ?rq" "is_block ?rq" "rq_size ?rq = 600"
    by (simp_all add: wf_request_def is_block_def for_block_def request_new_def
        request_with_page_type_def u64_max_def)
  have "512 \<le> (1200 :: nat) - 600 \<and> block_legal 512 512 600" by (simp add: block_legal_def)
  then have "\<exists>r \<in> set (fl_regions ?l). \<exists>s. ext_start r \<le> s \<and> s + rq_size ?rq \<le> ext_end r
      \<and> block_legal 512 s (rq_size ?rq)"
    unfolding rq(3) by (intro bexI [of _ "\<lparr>ext_start = 100, ext_len = 1100\<rparr>"] exI [of _ 512])
      (simp_all add: ext_end_def)
  with alloc_block_complete [OF inv rq(1,2), of 512] obtain l' a where
    "alloc_block ?l ?rq 512 = Some (l', Some a)" "block_legal 512 (ext_start a) 600"
    unfolding rq(3) by auto
  then show ?thesis by (auto simp: Let_def block_legal_def)
qed

text \<open>C4: removing a list of ranges leaves exactly the free bytes outside them, as a canonical
  list with the right total, and no checked step of the linear merge fails.\<close>

theorem take_ranges_difference:
  assumes "fl_inv l" "fl_inv ranges"
  shows "\<exists>l'. take_ranges l ranges = Some l' \<and> fl_inv l'
    \<and> fl_bytes l' = fl_bytes l - fl_bytes ranges \<and> fl_total l' = card (fl_bytes l - fl_bytes ranges)"
  using take_ranges_spec [OF assms] fl_inv_card by fastforce

theorem take_ranges_difference_witness:
  "\<exists>l'. take_ranges list_a list_b = Some l' \<and> fl_bytes l' = {100..<120} \<union> {130..<150} \<union> {200..<210}"
proof -
  have "fl_bytes list_a - fl_bytes list_b = {100..<120} \<union> {130..<150} \<union> {200..<210}"
    by (auto simp: list_eval)
  then show ?thesis using take_ranges_difference [OF list_a_inv list_b_inv] by auto
qed

text \<open>C5: the intersection of two free lists holds exactly their common bytes; the internal
  construction from sorted extents never fails.\<close>

theorem intersection_common:
  assumes "fl_inv l" "fl_inv other"
  shows "\<exists>l'. fl_intersection l other = Some l' \<and> fl_inv l'
    \<and> fl_bytes l' = fl_bytes l \<inter> fl_bytes other"
  by (rule fl_intersection_spec [OF assms])

theorem intersection_common_witness:
  "\<exists>l'. fl_intersection list_a list_b = Some l' \<and> fl_bytes l' = {120..<130} \<union> {210..<230}"
proof -
  have "fl_bytes list_a \<inter> fl_bytes list_b = {120..<130} \<union> {210..<230}" by (auto simp: list_eval)
  then show ?thesis using intersection_common [OF list_a_inv list_b_inv] by auto
qed

text \<open>C6: construction from sorted extents. If each extent starts at or after the end of its
  predecessor the result is the canonical list of their bytes; otherwise the first offending pair
  is reported, as out of order or as overlapping.\<close>

theorem from_sorted_result:
  assumes "\<forall>e \<in> set es. wf_extent e"
  shows "case find (\<lambda>(a, b). ext_start b < ext_end a) (windows2 es) of
      None \<Rightarrow> \<exists>l. from_sorted es = Some (Inr l) \<and> fl_inv l \<and> fl_bytes l = region_bytes es
    | Some (a, b) \<Rightarrow> from_sorted es =
        Some (Inl (if ext_start b < ext_start a then Unsorted a b else Overlap a b))"
proof (cases "order_violation es")
  case None
  then show ?thesis
    using from_sorted_ok order_violation_None [OF assms] by (simp add: order_violation_def)
next
  case (Some v)
  then show ?thesis
    using from_sorted_error [OF assms Some]
    by (cases v) (simp add: order_violation_def order_error_of_def)
qed

theorem from_sorted_result_witness:
  "from_sorted [\<lparr>ext_start = 10, ext_len = 5\<rparr>, \<lparr>ext_start = 15, ext_len = 5\<rparr>, \<lparr>ext_start = 18, ext_len = 1\<rparr>]
     = Some (Inl (Overlap \<lparr>ext_start = 15, ext_len = 5\<rparr> \<lparr>ext_start = 18, ext_len = 1\<rparr>))"
  using from_sorted_result [of "[\<lparr>ext_start = 10, ext_len = 5\<rparr>, \<lparr>ext_start = 15, ext_len = 5\<rparr>,
    \<lparr>ext_start = 18, ext_len = 1\<rparr>]"]
  by (simp add: u64_max_def)

text \<open>C7: merging several canonical lists succeeds exactly if they are pairwise disjoint and then
  holds the union of their bytes; otherwise two overlapping extents are reported, never an order
  error.\<close>

theorem from_lists_union:
  assumes "\<forall>l \<in> set ls. fl_inv l"
  shows "if disjoint_all (map fl_bytes ls)
    then \<exists>l. from_lists ls = Some (Inr l) \<and> fl_inv l \<and> fl_bytes l = \<Union>(fl_bytes ` set ls)
    else \<exists>a b. from_lists ls = Some (Inl (Overlap a b)) \<and> ext_bytes a \<inter> ext_bytes b \<noteq> {}"
  using from_lists_ok [OF assms] from_lists_error [OF assms] by simp

theorem from_lists_union_witness:
  "\<exists>a b. from_lists [list_a, list_b] = Some (Inl (Overlap a b))"
proof -
  have "125 \<in> fl_bytes list_a \<inter> fl_bytes list_b" by (simp add: list_eval)
  then have "\<not> disjoint_all (map fl_bytes [list_a, list_b])" by auto
  then show ?thesis using from_lists_union [of "[list_a, list_b]"] list_a_inv list_b_inv by auto
qed

text \<open>C8: over canonical, mutually disjoint lists the trailing run starts at the unique address
  from which every byte up to the end of allocation is free and below which the next byte is not.\<close>

theorem trailing_run_start_exact:
  assumes "\<forall>l \<in> set ls. fl_inv l" "disjoint_all (map fl_bytes ls)"
  shows "trailing_run_start ls eof = s \<longleftrightarrow>
    s \<le> eof \<and> {s..<eof} \<subseteq> \<Union>(fl_bytes ` set ls) \<and> (0 < s \<longrightarrow> s - 1 \<notin> \<Union>(fl_bytes ` set ls))"
  using trailing_run_start_run [OF assms, of eof] run_start_unique
  unfolding run_start_def [symmetric] by blast

theorem trailing_run_start_exact_witness:
  "trailing_run_start [list_a, \<lparr>fl_regions = [\<lparr>ext_start = 150, ext_len = 50\<rparr>], fl_total = 50\<rparr>] 230 = 100"
proof -
  let ?l = "\<lparr>fl_regions = [\<lparr>ext_start = 150, ext_len = 50\<rparr>], fl_total = 50\<rparr>"
  have "fl_inv ?l" by (simp add: list_eval)
  moreover have "disjoint_all (map fl_bytes [list_a, ?l])" by (auto simp: list_eval)
  ultimately show ?thesis
    using trailing_run_start_exact [of "[list_a, ?l]" 230 100] list_a_inv
    by (auto simp: list_eval)
qed

text \<open>C9: releasing the trailing run. With a free run of \<open>n\<close> bytes below the end of allocation,
  space is given back exactly if \<open>n\<close> is positive and at least eight tails long. Then four tails of the run stay free, the rest leaves the list and the end of
  allocation moves to the cut; otherwise nothing changes.\<close>

theorem release_trailing_run_policy:
  assumes "fl_inv l" "eoa \<le> u64_max"
  shows "let s = trailing_run_start [l] eoa; keep = 4 * tail in
    if s < eoa \<and> 8 * tail \<le> eoa - s
    then \<exists>l'. release_trailing_run l eoa tail = Some (l', s + keep) \<and> fl_inv l'
           \<and> fl_bytes l' = fl_bytes l - {s + keep..<eoa} \<and> {s + keep..<eoa} \<subseteq> fl_bytes l
           \<and> {s..<s + keep} \<subseteq> fl_bytes l' \<and> keep \<le> eoa - (s + keep)
    else release_trailing_run l eoa tail = Some (l, eoa)"
proof -
  define s where "s = trailing_run_start [l] eoa"
  have run: "run_start (fl_bytes l) eoa s"
    unfolding s_def by (rule trailing_run_start_one [OF assms(1)])
  show ?thesis
  proof (cases "s < eoa \<and> 8 * tail \<le> eoa - s")
    case True
    obtain l' where l': "release_trailing_run l eoa tail = Some (l', s + 4 * tail)" "fl_inv l'"
      "fl_bytes l' = fl_bytes l - {s + 4 * tail..<eoa}"
      using release_trailing_run_cut [OF assms run] True by blast
    have "{s..<eoa} \<subseteq> fl_bytes l" using run by (simp add: run_start_def)
    moreover have "s + 4 * tail \<le> eoa" using True by linarith
    ultimately have "{s + 4 * tail..<eoa} \<subseteq> fl_bytes l" "{s..<s + 4 * tail} \<subseteq> fl_bytes l'"
      using l'(3) by (auto simp: subset_iff)
    then show ?thesis using True l' unfolding Let_def s_def [symmetric] by auto
  next
    case False
    then show ?thesis
      using release_trailing_run_keep [OF assms run, of tail] run
      unfolding Let_def s_def [symmetric] run_start_def by auto
  qed
qed

theorem release_trailing_run_policy_witness:
  "\<exists>l'. release_trailing_run list_a 230 3 = Some (l', 212) \<and> fl_bytes l' = {100..<150} \<union> {200..<212}"
proof -
  have s: "trailing_run_start [list_a] 230 = 200"
    by (simp add: trailing_run_start_def ext_end_def)
  have "fl_bytes list_a - {212..<230} = {100..<150} \<union> {200..<212}" by (auto simp: list_eval)
  then show ?thesis
    using release_trailing_run_policy [OF list_a_inv, of 230 3] s by (auto simp: u64_max_def Let_def)
qed

text \<open>C10: whatever the sequence of request lengths, the extents handed out are pairwise disjoint
  and came from the free bytes, and the list afterwards holds exactly the remaining bytes.\<close>

theorem alloc_sequence_disjoint:
  assumes "fl_inv l" "\<forall>n \<in> set ns. 0 < n"
  shows "\<exists>l' rs. run_steps fl_alloc l ns = Some (l', rs) \<and> fl_inv l'
    \<and> disjoint_all (map ext_bytes (granted rs))
    \<and> region_bytes (granted rs) \<subseteq> fl_bytes l
    \<and> fl_bytes l' = fl_bytes l - region_bytes (granted rs)"
  by (rule fl.run_disjoint [OF assms])

theorem alloc_sequence_disjoint_witness:
  "\<exists>l' rs. run_steps fl_alloc list_a [20, 60, 40] = Some (l', rs) \<and> fl_inv l'
    \<and> disjoint_all (map ext_bytes (granted rs))"
  using alloc_sequence_disjoint [OF list_a_inv, of "[20, 60, 40]"] by auto

text \<open>C11: freeing what was just allocated gives back the very same list, in debug and release
  builds.\<close>

theorem free_undoes_alloc:
  assumes "fl_inv l" "0 < len" "fl_alloc l len = Some (l', Some a)"
  shows "fl_free dbg l' a = Some l"
  by (rule fl.give_back_undoes [OF assms])

theorem free_undoes_alloc_witness:
  "fl_free True \<lparr>fl_regions = [\<lparr>ext_start = 100, ext_len = 50\<rparr>, \<lparr>ext_start = 220, ext_len = 10\<rparr>],
     fl_total = 60\<rparr> \<lparr>ext_start = 200, ext_len = 20\<rparr> = Some list_a"
proof (rule free_undoes_alloc [OF list_a_inv, of 20])
  show "fl_alloc list_a 20 = Some (\<lparr>fl_regions = [\<lparr>ext_start = 100, ext_len = 50\<rparr>,
      \<lparr>ext_start = 220, ext_len = 10\<rparr>], fl_total = 60\<rparr>, Some \<lparr>ext_start = 200, ext_len = 20\<rparr>)"
    by (simp add: fl_alloc_def alloc_best_def subtract_bytes_def checked u64_max_def)
qed simp

text \<open>C12: the indexed free list stands in for the plain one. Any sequence of reservations and
  returns, run on the indexes built from a list, with or without an alignment, and restored
  afterwards, gives in either build what the debug build of the plain list gives: the same extents
  and the same list, and a panic exactly if that panics. A run on the indexes that does not panic
  gives what the plain list gives in either build. The indexes panic exactly at a return that
  overlaps free space, which the plain list asserts against in debug builds only and absorbs in
  release builds.\<close>

theorem indexed_batch_equivalent:
  assumes "fl_inv l" "1 < page" "align \<noteq> Some 0" "\<forall>q \<in> set ops. legal_op align q"
  shows "map_option (\<lambda>(ix, rs). (ix_owner (idx_restore ix), rs))
      (run_steps (idx_op dbg page) (idx_new l align) ops) = run_steps (fl_op True page align) l ops
    \<and> (\<forall>ix rs. run_steps (idx_op dbg page) (idx_new l align) ops = Some (ix, rs) \<longrightarrow>
        run_steps (fl_op dbg' page align) l ops = Some (ix_owner (idx_restore ix), rs))
    \<and> (run_steps (idx_op dbg page) (idx_new l align) ops = None \<longleftrightarrow>
        (\<exists>before e after l' rs. ops = before @ Return e # after
          \<and> run_steps (fl_op True page align) l before = Some (l', rs)
          \<and> ext_bytes e \<inter> fl_bytes l' \<noteq> {}
          \<and> (\<exists>l''. fl_free False l' e = Some l'' \<and> fl_bytes l'' = fl_bytes l' \<union> ext_bytes e)))"
proof -
  have ps: "page_space page" by unfold_locales (rule assms(2))
  have al: "0 < a" if "align = Some a" for a using that assms(3) by simp
  have new: "idx_open page align (idx_new l align)" "idx_list (idx_new l align) = l"
    using idx_new_inv [OF assms(1) al] by (simp_all add: idx_open_def)
  have owner: "ix_owner (idx_restore ix) = idx_list ix" if "idx_open page align ix" for ix
    using that by (simp add: idx_open_def idx_restore_owner)
  note some = page_space.idx_run [OF ps new(1) assms(4), unfolded new(2)]
  note none = page_space.idx_run_panic [OF ps new(1) assms(4), unfolded new(2)]
  show ?thesis
  proof (intro conjI)
    show "map_option (\<lambda>(ix, rs). (ix_owner (idx_restore ix), rs))
        (run_steps (idx_op dbg page) (idx_new l align) ops) = run_steps (fl_op True page align) l ops"
      using some [of dbg _ _ True] none(1) [of dbg] owner
      by (cases "run_steps (idx_op dbg page) (idx_new l align) ops") fastforce+
    show "\<forall>ix rs. run_steps (idx_op dbg page) (idx_new l align) ops = Some (ix, rs) \<longrightarrow>
        run_steps (fl_op dbg' page align) l ops = Some (ix_owner (idx_restore ix), rs)"
      using some [of dbg _ _ dbg'] owner by fastforce
  qed (rule none(2))
qed

abbreviation example_ops :: "list_op list" where
  "example_ops \<equiv> [Reserve 20, Return \<lparr>ext_start = 160, ext_len = 8\<rparr>, Reserve 50]"

theorem indexed_batch_equivalent_witness:
  "map_option (\<lambda>(ix, rs). (ix_owner (idx_restore ix), rs))
      (run_steps (idx_op False 512) (idx_new list_a None) example_ops) = run_steps (fl_op True 512 None) list_a example_ops
    \<and> (\<exists>ix rs. run_steps (idx_op True 512) (idx_new list_a (Some 512)) [ReserveUnits 512, Reserve 20] = Some (ix, rs)
        \<and> run_steps (fl_op False 512 (Some 512)) list_a [ReserveUnits 512, Reserve 20] = Some (ix_owner (idx_restore ix), rs))
    \<and> run_steps (idx_op False 512) (idx_new list_a (Some 512)) [Return \<lparr>ext_start = 140, ext_len = 20\<rparr>] = None"
proof (intro conjI)
  show "map_option (\<lambda>(ix, rs). (ix_owner (idx_restore ix), rs))
      (run_steps (idx_op False 512) (idx_new list_a None) example_ops) = run_steps (fl_op True 512 None) list_a example_ops"
    by (rule conjunct1 [OF indexed_batch_equivalent [OF list_a_inv]]) (simp_all add: u64_max_def)
  let ?run = "run_steps (idx_op True 512) (idx_new list_a (Some 512)) [ReserveUnits 512, Reserve 20]"
  have units: "\<forall>q \<in> set [ReserveUnits 512, Reserve 20]. legal_op (Some 512) q" by simp
  note batch = indexed_batch_equivalent [OF list_a_inv _ _ units, of 512 True False]
  have "Return e \<notin> set [ReserveUnits 512, Reserve 20]" for e by simp
  then have "[ReserveUnits 512, Reserve 20] \<noteq> before @ Return e # after" for before e after
    by (metis in_set_conv_decomp)
  then obtain ix rs where "?run = Some (ix, rs)" using batch by fastforce
  then show "\<exists>ix rs. ?run = Some (ix, rs)
      \<and> run_steps (fl_op False 512 (Some 512)) list_a [ReserveUnits 512, Reserve 20] = Some (ix_owner (idx_restore ix), rs)"
    using batch by fastforce
  have "fl_free True list_a \<lparr>ext_start = 140, ext_len = 20\<rparr> = None"
  proof (rule fl_free_panics [OF list_a_inv])
    have "140 \<in> ext_bytes \<lparr>ext_start = 140, ext_len = 20\<rparr> \<inter> fl_bytes list_a"
      by (simp add: fl_bytes_def ext_bytes_def ext_end_def)
    then show "ext_bytes \<lparr>ext_start = 140, ext_len = 20\<rparr> \<inter> fl_bytes list_a \<noteq> {}" by blast
  qed (simp add: u64_max_def)
  then have "run_steps (fl_op True 512 (Some 512)) list_a [Return \<lparr>ext_start = 140, ext_len = 20\<rparr>] = None"
    by simp
  moreover have "map_option (\<lambda>(ix, rs). (ix_owner (idx_restore ix), rs))
      (run_steps (idx_op False 512) (idx_new list_a (Some 512)) [Return \<lparr>ext_start = 140, ext_len = 20\<rparr>])
      = run_steps (fl_op True 512 (Some 512)) list_a [Return \<lparr>ext_start = 140, ext_len = 20\<rparr>]"
    by (rule conjunct1 [OF indexed_batch_equivalent [OF list_a_inv]]) (simp_all add: u64_max_def)
  ultimately show "run_steps (idx_op False 512) (idx_new list_a (Some 512)) [Return \<lparr>ext_start = 140, ext_len = 20\<rparr>] = None"
    by (metis map_option_is_None)
qed

end
