(* ===== verification/Admission.thy ===== *)
theory Admission
  imports Allocators
begin

text \<open>
  Threshold admission of returned space (\<^verbatim>\<open>admission/mod.rs\<close>, \<^verbatim>\<open>admission/batch.rs\<close> and
  \<^verbatim>\<open>list/admission/mod.rs\<close>).

  The provided methods of the trait \<^verbatim>\<open>TrackedSpace\<close> take the two required ones, \<^verbatim>\<open>merges\<close> and
  \<^verbatim>\<open>track\<close>, as parameters. The locales \<open>tracked_space\<close> and \<open>touching_space\<close> state what an
  implementation promises, and \<open>admitted\<close> is the declarative rule for which returned extents join
  the tracked space. \<^verbatim>\<open>FreeList\<close> overrides \<^verbatim>\<open>release_each\<close> by the single sweep of
  \<^verbatim>\<open>release_batch\<close>, which is shown to follow the same rule.

  The work counters are left out. \<^verbatim>\<open>sort_unstable_by\<close> is a stable sort here: two entries with
  equal starts overlap, which is reported for either order.
\<close>

datatype release_kind = Drop | Merge | Track

definition release ::
  "('s \<Rightarrow> extent \<Rightarrow> bool) \<Rightarrow> ('s \<Rightarrow> extent \<Rightarrow> 'c \<Rightarrow> 's option) \<Rightarrow> byte_length \<Rightarrow> 's \<Rightarrow> extent \<Rightarrow> 'c
     \<Rightarrow> ('s \<times> release_kind) option" where
  "release merges track threshold self e cls =
     (let kind = (if threshold \<le> ext_len e then Track else if merges self e then Merge else Drop)
      in if kind \<noteq> Drop then do { self \<leftarrow> track self e cls; Some (self, kind) }
         else Some (self, kind))"

fun track_each ::
  "('s \<Rightarrow> extent \<Rightarrow> 'c \<Rightarrow> 's option) \<Rightarrow> 's \<Rightarrow> (extent \<times> 'c) list \<Rightarrow> 's option" where
  "track_each track self [] = Some self"
| "track_each track self ((e, cls) # es) = do { self \<leftarrow> track self e cls; track_each track self es }"

text \<open>\<^verbatim>\<open>pending.retain(|..| self.release(..) == Release::Drop)\<close>\<close>

fun retain_dropped ::
  "('s \<Rightarrow> extent \<Rightarrow> bool) \<Rightarrow> ('s \<Rightarrow> extent \<Rightarrow> 'c \<Rightarrow> 's option) \<Rightarrow> byte_length \<Rightarrow> 's
     \<Rightarrow> (extent \<times> 'c) list \<Rightarrow> ('s \<times> (extent \<times> 'c) list) option" where
  "retain_dropped merges track threshold self [] = Some (self, [])"
| "retain_dropped merges track threshold self ((e, cls) # es) = do {
     (self, kind) \<leftarrow> release merges track threshold self e cls;
     (self, kept) \<leftarrow> retain_dropped merges track threshold self es;
     Some (self, if kind = Drop then (e, cls) # kept else kept) }"

lemma retain_dropped_length:
  "retain_dropped merges track threshold self es = Some (self', kept) \<Longrightarrow> length kept \<le> length es"
  by (induction es arbitrary: self self' kept)
    (auto simp: bind_eq_Some_conv split: if_splits, fastforce+)

function release_loop ::
  "('s \<Rightarrow> extent \<Rightarrow> bool) \<Rightarrow> ('s \<Rightarrow> extent \<Rightarrow> 'c \<Rightarrow> 's option) \<Rightarrow> byte_length \<Rightarrow> 's
     \<Rightarrow> (extent \<times> 'c) list \<Rightarrow> ('s \<times> (extent \<times> 'c) list) option" where
  "release_loop merges track threshold self pending =
     (case retain_dropped merges track threshold self pending of
        None \<Rightarrow> None
      | Some (self', kept) \<Rightarrow>
          if length kept = length pending then Some (self', kept)
          else release_loop merges track threshold self' kept)"
  by pat_completeness auto
termination
  by (relation "measure (\<lambda>(_, _, _, _, pending). length pending)")
    (auto dest!: retain_dropped_length)

declare release_loop.simps [simp del]

definition release_each ::
  "('s \<Rightarrow> extent \<Rightarrow> bool) \<Rightarrow> ('s \<Rightarrow> extent \<Rightarrow> 'c \<Rightarrow> 's option) \<Rightarrow> byte_length \<Rightarrow> 's
     \<Rightarrow> (extent \<times> 'c) list \<Rightarrow> ('s \<times> (extent \<times> 'c) list) option" where
  "release_each merges track threshold self extents =
     (let pending = filter (\<lambda>(e, _). ext_len e < threshold) extents;
          eligible = filter (\<lambda>(e, _). \<not> ext_len e < threshold) extents
      in do {
        self \<leftarrow> track_each track self eligible;
        release_loop merges track threshold self pending })"

section \<open>Batches of returned allocations\<close>

type_synonym returned_extents = "(extent \<times> free_class) list"

definition returned_from_sorted :: "(extent \<times> free_class) list \<Rightarrow> free_list_error + returned_extents" where
  "returned_from_sorted entries =
     (case find (\<lambda>(a, b). ext_start (fst b) < ext_start (fst a) \<or> ext_start (fst b) < ext_end (fst a))
             (windows2 entries) of
        None \<Rightarrow> Inr entries
      | Some (a, b) \<Rightarrow>
          Inl (if ext_start (fst b) < ext_start (fst a) then Unsorted (fst a) (fst b)
               else Overlap (fst a) (fst b)))"

definition returned_insert ::
  "returned_extents \<Rightarrow> extent \<Rightarrow> free_class \<Rightarrow> free_list_error + returned_extents" where
  "returned_insert self e cls =
     (let index = partition_point (\<lambda>(x, _). ext_start x < ext_start e) self;
          previous = (if index = 0 then None else get_at self (index - 1));
          following = get_at self index
      in case (case previous of
                 Some (p, _) \<Rightarrow> if ext_start e < ext_end p then Some (Overlap p e) else None
               | None \<Rightarrow> None) of
           Some err \<Rightarrow> Inl err
         | None \<Rightarrow>
             (case (case following of
                      Some (n, _) \<Rightarrow> if ext_start n < ext_end e then Some (Overlap e n) else None
                    | None \<Rightarrow> None) of
                Some err \<Rightarrow> Inl err
              | None \<Rightarrow> Inr (take index self @ (e, cls) # drop index self)))"

definition returned_remove ::
  "returned_extents \<Rightarrow> nat \<Rightarrow> (returned_extents \<times> (extent \<times> free_class)) option" where
  "returned_remove self index =
     (if index < length self then Some (take index self @ drop (Suc index) self, self ! index)
      else None)"

definition ordered_returns_new :: "(extent \<times> 'c) list \<Rightarrow> free_list_error + (extent \<times> 'c) list" where
  "ordered_returns_new entries =
     (let sorted_entries =
        (if list_all (\<lambda>(a, b). ext_start (fst a) \<le> ext_start (fst b)) (windows2 entries) then entries
         else sort_key (\<lambda>x. ext_start (fst x)) entries)
      in case find (\<lambda>(a, b). ext_start (fst b) < ext_end (fst a)) (windows2 sorted_entries) of
           None \<Rightarrow> Inr sorted_entries
         | Some (a, b) \<Rightarrow> Inl (Overlap (fst a) (fst b)))"

section \<open>The sweep over a flat list\<close>

record flat_admission =
  fa_admitted :: "extent list"
  fa_dropped :: "extent list"
  fa_run :: "extent option"
  fa_seeded :: bool
  fa_pending_start :: nat

definition fa_default :: flat_admission where
  "fa_default = \<lparr>fa_admitted = [], fa_dropped = [], fa_run = None, fa_seeded = False,
     fa_pending_start = 0\<rparr>"

definition finish_run :: "flat_admission \<Rightarrow> flat_admission" where
  "finish_run self =
     (let self = (case fa_run self of
            Some run \<Rightarrow>
              (if fa_seeded self
               then self\<lparr>fa_admitted := fa_admitted self @ [run],
                         fa_dropped := take (fa_pending_start self) (fa_dropped self)\<rparr>
               else self)
          | None \<Rightarrow> self)
      in self\<lparr>fa_run := None, fa_seeded := False, fa_pending_start := length (fa_dropped self)\<rparr>)"

definition fa_push :: "flat_admission \<Rightarrow> extent \<Rightarrow> bool \<Rightarrow> bool \<Rightarrow> flat_admission option" where
  "fa_push self e seed returned =
     (let self = (case fa_run self of
            Some run \<Rightarrow> if ext_end run < ext_start e then finish_run self else self
          | None \<Rightarrow> self)
      in do {
        run \<leftarrow> (case fa_run self of
                 Some run \<Rightarrow> do {
                   assert_that (ext_end run = ext_start e);
                   ext_between (ext_start run) (ext_end e) }
               | None \<Rightarrow> Some e);
        let self = self\<lparr>fa_run := Some run\<rparr>;
        let self = (if seed \<and> \<not> fa_seeded self
                    then self\<lparr>fa_dropped := take (fa_pending_start self) (fa_dropped self),
                              fa_seeded := True\<rparr>
                    else self);
        Some (if returned \<and> \<not> fa_seeded self then self\<lparr>fa_dropped := fa_dropped self @ [e]\<rparr>
              else self) })"

fun admission_sweep ::
  "byte_length \<Rightarrow> flat_admission \<Rightarrow> extent list \<Rightarrow> extent list \<Rightarrow> flat_admission option" where
  "admission_sweep threshold adm [] [] = Some adm"
| "admission_sweep threshold adm (e # tracked) [] = do {
     adm \<leftarrow> fa_push adm e True False;
     admission_sweep threshold adm tracked [] }"
| "admission_sweep threshold adm [] (r # returned) = do {
     adm \<leftarrow> fa_push adm r (threshold \<le> ext_len r) True;
     admission_sweep threshold adm [] returned }"
| "admission_sweep threshold adm (e # tracked) (r # returned) =
     (if ext_start e < ext_start r then do {
        adm \<leftarrow> fa_push adm e True False;
        admission_sweep threshold adm tracked (r # returned) }
      else do {
        adm \<leftarrow> fa_push adm r (threshold \<le> ext_len r) True;
        admission_sweep threshold adm (e # tracked) returned })"

definition fl_track :: "bool \<Rightarrow> free_list \<Rightarrow> extent \<Rightarrow> unit \<Rightarrow> free_list option" where
  "fl_track dbg self e cls = fl_free dbg self e"

definition fl_release_batch ::
  "bool \<Rightarrow> free_list \<Rightarrow> byte_length \<Rightarrow> extent list \<Rightarrow> (free_list \<times> extent list) option" where
  "fl_release_batch dbg self threshold extents =
     (case extents of
        [] \<Rightarrow> Some (self, [])
      | [first] \<Rightarrow> do {
          (self, kind) \<leftarrow> release fl_adjoins (fl_track dbg) threshold self first ();
          Some (self, if kind = Drop then [first] else []) }
      | _ \<Rightarrow> do {
          returned \<leftarrow> ok (ordered_returns_new (map (\<lambda>e. (e, ())) extents));
          adm \<leftarrow> admission_sweep threshold fa_default (fl_regions self) (map fst returned);
          let adm = finish_run adm;
          result \<leftarrow> from_sorted (fa_admitted adm);
          self \<leftarrow> ok result;
          Some (self, fa_dropped adm) })"

definition fl_release_all ::
  "bool \<Rightarrow> free_list \<Rightarrow> byte_length \<Rightarrow> stored_address \<Rightarrow> extent list
     \<Rightarrow> (free_list \<times> stored_address) option" where
  "fl_release_all dbg self threshold eoa extents = do {
     (self, dropped) \<leftarrow> fl_release_batch dbg self threshold extents;
     Some (self, fold (\<lambda>e eoa. if ext_end e = eoa then ext_start e else eoa)
       (rev (sort_key ext_start dropped)) eoa) }"


section \<open>The rule for admission\<close>

definition touches :: "nat set \<Rightarrow> extent \<Rightarrow> bool" where
  "touches S e \<longleftrightarrow> 0 < ext_start e \<and> ext_start e - 1 \<in> S \<or> ext_end e \<in> S"

text \<open>
  A returned extent is admitted if it is long enough, touches the tracked bytes, or touches an
  admitted extent.
\<close>

inductive admitted :: "nat set \<Rightarrow> byte_length \<Rightarrow> extent set \<Rightarrow> extent \<Rightarrow> bool"
  for B :: "nat set" and threshold :: byte_length and R :: "extent set" where
  admitted_long: "e \<in> R \<Longrightarrow> threshold \<le> ext_len e \<Longrightarrow> admitted B threshold R e"
| admitted_touch: "e \<in> R \<Longrightarrow> touches B e \<Longrightarrow> admitted B threshold R e"
| admitted_chain: "e \<in> R \<Longrightarrow> admitted B threshold R d \<Longrightarrow> touches (ext_bytes d) e
    \<Longrightarrow> admitted B threshold R e"

inductive_cases admittedE: "admitted B threshold R e"

lemma admitted_member: "admitted B threshold R e \<Longrightarrow> e \<in> R"
  by (erule admittedE)

definition admitted_bytes :: "nat set \<Rightarrow> byte_length \<Rightarrow> extent set \<Rightarrow> nat set" where
  "admitted_bytes B threshold R = B \<union> (\<Union>e \<in> {e \<in> R. admitted B threshold R e}. ext_bytes e)"

text \<open>The returned extents a caller may hand in: apart from the tracked bytes and each other.\<close>

definition returnable :: "nat set \<Rightarrow> extent list \<Rightarrow> bool" where
  "returnable B es \<longleftrightarrow>
     (\<forall>e \<in> set es. wf_extent e \<and> ext_bytes e \<inter> B = {}) \<and> disjoint_all (map ext_bytes es)"

lemma returnable_Nil [simp]: "returnable B []"
  by (simp add: returnable_def)

lemma returnable_Cons:
  "returnable B (e # es) \<longleftrightarrow> wf_extent e \<and> ext_bytes e \<inter> B = {} \<and> returnable (B \<union> ext_bytes e) es"
  by (fastforce simp: returnable_def)

lemma returnable_mono: "returnable B es \<Longrightarrow> B' \<subseteq> B \<Longrightarrow> returnable B' es"
  by (fastforce simp: returnable_def)

lemma disjoint_all_filter: "disjoint_all (map f xs) \<Longrightarrow> disjoint_all (map f (filter P xs))"
  by (induction xs) auto

lemma returnable_filter: "returnable B es \<Longrightarrow> returnable B (filter P es)"
  by (simp add: returnable_def disjoint_all_filter)

lemma returnable_split:
  assumes "returnable B (map fst es)"
  shows "returnable (B \<union> region_bytes (map fst (filter P es))) (map fst (filter (\<lambda>x. \<not> P x) es))"
  using assms
proof (induction es arbitrary: B)
  case (Cons x es)
  then have "returnable (B \<union> ext_bytes (fst x)) (map fst es)"
    and x: "wf_extent (fst x)" "ext_bytes (fst x) \<inter> B = {}"
    by (simp_all add: returnable_Cons)
  note ih = Cons.IH [OF this(1)]
  have "ext_bytes (fst x) \<inter> region_bytes (map fst (filter P es)) = {}"
    using Cons.prems by (auto simp: returnable_def region_bytes_def)
  with ih x show ?case by (auto simp: returnable_Cons Un_ac Int_Un_distrib)
qed simp

lemma returnable_mem:
  assumes "returnable B (map fst es)" "x \<in> set es"
  shows "wf_extent (fst x)" "ext_bytes (fst x) \<inter> B = {}"
  using assms by (simp_all add: returnable_def)

lemma region_bytes_fst: "region_bytes (map fst es) = (\<Union>x \<in> set es. ext_bytes (fst x))"
  by (simp add: region_bytes_def)

lemma touches_mono: "touches S e \<Longrightarrow> S \<subseteq> T \<Longrightarrow> touches T e"
  by (auto simp: touches_def)

lemma returnable_notin:
  assumes "returnable B (map fst (x # es))"
  shows "x \<notin> set es"
  using assms wf_ext_bytes_nonempty [of "fst x"] by (fastforce simp: returnable_def)

lemma returnable_inj:
  assumes "returnable B es" "a \<in> set es" "b \<in> set es" "x \<in> ext_bytes a" "x \<in> ext_bytes b"
  shows "a = b"
  using assms by (induction es arbitrary: B) (auto simp: returnable_def)

text \<open>An extent left behind apart from everything tracked is not admitted.\<close>

lemma kept_not_admitted:
  assumes "admitted B threshold R e" "B \<subseteq> T" "K \<subseteq> R"
    and "\<And>d. d \<in> R \<Longrightarrow> d \<notin> K \<Longrightarrow> ext_bytes d \<subseteq> T"
    and "\<And>d. d \<in> K \<Longrightarrow> ext_len d < threshold \<and> \<not> touches T d"
  shows "e \<notin> K"
  using assms(1)
proof (induction rule: admitted.induct)
  case (admitted_long e)
  then show ?case using assms(5) [of e] by auto
next
  case (admitted_touch e)
  then show ?case using assms(5) [of e] touches_mono [OF _ assms(2)] by blast
next
  case (admitted_chain e d)
  have "ext_bytes d \<subseteq> T"
    using assms(4) [of d] admitted_chain.IH admitted_member [OF admitted_chain.hyps(2)] by blast
  then show ?case using assms(5) [of e] touches_mono [OF admitted_chain.hyps(3)] by blast
qed

lemma joined_admitted:
  assumes "returnable B es" "e \<in> set es" "ext_bytes e \<subseteq> admitted_bytes B threshold (set es)"
  shows "admitted B threshold (set es) e"
proof -
  have e: "ext_start e \<in> ext_bytes e" "ext_bytes e \<inter> B = {}"
    using assms(1,2) by (auto simp: returnable_def intro: ext_start_in_bytes)
  then obtain d where d: "d \<in> set es" "admitted B threshold (set es) d" "ext_start e \<in> ext_bytes d"
    using assms(3) by (auto simp: admitted_bytes_def)
  then show ?thesis using returnable_inj [OF assms(1,2) d(1) e(1) d(3)] by simp
qed

section \<open>Tracked space\<close>

text \<open>What \<^verbatim>\<open>TrackedSpace::track\<close> promises.\<close>

locale tracked_space =
  fixes inv :: "'s \<Rightarrow> bool"
    and bytes :: "'s \<Rightarrow> nat set"
    and merges :: "'s \<Rightarrow> extent \<Rightarrow> bool"
    and track :: "'s \<Rightarrow> extent \<Rightarrow> 'c \<Rightarrow> 's option"
  assumes track_ok: "inv s \<Longrightarrow> wf_extent e \<Longrightarrow> ext_bytes e \<inter> bytes s = {} \<Longrightarrow>
      \<exists>s'. track s e c = Some s' \<and> inv s' \<and> bytes s' = bytes s \<union> ext_bytes e"
begin

text \<open>\<open>preserved\<close>: tracking an offered extent that is long enough or merges keeps \<open>Q\<close>.\<close>

definition preserved :: "byte_length \<Rightarrow> (extent \<times> 'c) set \<Rightarrow> ('s \<Rightarrow> bool) \<Rightarrow> bool" where
  "preserved threshold R Q \<longleftrightarrow> (\<forall>t e c t'. inv t \<longrightarrow> Q t \<longrightarrow> (e, c) \<in> R \<longrightarrow> wf_extent e \<longrightarrow>
     ext_bytes e \<inter> bytes t = {} \<longrightarrow> threshold \<le> ext_len e \<or> merges t e \<longrightarrow> track t e c = Some t' \<longrightarrow> Q t')"

lemma preserved_step:
  assumes "preserved threshold R Q" "inv t" "Q t" "(e, c) \<in> R" "wf_extent e" "ext_bytes e \<inter> bytes t = {}"
    "threshold \<le> ext_len e \<or> merges t e" "track t e c = Some t'"
  shows "Q t'"
  using assms unfolding preserved_def by blast

lemma track_each_ok:
  assumes Q: "preserved threshold R Q"
    and "inv s" "Q s" "returnable (bytes s) (map fst es)" "set es \<subseteq> R" "\<forall>x \<in> set es. threshold \<le> ext_len (fst x)"
  shows "\<exists>s'. track_each track s es = Some s' \<and> inv s' \<and> Q s' \<and> bytes s' = bytes s \<union> region_bytes (map fst es)"
  using assms(2-)
proof (induction es arbitrary: s)
  case (Cons x es)
  obtain e c where x: "x = (e, c)" by fastforce
  have e: "wf_extent e" "ext_bytes e \<inter> bytes s = {}" "threshold \<le> ext_len e"
    using Cons.prems by (simp_all add: returnable_Cons x)
  obtain s1 where s1: "track s e c = Some s1" "inv s1" "bytes s1 = bytes s \<union> ext_bytes e"
    using track_ok [OF Cons.prems(1) e(1,2), of c] by blast
  have "Q s1"
    by (rule preserved_step [OF Q Cons.prems(1,2) _ e(1,2) _ s1(1)]) (use Cons.prems(4) e(3) x in auto)
  then obtain s' where "track_each track s1 es = Some s'" "inv s'" "Q s'" "bytes s' = bytes s1 \<union> region_bytes (map fst es)"
    using Cons.IH [OF s1(2)] Cons.prems s1(3) by (auto simp: returnable_Cons x)
  then show ?case using s1 by (auto simp: x)
qed simp

lemma release_ok:
  assumes "inv s" "wf_extent e" "ext_bytes e \<inter> bytes s = {}"
  shows "if threshold \<le> ext_len e \<or> merges s e
    then \<exists>s' k. release merges track threshold s e c = Some (s', k) \<and> k \<noteq> Drop \<and> inv s'
      \<and> bytes s' = bytes s \<union> ext_bytes e \<and> track s e c = Some s'
    else release merges track threshold s e c = Some (s, Drop)"
  using track_ok [OF assms, of c] by (auto simp: release_def)

lemma retain_ok:
  assumes Q: "preserved threshold R Q"
    and "inv s" "Q s" "returnable (bytes s) (map fst es)" "set es \<subseteq> R"
  shows "\<exists>s' P. retain_dropped merges track threshold s es = Some (s', filter P es) \<and> inv s' \<and> Q s'
     \<and> bytes s' = bytes s \<union> region_bytes (map fst (filter (\<lambda>x. \<not> P x) es))
     \<and> ((\<forall>x \<in> set es. P x) \<longrightarrow> s' = s \<and> (\<forall>x \<in> set es. \<not> (threshold \<le> ext_len (fst x) \<or> merges s (fst x))))"
  using assms(2-)
proof (induction es arbitrary: s)
  case (Cons x es)
  obtain e c where x: "x = (e, c)" by fastforce
  have e: "wf_extent e" "ext_bytes e \<inter> bytes s = {}" and nin: "x \<notin> set es" and R: "set es \<subseteq> R" "(e, c) \<in> R"
    using Cons.prems(3,4) returnable_notin [of _ x es] by (auto simp: returnable_Cons x)
  note rel = release_ok [OF Cons.prems(1) e, of threshold c]
  show ?case
  proof (cases "threshold \<le> ext_len e \<or> merges s e")
    case True
    then obtain s1 k where s1: "release merges track threshold s e c = Some (s1, k)" "k \<noteq> Drop"
      "inv s1" "bytes s1 = bytes s \<union> ext_bytes e" "track s e c = Some s1"
      using rel by auto
    have "returnable (bytes s1) (map fst es)"
      using Cons.prems(3) by (simp add: returnable_Cons x s1(4))
    from Cons.IH [OF s1(3) preserved_step [OF Q Cons.prems(1,2) R(2) e True s1(5)] this R(1)]
    obtain s' P where ih: "retain_dropped merges track threshold s1 es = Some (s', filter P es)"
      "inv s'" "Q s'" "bytes s' = bytes s1 \<union> region_bytes (map fst (filter (\<lambda>x. \<not> P x) es))"
      by blast
    let ?P = "\<lambda>y. y \<noteq> x \<and> P y"
    have f: "filter ?P (x # es) = filter P es" "filter (\<lambda>y. \<not> ?P y) (x # es) = x # filter (\<lambda>y. \<not> P y) es"
      using nin by (auto intro: filter_cong)
    have "retain_dropped merges track threshold s (x # es) = Some (s', filter ?P (x # es))"
      using s1 ih(1) unfolding f by (simp add: x)
    moreover have "bytes s' = bytes s \<union> region_bytes (map fst (filter (\<lambda>y. \<not> ?P y) (x # es)))"
      using ih(4) s1(4) unfolding f by (auto simp: x)
    ultimately show ?thesis
      using ih(2,3) by (intro exI [of _ s'] exI [of _ ?P] conjI) auto
  next
    case False
    then have d: "release merges track threshold s e c = Some (s, Drop)" using rel by simp
    have "returnable (bytes s) (map fst es)"
      using Cons.prems(3) returnable_mono [of _ "map fst es" "bytes s"]
      by (auto simp: returnable_Cons x)
    from Cons.IH [OF Cons.prems(1,2) this R(1)]
    obtain s' P where ih: "retain_dropped merges track threshold s es = Some (s', filter P es)"
      "inv s'" "Q s'" "bytes s' = bytes s \<union> region_bytes (map fst (filter (\<lambda>x. \<not> P x) es))"
      "(\<forall>x \<in> set es. P x) \<Longrightarrow> s' = s \<and> (\<forall>x \<in> set es. \<not> (threshold \<le> ext_len (fst x) \<or> merges s (fst x)))"
      by blast
    let ?P = "\<lambda>y. y = x \<or> P y"
    have f: "filter ?P (x # es) = x # filter P es" "filter (\<lambda>y. \<not> ?P y) (x # es) = filter (\<lambda>y. \<not> P y) es"
      using nin by (auto intro: filter_cong)
    have g: "\<forall>y \<in> set es. P y" if "\<forall>y \<in> set (x # es). ?P y" using that nin by auto
    have "retain_dropped merges track threshold s (x # es) = Some (s', filter ?P (x # es))"
      using d ih(1) unfolding f by (simp add: x)
    moreover have "bytes s' = bytes s \<union> region_bytes (map fst (filter (\<lambda>y. \<not> ?P y) (x # es)))"
      using ih(4) unfolding f .
    moreover have "\<not> (threshold \<le> ext_len (fst y) \<or> merges s (fst y))"
      if "\<forall>y \<in> set (x # es). ?P y" "y \<in> set (x # es)" for y
      using ih(5) [OF g [OF that(1)]] that(2) False by (auto simp: x)
    ultimately show ?thesis
      using ih(2,3) ih(5) [OF g] by (intro exI [of _ s'] exI [of _ ?P] conjI) blast+
  qed
qed (auto intro: exI [of _ "\<lambda>_. True"])

lemma release_loop_ok:
  assumes Q: "preserved threshold R Q"
    and "inv s" "Q s" "returnable (bytes s) (map fst es)" "set es \<subseteq> R"
  shows "\<exists>s' P. release_loop merges track threshold s es = Some (s', filter P es) \<and> inv s' \<and> Q s'
     \<and> bytes s' = bytes s \<union> region_bytes (map fst (filter (\<lambda>x. \<not> P x) es))
     \<and> (\<forall>x \<in> set (filter P es). \<not> (threshold \<le> ext_len (fst x) \<or> merges s' (fst x)))"
  using assms(2-)
proof (induction "length es" arbitrary: s es rule: less_induct)
  case less
  obtain s1 P where p: "retain_dropped merges track threshold s es = Some (s1, filter P es)" "inv s1" "Q s1"
    "bytes s1 = bytes s \<union> region_bytes (map fst (filter (\<lambda>x. \<not> P x) es))"
    "(\<forall>x \<in> set es. P x) \<Longrightarrow> s1 = s \<and> (\<forall>x \<in> set es. \<not> (threshold \<le> ext_len (fst x) \<or> merges s (fst x)))"
    using retain_ok [OF Q less.prems] by blast
  show ?case
  proof (cases "\<forall>x \<in> set es. P x")
    case True
    then have "release_loop merges track threshold s es = Some (s1, filter P es)"
      using p(1) by (simp add: release_loop.simps [of _ _ _ s es])
    then show ?thesis using p(2-4) p(5) [OF True] by (intro exI [of _ s1] exI [of _ P]) auto
  next
    case False
    then have shorter: "length (filter P es) < length es"
      by (auto intro: length_filter_less)
    have "returnable (bytes s1) (map fst (filter P es))"
      using returnable_split [OF less.prems(3), of "\<lambda>x. \<not> P x"] by (simp add: p(4))
    moreover have "set (filter P es) \<subseteq> R" using less.prems(4) by auto
    ultimately obtain s' P' where
      q: "release_loop merges track threshold s1 (filter P es) = Some (s', filter P' (filter P es))" "inv s'" "Q s'"
      "bytes s' = bytes s1 \<union> region_bytes (map fst (filter (\<lambda>x. \<not> P' x) (filter P es)))"
      "\<forall>x \<in> set (filter P' (filter P es)). \<not> (threshold \<le> ext_len (fst x) \<or> merges s' (fst x))"
      using less.hyps [OF shorter p(2,3)] by blast
    let ?R = "\<lambda>x. P x \<and> P' x"
    have "release_loop merges track threshold s es = Some (s', filter ?R es)"
      using p(1) q(1) shorter by (simp add: release_loop.simps [of _ _ _ s es])
    moreover have "bytes s' = bytes s \<union> region_bytes (map fst (filter (\<lambda>x. \<not> ?R x) es))"
      unfolding q(4) p(4) by (auto simp: region_bytes_def)
    moreover have "\<forall>x \<in> set (filter ?R es). \<not> (threshold \<le> ext_len (fst x) \<or> merges s' (fst x))"
      using q(5) by simp
    ultimately show ?thesis using q(2,3) by (intro exI [of _ s'] exI [of _ ?R] conjI) blast+
  qed
qed

text \<open>
  Every batch is released, the extents that are not tracked are returned in the order they came,
  none of them is long enough or merges into the final state, and the final state has every
  property that admission preserves.
\<close>

lemma release_each_ok:
  assumes Q: "preserved threshold (set es) Q" and "inv s" "Q s" and ret: "returnable (bytes s) (map fst es)"
  shows "\<exists>s' P. release_each merges track threshold s es = Some (s', filter P es) \<and> inv s' \<and> Q s'
     \<and> bytes s' = bytes s \<union> region_bytes (map fst (filter (\<lambda>x. \<not> P x) es))
     \<and> (\<forall>x \<in> set (filter P es). ext_len (fst x) < threshold \<and> \<not> merges s' (fst x))"
proof -
  let ?small = "\<lambda>x. ext_len (fst x) < threshold"
  let ?big = "filter (\<lambda>x. \<not> ?small x) es"
  have part: "filter (\<lambda>(e, _). ext_len e < threshold) es = filter ?small es"
    "filter (\<lambda>(e, _). \<not> ext_len e < threshold) es = ?big"
    by (auto intro: filter_cong)
  have big: "returnable (bytes s) (map fst ?big)"
    using returnable_mono [OF returnable_split [OF ret, of ?small]] by simp
  have long: "\<forall>x \<in> set ?big. threshold \<le> ext_len (fst x)" by simp
  from track_each_ok [OF Q assms(2,3) big filter_is_subset long] obtain s1 where s1: "track_each track s ?big = Some s1" "inv s1" "Q s1"
    "bytes s1 = bytes s \<union> region_bytes (map fst ?big)"
    by blast
  have "returnable (bytes s1) (map fst (filter ?small es))"
    using returnable_split [OF ret, of "\<lambda>x. \<not> ?small x"] by (simp add: s1(4))
  from release_loop_ok [OF Q s1(2,3) this] obtain s' P where
    p: "release_loop merges track threshold s1 (filter ?small es) = Some (s', filter P (filter ?small es))"
    "inv s'" "Q s'" "bytes s' = bytes s1 \<union> region_bytes (map fst (filter (\<lambda>x. \<not> P x) (filter ?small es)))"
    "\<forall>x \<in> set (filter P (filter ?small es)). \<not> (threshold \<le> ext_len (fst x) \<or> merges s' (fst x))"
    by auto
  let ?R = "\<lambda>x. ?small x \<and> P x"
  have "release_each merges track threshold s es = Some (s', filter ?R es)"
    unfolding release_each_def part Let_def s1(1) using p(1) by simp
  moreover have "bytes s' = bytes s \<union> region_bytes (map fst (filter (\<lambda>x. \<not> ?R x) es))"
    unfolding p(4) s1(4) by (auto simp: region_bytes_def)
  moreover have "\<forall>x \<in> set (filter ?R es). ext_len (fst x) < threshold \<and> \<not> merges s' (fst x)"
    using p(5) by simp
  ultimately show ?thesis using p(2,3) by (intro exI [of _ s'] exI [of _ ?R] conjI) blast+
qed

end

text \<open>Flat lists, where an extent merges exactly if it touches tracked bytes.\<close>

locale touching_space = tracked_space +
  assumes merges_iff: "inv s \<Longrightarrow> wf_extent e \<Longrightarrow> ext_bytes e \<inter> bytes s = {} \<Longrightarrow>
      merges s e \<longleftrightarrow> touches (bytes s) e"
begin

lemma admitted_closed:
  "preserved threshold E (\<lambda>t. bytes t \<subseteq> admitted_bytes B threshold (fst ` E))"
proof -
  let ?R = "fst ` E"
  have "bytes t' \<subseteq> admitted_bytes B threshold ?R"
    if t: "inv t" "bytes t \<subseteq> admitted_bytes B threshold ?R" "(e, c) \<in> E" "wf_extent e"
      "ext_bytes e \<inter> bytes t = {}" and m: "threshold \<le> ext_len e \<or> merges t e" "track t e c = Some t'" for t e c t'
  proof -
    have e: "e \<in> ?R" using t(3) by force
    have "admitted B threshold ?R e"
    proof (cases "threshold \<le> ext_len e")
      case False
      then have "touches (admitted_bytes B threshold ?R) e"
        using m(1) merges_iff [OF t(1,4,5)] touches_mono [OF _ t(2)] by blast
      then consider "touches B e" | d where "admitted B threshold ?R d" "touches (ext_bytes d) e"
        by (auto simp: touches_def admitted_bytes_def)
      then show ?thesis using e by cases (auto intro: admitted.intros)
    qed (use e in \<open>auto intro: admitted.intros\<close>)
    then have "ext_bytes e \<subseteq> admitted_bytes B threshold ?R" using e by (auto simp: admitted_bytes_def)
    then show ?thesis using track_ok [OF t(1,4,5), of c] m(2) t(2) by auto
  qed
  then show ?thesis unfolding preserved_def by blast
qed

lemma release_each_exact:
  assumes "inv s" "returnable (bytes s) (map fst es)"
  shows "\<exists>s'. release_each merges track threshold s es
       = Some (s', filter (\<lambda>x. \<not> admitted (bytes s) threshold (fst ` set es) (fst x)) es)
     \<and> inv s' \<and> bytes s' = admitted_bytes (bytes s) threshold (fst ` set es)"
proof -
  let ?R = "set (map fst es)"
  let ?A = "admitted (bytes s) threshold ?R"
  have R: "fst ` set es = ?R" by simp
  obtain s' P where p: "release_each merges track threshold s es = Some (s', filter P es)" "inv s'"
    "bytes s' = bytes s \<union> region_bytes (map fst (filter (\<lambda>x. \<not> P x) es))"
    "bytes s' \<subseteq> admitted_bytes (bytes s) threshold ?R"
    "\<forall>x \<in> set (filter P es). ext_len (fst x) < threshold \<and> \<not> merges s' (fst x)"
    using release_each_ok [OF admitted_closed assms(1) _ assms(2), of "bytes s" threshold]
    unfolding R by (auto simp: admitted_bytes_def)
  have kept: "returnable (bytes s') (map fst (filter P es))"
    using returnable_split [OF assms(2), of "\<lambda>x. \<not> P x"] by (simp add: p(3))
  have apart: "ext_len (fst x) < threshold \<and> \<not> touches (bytes s') (fst x)"
    if "x \<in> set (filter P es)" for x
    using merges_iff [OF p(2) returnable_mem [OF kept that]] p(5) that by blast
  have joined: "ext_bytes (fst x) \<subseteq> bytes s'" if "x \<in> set es" "\<not> P x" for x
    unfolding p(3) region_bytes_fst using that by auto
  have P: "P x \<longleftrightarrow> \<not> ?A (fst x)" if x: "x \<in> set es" for x
  proof
    assume "P x"
    have "fst x \<notin> fst ` set (filter P es)" if "?A (fst x)"
    proof (rule kept_not_admitted [OF that])
      show "bytes s \<subseteq> bytes s'" by (simp add: p(3))
      show "ext_bytes d \<subseteq> bytes s'" if "d \<in> ?R" "d \<notin> fst ` set (filter P es)" for d
        using that joined by auto
      show "ext_len d < threshold \<and> \<not> touches (bytes s') d" if "d \<in> fst ` set (filter P es)" for d
        using that apart by blast
    qed auto
    then show "\<not> ?A (fst x)" using x \<open>P x\<close> by force
  next
    assume "\<not> ?A (fst x)"
    then show "P x"
      using p(4) joined_admitted [OF assms(2), of "fst x" threshold] joined [OF x] x
      by (metis image_eqI list.set_map order_trans)
  qed
  have "filter P es = filter (\<lambda>x. \<not> ?A (fst x)) es" using P by (intro filter_cong) auto
  moreover have "bytes s' = admitted_bytes (bytes s) threshold ?R"
    unfolding p(3) admitted_bytes_def region_bytes_fst using P by auto
  ultimately show ?thesis using p(1,2) unfolding R by auto
qed

end


interpretation flat: touching_space fl_inv fl_bytes fl_adjoins "fl_track dbg" for dbg
  by unfold_locales (auto simp: fl_track_def touches_def fl_adjoins_iff intro: fl_free_spec)

interpretation indexed_flat: touching_space "idx_inv page" "\<lambda>ix. fl_bytes (idx_list ix)" idx_merges
  "\<lambda>ix e (c :: unit). idx_free ix e" for page
proof
  fix ix e
  assume ix: "idx_inv page ix" "wf_extent e" "ext_bytes e \<inter> fl_bytes (idx_list ix) = {}"
  show "\<exists>ix'. idx_free ix e = Some ix' \<and> idx_inv page ix'
      \<and> fl_bytes (idx_list ix') = fl_bytes (idx_list ix) \<union> ext_bytes e"
    using idx_free_refines [OF ix, of True] fl_free_spec [OF idx_inv_list [OF ix(1)] ix(2), of True] ix(3)
    by auto
  show "idx_merges ix e \<longleftrightarrow> touches (fl_bytes (idx_list ix)) e"
    unfolding idx_merges_refines [OF ix(1)] touches_def by (rule fl_adjoins_iff [OF idx_inv_list [OF ix(1)] ix(2,3)])
qed

end
