(* ===== verification/Admission_Batch.thy ===== *)
theory Admission_Batch
  imports Admission "HOL-Library.Multiset"
begin

text \<open>
  The sweep of \<^verbatim>\<open>FreeList::release_batch\<close> admits what the rule \<open>admitted\<close> says.

  The tracked and returned extents in address order are the \<open>sweep_items\<close>. The state of
  \<^verbatim>\<open>FlatAdmission\<close> describes a division of the items seen so far into runs without gaps
  (\<open>run_state\<close>), each separated from the next by a gap. A run is admitted if an item in it is a
  seed, and touching items share a run, so the admitted returns are those of the seeded runs.
\<close>

type_synonym item = "extent \<times> bool \<times> bool"

abbreviation item_ext :: "item \<Rightarrow> extent" where "item_ext \<equiv> fst"
abbreviation item_seed :: "item \<Rightarrow> bool" where "item_seed x \<equiv> fst (snd x)"
abbreviation item_returned :: "item \<Rightarrow> bool" where "item_returned x \<equiv> snd (snd x)"

abbreviation tracked_item :: "extent \<Rightarrow> item" where "tracked_item e \<equiv> (e, True, False)"
abbreviation returned_item :: "byte_length \<Rightarrow> extent \<Rightarrow> item" where
  "returned_item threshold e \<equiv> (e, threshold \<le> ext_len e, True)"

fun sweep_items :: "byte_length \<Rightarrow> extent list \<Rightarrow> extent list \<Rightarrow> item list" where
  "sweep_items threshold [] [] = []"
| "sweep_items threshold (e # ts) [] = tracked_item e # sweep_items threshold ts []"
| "sweep_items threshold [] (r # rs) = returned_item threshold r # sweep_items threshold [] rs"
| "sweep_items threshold (e # ts) (r # rs) =
     (if ext_start e < ext_start r then tracked_item e # sweep_items threshold ts (r # rs)
      else returned_item threshold r # sweep_items threshold (e # ts) rs)"

fun push_all :: "flat_admission \<Rightarrow> item list \<Rightarrow> flat_admission option" where
  "push_all adm [] = Some adm"
| "push_all adm (x # xs) = do {
     adm \<leftarrow> fa_push adm (item_ext x) (item_seed x) (item_returned x);
     push_all adm xs }"

lemma sweep_push_all:
  "admission_sweep threshold adm ts rs = push_all adm (sweep_items threshold ts rs)"
  by (induction threshold adm ts rs rule: admission_sweep.induct) (auto intro: Option.bind_cong)

lemma set_sweep_items:
  "set (sweep_items threshold ts rs) = tracked_item ` set ts \<union> returned_item threshold ` set rs"
  by (induction threshold ts rs rule: sweep_items.induct) auto

lemma sweep_items_returned:
  "map item_ext (filter item_returned (sweep_items threshold ts rs)) = rs"
  by (induction threshold ts rs rule: sweep_items.induct) auto

lemma sweep_items_ordered:
  assumes "ordered_regions ts" "ordered_regions rs" "region_bytes ts \<inter> region_bytes rs = {}"
  shows "ordered_regions (map item_ext (sweep_items threshold ts rs))"
  using assms
proof (induction threshold ts rs rule: sweep_items.induct)
  case (4 threshold e ts r rs)
  have wf: "wf_extent e" "wf_extent r" and "ext_bytes e \<inter> ext_bytes r = {}" using "4.prems" by auto
  then have er: "ext_end e \<le> ext_start r \<or> ext_end r \<le> ext_start e"
    by (simp add: ext_bytes_disjoint_iff)
  have pos: "ext_start e < ext_end e" "ext_start r < ext_end r" using wf by (auto dest: wf_extentD)
  show ?case
  proof (cases "ext_start e < ext_start r")
    case True
    have "ordered_regions (map item_ext (sweep_items threshold ts (r # rs)))"
      using "4.IH"(1) [OF True] "4.prems" by auto
    moreover have "ext_end e \<le> ext_start x" if "x \<in> set ts \<union> set (r # rs)" for x
      using that "4.prems" er pos True by fastforce
    ultimately show ?thesis using True wf by (auto simp: set_sweep_items)
  next
    case False
    have "ordered_regions (map item_ext (sweep_items threshold (e # ts) rs))"
      using "4.IH"(2) [OF False] "4.prems" by auto
    moreover have "ext_end r \<le> ext_start x" if "x \<in> set (e # ts) \<union> set rs" for x
      using that "4.prems" er pos False by fastforce
    ultimately show ?thesis using False wf by (auto simp: set_sweep_items)
  qed
qed (auto simp: set_sweep_items)

section \<open>Runs\<close>

definition run_seeded :: "item list \<Rightarrow> bool" where
  "run_seeded r \<longleftrightarrow> (\<exists>x \<in> set r. item_seed x)"

definition returned_of :: "item list \<Rightarrow> extent list" where
  "returned_of r = map item_ext (filter item_returned r)"

definition run_extent :: "item list \<Rightarrow> extent" where
  "run_extent r =
     \<lparr>ext_start = ext_start (item_ext (hd r)),
      ext_len = ext_end (item_ext (last r)) - ext_start (item_ext (hd r))\<rparr>"

definition seedless_returns :: "item list list \<Rightarrow> extent list" where
  "seedless_returns rs = concat (map returned_of (filter (\<lambda>r. \<not> run_seeded r) rs))"

text \<open>Consecutive items of a run touch.\<close>

definition gapless :: "item list \<Rightarrow> bool" where
  "gapless r \<longleftrightarrow> (\<forall>(a, b) \<in> set (windows2 r). ext_end (item_ext a) = ext_start (item_ext b))"

definition separated :: "item list list \<Rightarrow> bool" where
  "separated rs \<longleftrightarrow> (\<forall>r \<in> set rs. gapless r) \<and>
     sorted_wrt (\<lambda>r r'. \<forall>x \<in> set r. \<forall>y \<in> set r'. ext_end (item_ext x) < ext_start (item_ext y)) rs"

definition run_state :: "flat_admission \<Rightarrow> item list list \<Rightarrow> item list \<Rightarrow> bool" where
  "run_state adm rs c \<longleftrightarrow>
     fa_admitted adm = map run_extent (filter run_seeded rs)
     \<and> fa_dropped adm = seedless_returns rs @ (if run_seeded c then [] else returned_of c)
     \<and> fa_run adm = (if c = [] then None else Some (run_extent c))
     \<and> fa_seeded adm = run_seeded c
     \<and> fa_pending_start adm = length (seedless_returns rs)
     \<and> (c = [] \<longrightarrow> rs = [])"

lemmas run_defs = run_seeded_def returned_of_def seedless_returns_def

lemma gapless_simps [simp]:
  "gapless []" "gapless [x]"
  "gapless (x # y # r) \<longleftrightarrow> ext_end (item_ext x) = ext_start (item_ext y) \<and> gapless (y # r)"
  by (auto simp: gapless_def)

lemma gapless_snoc:
  "r \<noteq> [] \<Longrightarrow> gapless (r @ [x]) \<longleftrightarrow> gapless r \<and> ext_end (item_ext (last r)) = ext_start (item_ext x)"
proof (induction r)
  case (Cons y r)
  then show ?case by (cases r) auto
qed simp

lemma ordered_hd_last:
  assumes "ordered_regions (map item_ext r)" "x \<in> set r"
  shows "ext_start (item_ext (hd r)) \<le> ext_start (item_ext x)"
    "ext_end (item_ext x) \<le> ext_end (item_ext (last r))"
proof -
  show "ext_start (item_ext (hd r)) \<le> ext_start (item_ext x)"
  proof (cases r)
    case (Cons y ys)
    have "ext_end (item_ext y) \<le> ext_start (item_ext x)" if "x \<in> set ys"
      using that assms(1) by (simp add: Cons)
    then show ?thesis using assms(2) order_trans [OF ext_start_le_end [of "item_ext y"]] by (auto simp: Cons)
  qed (use assms(2) in simp)
  show "ext_end (item_ext x) \<le> ext_end (item_ext (last r))"
  proof (cases r rule: rev_cases)
    case (snoc ys y)
    have "ext_end (item_ext x) \<le> ext_start (item_ext y)" if "x \<in> set ys"
      using that assms(1) by (simp add: snoc ordered_regions_append)
    then show ?thesis using assms(2) order_trans [OF _ ext_start_le_end [of "item_ext y"]] by (auto simp: snoc)
  qed (use assms(2) in simp)
qed

lemma run_extent_end:
  assumes "r \<noteq> []" "ordered_regions (map item_ext r)"
  shows "ext_end (run_extent r) = ext_end (item_ext (last r))" "wf_extent (run_extent r)"
proof -
  have "wf_extent (item_ext (last r))"
    using assms by (simp add: ordered_regions_def)
  then have "ext_start (item_ext (hd r)) < ext_end (item_ext (last r))"
    "ext_end (item_ext (last r)) \<le> u64_max"
    using ordered_hd_last(1) [OF assms(2), of "last r"] assms(1) by (auto dest: wf_extentD)
  then show "ext_end (run_extent r) = ext_end (item_ext (last r))" "wf_extent (run_extent r)"
    by (simp_all add: run_extent_def)
qed

lemma run_extent_bytes:
  assumes "r \<noteq> []" "gapless r" "ordered_regions (map item_ext r)"
  shows "ext_bytes (run_extent r) = region_bytes (map item_ext r)"
  using assms
proof (induction r rule: rev_induct)
  case (snoc x r)
  show ?case
  proof (cases "r = []")
    case True
    then show ?thesis by (auto simp: run_extent_def ext_bytes_def ext_end_def)
  next
    case False
    have o: "ordered_regions (map item_ext r)" "wf_extent (item_ext x)"
      using snoc.prems(3) by (auto simp: ordered_regions_append)
    have g: "gapless r" "ext_end (item_ext (last r)) = ext_start (item_ext x)"
      using snoc.prems(2) False by (simp_all add: gapless_snoc)
    have "ext_start (item_ext (hd r)) \<le> ext_start (item_ext x)"
      using ordered_hd_last(1) [OF o(1), of "last r"] False g(2) ext_start_le_end [of "item_ext (last r)"]
      by simp
    then have "ext_bytes (run_extent (r @ [x])) = ext_bytes (run_extent r) \<union> ext_bytes (item_ext x)"
      using False g(2) by (auto simp: run_extent_def ext_bytes_def ext_end_def [of "item_ext x"])
    then show ?thesis using snoc.IH [OF False g(1) o(1)] by auto
  qed
qed simp


section \<open>The sweep keeps the division into runs\<close>

lemma finish_run_state:
  assumes "run_state adm rs c" "c \<noteq> []"
  shows "fa_admitted (finish_run adm) = map run_extent (filter run_seeded (rs @ [c]))"
    "fa_dropped (finish_run adm) = seedless_returns (rs @ [c])"
    "fa_run (finish_run adm) = None" "\<not> fa_seeded (finish_run adm)"
    "fa_pending_start (finish_run adm) = length (seedless_returns (rs @ [c]))"
  using assms by (simp_all add: run_state_def finish_run_def seedless_returns_def Let_def)

lemma run_seeded_snoc: "run_seeded (c @ [x]) \<longleftrightarrow> run_seeded c \<or> item_seed x"
  by (auto simp: run_seeded_def)

lemma returned_of_snoc:
  "returned_of (c @ [x]) = returned_of c @ (if item_returned x then [item_ext x] else [])"
  by (simp add: returned_of_def)

lemma separated_snoc:
  "separated (rs @ [c]) \<longleftrightarrow> separated rs \<and> gapless c
     \<and> (\<forall>r \<in> set rs. \<forall>x \<in> set r. \<forall>y \<in> set c. ext_end (item_ext x) < ext_start (item_ext y))"
  unfolding separated_def by (auto simp: sorted_wrt_append)

lemma push_gap:
  assumes "run_state adm rs c" "c \<noteq> []" "ext_end (run_extent c) < ext_start (item_ext x)"
  shows "\<exists>adm'. fa_push adm (item_ext x) (item_seed x) (item_returned x) = Some adm'
     \<and> run_state adm' (rs @ [c]) [x]"
proof -
  note f = finish_run_state [OF assms(1,2)]
  have "fa_run adm = Some (run_extent c)" using assms(1,2) by (simp add: run_state_def)
  moreover have "run_extent [x] = item_ext x"
    by (simp add: run_extent_def ext_end_def)
  ultimately show ?thesis
    using f assms(3) by (simp add: fa_push_def run_state_def Let_def run_seeded_def returned_of_def)
qed

lemma push_touch:
  assumes "run_state adm rs c" "c \<noteq> []" "ordered_regions (map item_ext (c @ [x]))"
    and "ext_end (run_extent c) = ext_start (item_ext x)"
  shows "\<exists>adm'. fa_push adm (item_ext x) (item_seed x) (item_returned x) = Some adm'
     \<and> run_state adm' rs (c @ [x])"
proof -
  have "fa_run adm = Some (run_extent c)" using assms(1,2) by (simp add: run_state_def)
  moreover have "ext_between (ext_start (run_extent c)) (ext_end (item_ext x)) = Some (run_extent (c @ [x]))"
    using run_extent_end [of "c @ [x]"] assms(2,3) wf_extentD [of "run_extent (c @ [x])"]
    by (simp add: run_extent_def)
  ultimately show ?thesis
    using assms(1,2,4)
    by (simp add: fa_push_def run_state_def Let_def run_seeded_snoc returned_of_snoc assert_that_def
        del: ext_between_Some)
qed

lemma push_start:
  assumes "run_state adm [] []"
  shows "\<exists>adm'. fa_push adm (item_ext x) (item_seed x) (item_returned x) = Some adm'
     \<and> run_state adm' [] [x]"
proof -
  have "run_extent [x] = item_ext x" by (simp add: run_extent_def ext_end_def)
  then show ?thesis
    using assms by (simp add: fa_push_def run_state_def Let_def seedless_returns_def run_seeded_def returned_of_def)
qed

lemma push_step:
  assumes st: "run_state adm rs c" "separated (rs @ [c])"
    and o: "ordered_regions (map item_ext (concat rs @ c @ [x]))"
  shows "\<exists>adm' rs' c'. fa_push adm (item_ext x) (item_seed x) (item_returned x) = Some adm'
     \<and> run_state adm' rs' c' \<and> separated (rs' @ [c']) \<and> concat rs' @ c' = concat rs @ c @ [x]"
proof (cases "c = []")
  case True
  then have "rs = []" using st(1) by (simp add: run_state_def)
  with True push_start [of adm x] st(1) show ?thesis
    by (auto simp: separated_def intro!: exI [of _ "[]"] exI [of _ "[x]"])
next
  case False
  have oc: "ordered_regions (map item_ext c)" "ordered_regions (map item_ext (c @ [x]))"
    using o by (simp_all add: ordered_regions_append)
  have en: "ext_end (run_extent c) = ext_end (item_ext (last c))" by (rule run_extent_end [OF False oc(1)])
  have le: "ext_end (run_extent c) \<le> ext_start (item_ext x)"
    using oc(2) False unfolding en by (simp add: ordered_regions_append)
  have before: "ext_end (item_ext y) < ext_start (item_ext x)" if "r \<in> set rs" "y \<in> set r" for r y
  proof -
    have "ext_end (item_ext y) < ext_start (item_ext (last c))"
      using st(2) that False by (simp add: separated_snoc)
    also have "\<dots> \<le> ext_start (item_ext x)" using le unfolding en by (rule order_trans [OF ext_start_le_end])
    finally show ?thesis .
  qed
  show ?thesis
  proof (cases "ext_end (run_extent c) < ext_start (item_ext x)")
    case True
    have "ext_end (item_ext y) < ext_start (item_ext x)" if "y \<in> set c" for y
      using ordered_hd_last(2) [OF oc(1) that] True unfolding en by simp
    with before have "separated ((rs @ [c]) @ [[x]])"
      using st(2) unfolding separated_snoc [of "rs @ [c]"] by simp
    then show ?thesis
      using push_gap [OF st(1) False True] by (auto intro!: exI [of _ "rs @ [c]"] exI [of _ "[x]"])
  next
    case touch: False
    then have eq: "ext_end (run_extent c) = ext_start (item_ext x)" using le by simp
    have "separated (rs @ [c @ [x]])"
      using st(2) before eq False unfolding separated_snoc by (auto simp: gapless_snoc en)
    then show ?thesis
      using push_touch [OF st(1) False oc(2) eq] by (auto intro!: exI [of _ rs] exI [of _ "c @ [x]"])
  qed
qed

lemma push_all_runs:
  assumes "run_state adm rs c" "separated (rs @ [c])" "ordered_regions (map item_ext (concat rs @ c @ xs))"
  shows "\<exists>adm' rs' c'. push_all adm xs = Some adm' \<and> run_state adm' rs' c' \<and> separated (rs' @ [c'])
     \<and> concat rs' @ c' = concat rs @ c @ xs"
  using assms
proof (induction xs arbitrary: adm rs c)
  case (Cons x xs)
  have "ordered_regions (map item_ext (concat rs @ c @ [x]))"
    using Cons.prems(3) by (auto simp: ordered_regions_append)
  from push_step [OF Cons.prems(1,2) this] obtain adm1 rs1 c1 where
    s: "fa_push adm (item_ext x) (item_seed x) (item_returned x) = Some adm1" "run_state adm1 rs1 c1"
      "separated (rs1 @ [c1])" and eq: "concat rs1 @ c1 = concat rs @ c @ [x]"
    by blast
  have "concat rs1 @ c1 @ xs = concat rs @ c @ x # xs" using eq by (metis append.assoc append_Cons append_Nil)
  from Cons.IH [OF s(2,3), unfolded this, OF Cons.prems(3)] show ?case using s(1) by simp
qed auto

lemma sweep_runs:
  assumes "ordered_regions (map item_ext xs)"
  shows "\<exists>adm rs. push_all fa_default xs = Some adm \<and> separated rs \<and> concat rs = xs
     \<and> fa_admitted (finish_run adm) = map run_extent (filter run_seeded rs)
     \<and> fa_dropped (finish_run adm) = seedless_returns rs"
proof (cases "xs = []")
  case True
  then show ?thesis
    by (auto simp: finish_run_def fa_default_def Let_def seedless_returns_def separated_def intro!: exI [of _ "[]"])
next
  case False
  have "run_state fa_default [] []" "separated ([] @ [[]])"
    by (simp_all add: run_state_def fa_default_def run_defs separated_def)
  from push_all_runs [OF this, of xs] assms obtain adm rs c where
    r: "push_all fa_default xs = Some adm" "run_state adm rs c" "separated (rs @ [c])" "concat rs @ c = xs"
    by auto
  have "c \<noteq> []" using r(2,4) False by (auto simp: run_state_def)
  from finish_run_state(1,2) [OF r(2) this] show ?thesis
    using r by (intro exI [of _ adm] exI [of _ "rs @ [c]"]) simp
qed


section \<open>Runs and the rule\<close>

lemma gapless_spread:
  assumes "gapless r" "x \<in> set r" "P x"
    and "\<And>a b. a \<in> set r \<Longrightarrow> b \<in> set r \<Longrightarrow> ext_end (item_ext a) = ext_start (item_ext b) \<Longrightarrow> P a = P b"
  shows "\<forall>y \<in> set r. P y"
  using assms
proof (induction r arbitrary: x)
  case (Cons a r)
  show ?case
  proof (cases r)
    case Nil
    then show ?thesis using Cons.prems(2,3) by simp
  next
    case (Cons b r')
    have g: "gapless r" and ab: "P a = P b"
      using Cons.prems(1) Cons.prems(4) [of a b] by (simp_all add: Cons)
    have "\<exists>y \<in> set r. P y" using Cons.prems(2,3) ab by (auto simp: Cons)
    then obtain y where y: "y \<in> set r" "P y" by blast
    have "\<forall>z \<in> set r. P z" by (rule Cons.IH [OF g y]) (use Cons.prems(4) in simp)
    then show ?thesis using ab by (simp add: Cons)
  qed
qed simp

lemma touching_same_run:
  assumes "separated rs" "ordered_regions (map item_ext (concat rs))"
    and "x \<in> set r" "y \<in> set r'" "r \<in> set rs" "r' \<in> set rs"
    and "ext_end (item_ext x) = ext_start (item_ext y)"
  shows "r = r'"
proof (rule ccontr)
  assume "r \<noteq> r'"
  then obtain i j where ij: "i < length rs" "j < length rs" "rs ! i = r" "rs ! j = r'" "i \<noteq> j"
    using assms(5,6) by (auto simp: in_set_conv_nth)
  have "wf_extent (item_ext z)" if "z \<in> set (concat rs)" for z
    by (rule ordered_wf [OF assms(2)]) (use that in simp)
  then have pos: "ext_start (item_ext z) < ext_end (item_ext z)" if "z \<in> set (concat rs)" for z
    using that wf_extentD(2) by blast
  have sep: "sorted_wrt (\<lambda>r r'. \<forall>x \<in> set r. \<forall>y \<in> set r'. ext_end (item_ext x) < ext_start (item_ext y)) rs"
    using assms(1) by (simp add: separated_def)
  consider "i < j" | "j < i" using ij(5) by linarith
  then show False
  proof cases
    case 1
    then have "ext_end (item_ext x) < ext_start (item_ext y)"
      using sorted_wrt_nth_less [OF sep 1 ij(2)] assms(3,4) ij(3,4) by blast
    then show False using assms(7) by simp
  next
    case 2
    then have "ext_end (item_ext y) < ext_start (item_ext x)"
      using sorted_wrt_nth_less [OF sep 2 ij(1)] assms(3,4) ij(3,4) by blast
    moreover have "ext_start (item_ext x) < ext_end (item_ext x)" "ext_start (item_ext y) < ext_end (item_ext y)"
      using pos [of x] pos [of y] assms(3-6) by auto
    ultimately show False using assms(7) by linarith
  qed
qed

lemma touches_ext:
  assumes "wf_extent d" "wf_extent e" "ext_bytes d \<inter> ext_bytes e = {}"
  shows "touches (ext_bytes d) e \<longleftrightarrow> ext_end d = ext_start e \<or> ext_end e = ext_start d"
  using assms(3) wf_extentD(2) [OF assms(1)] wf_extentD(2) [OF assms(2)]
  unfolding ext_bytes_disjoint_iff [OF assms(1,2)] by (auto simp: touches_def ext_bytes_def)

lemma touches_region:
  "touches (region_bytes ts) e \<longleftrightarrow> (\<exists>t \<in> set ts. touches (ext_bytes t) e)"
  by (auto simp: touches_def region_bytes_def)


lemma touches_neighbour:
  assumes "wf_extent d"
  shows "ext_end d = ext_start e \<Longrightarrow> touches (ext_bytes d) e"
    "ext_end e = ext_start d \<Longrightarrow> touches (ext_bytes d) e"
  using wf_extentD(2) [OF assms] by (auto simp: touches_def ext_bytes_def)

lemma returnable_touch:
  assumes "returnable B es" "d \<in> set es" "e \<in> set es" "touches (ext_bytes d) e"
  shows "ext_end d = ext_start e \<or> ext_end e = ext_start d"
proof (cases "d = e")
  case True
  then have "touches (ext_bytes e) e" using assms(4) by simp
  then show ?thesis by (auto simp: touches_def ext_bytes_def)
next
  case False
  then have "ext_bytes d \<inter> ext_bytes e = {}" using returnable_inj [OF assms(1-3)] by blast
  moreover have "wf_extent d" "wf_extent e" using assms(1-3) by (auto simp: returnable_def)
  ultimately show ?thesis using assms(4) by (simp add: touches_ext)
qed

lemma admitted_seeded:
  assumes "ordered_regions ts" "returnable (region_bytes ts) es"
    and rs: "separated rs" "concat rs = sweep_items threshold ts es"
    and o: "ordered_regions (map item_ext (concat rs))"
    and "admitted (region_bytes ts) threshold (set es) e"
  shows "r \<in> set rs \<Longrightarrow> returned_item threshold e \<in> set r \<Longrightarrow> run_seeded r"
  using assms(6)
proof (induction arbitrary: r rule: admitted.induct)
  case (admitted_long e)
  then show ?case by (force simp: run_seeded_def)
next
  case (admitted_touch e)
  then obtain t where t: "t \<in> set ts" "touches (ext_bytes t) e" by (auto simp: touches_region)
  have "wf_extent e" "ext_bytes e \<inter> region_bytes ts = {}"
    using assms(2) admitted_touch(1) by (simp_all add: returnable_def)
  then have wf: "wf_extent t" "wf_extent e" "ext_bytes t \<inter> ext_bytes e = {}"
    using ordered_wf [OF assms(1) t(1)] ext_bytes_subset_region [OF t(1)] by auto
  have "tracked_item t \<in> set (concat rs)" using t(1) by (simp add: rs(2) set_sweep_items)
  then obtain r' where r': "r' \<in> set rs" "tracked_item t \<in> set r'" by auto
  have "r = r' \<or> r' = r"
    using touching_same_run [OF rs(1) o r'(2) admitted_touch.prems(2) r'(1) admitted_touch.prems(1)]
      touching_same_run [OF rs(1) o admitted_touch.prems(2) r'(2) admitted_touch.prems(1) r'(1)]
      t(2) touches_ext [OF wf] by auto
  then show ?case using r'(2) by (force simp: run_seeded_def)
next
  case (admitted_chain e d)
  have d: "d \<in> set es" by (rule admitted_member [OF admitted_chain.hyps(2)])
  then have "returned_item threshold d \<in> set (concat rs)" by (simp add: rs(2) set_sweep_items)
  then obtain r' where r': "r' \<in> set rs" "returned_item threshold d \<in> set r'" by auto
  have "r = r' \<or> r' = r"
    using touching_same_run [OF rs(1) o r'(2) admitted_chain.prems(2) r'(1) admitted_chain.prems(1)]
      touching_same_run [OF rs(1) o admitted_chain.prems(2) r'(2) admitted_chain.prems(1) r'(1)]
      returnable_touch [OF assms(2) d admitted_chain.hyps(1,3)] by auto
  then show ?case using admitted_chain.IH [OF r'] by auto
qed

lemma seeded_admitted:
  assumes "ordered_regions ts" "returnable (region_bytes ts) es"
    and rs: "separated rs" "concat rs = sweep_items threshold ts es"
    and r: "r \<in> set rs" "run_seeded r" and x: "x \<in> set r" "item_returned x"
  shows "admitted (region_bytes ts) threshold (set es) (item_ext x)"
proof -
  let ?A = "admitted (region_bytes ts) threshold (set es)"
  let ?P = "\<lambda>y. item_returned y \<longrightarrow> ?A (item_ext y)"
  have mem: "y \<in> tracked_item ` set ts \<or> y \<in> returned_item threshold ` set es" if "y \<in> set r" for y
    using that r(1) set_sweep_items [of threshold ts es] by (auto simp flip: rs(2))
  have wf: "wf_extent (item_ext y)" if "y \<in> set r" for y
    using mem [OF that] assms(1,2) ordered_wf by (auto simp: returnable_def)
  have one: "?P b" if ab: "a \<in> set r" "b \<in> set r" "touches (ext_bytes (item_ext a)) (item_ext b)" "?P a" for a b
  proof
    assume "item_returned b"
    then have b: "item_ext b \<in> set es" using mem [OF ab(2)] by auto
    show "?A (item_ext b)"
    proof (cases "item_returned a")
      case True
      then show ?thesis using admitted_chain [OF b _ ab(3)] ab(4) by blast
    next
      case False
      then have "item_ext a \<in> set ts" using mem [OF ab(1)] by auto
      then have "touches (region_bytes ts) (item_ext b)" using ab(3) touches_region by blast
      then show ?thesis by (rule admitted_touch [OF b])
    qed
  qed
  obtain s where s: "s \<in> set r" "item_seed s" using r(2) by (auto simp: run_seeded_def)
  have "?P s" using mem [OF s(1)] s(2) by (auto intro: admitted_long)
  moreover have "?P a = ?P b"
    if "a \<in> set r" "b \<in> set r" "ext_end (item_ext a) = ext_start (item_ext b)" for a b
    using one [OF that(1,2) touches_neighbour(1) [OF wf [OF that(1)] that(3)]]
      one [OF that(2,1) touches_neighbour(2) [OF wf [OF that(2)] that(3)]] by blast
  moreover have "gapless r" using rs(1) r(1) by (simp add: separated_def)
  ultimately have "\<forall>y \<in> set r. ?P y" using gapless_spread [of r s ?P] s(1) by blast
  then show ?thesis using x by blast
qed

section \<open>The result of the sweep\<close>

lemma seedless_returns_filter:
  assumes "\<And>r x. r \<in> set rs \<Longrightarrow> x \<in> set r \<Longrightarrow> item_returned x \<Longrightarrow> Q (item_ext x) \<longleftrightarrow> run_seeded r"
  shows "seedless_returns rs = filter (\<lambda>e. \<not> Q e) (map item_ext (filter item_returned (concat rs)))"
  using assms
proof (induction rs)
  case (Cons r rs)
  have "filter (\<lambda>e. \<not> Q e) (returned_of r) = (if run_seeded r then [] else returned_of r)"
    using Cons.prems [of r] by (auto simp: returned_of_def filter_empty_conv filter_id_conv)
  moreover have "seedless_returns rs = filter (\<lambda>e. \<not> Q e) (map item_ext (filter item_returned (concat rs)))"
    by (rule Cons.IH) (use Cons.prems in auto)
  ultimately show ?case by (simp add: seedless_returns_def returned_of_def)
qed (simp add: seedless_returns_def)

lemma run_extents_ordered:
  assumes "separated rs" "ordered_regions (map item_ext (concat rs))" "\<forall>r \<in> set rs. r \<noteq> []"
  shows "ordered_regions (map run_extent rs)
     \<and> region_bytes (map run_extent rs) = region_bytes (map item_ext (concat rs))"
  using assms
proof (induction rs)
  case (Cons r rs)
  have sep: "separated rs" "gapless r"
    and gap: "\<And>r' x y. r' \<in> set rs \<Longrightarrow> x \<in> set r \<Longrightarrow> y \<in> set r' \<Longrightarrow> ext_end (item_ext x) < ext_start (item_ext y)"
    using Cons.prems(1) by (auto simp: separated_def)
  have o: "ordered_regions (map item_ext r)" "ordered_regions (map item_ext (concat rs))" and ne: "r \<noteq> []"
    using Cons.prems(2,3) by (simp_all add: ordered_regions_append)
  have "ext_end (run_extent r) \<le> ext_start (run_extent r')" if r': "r' \<in> set rs" for r'
  proof -
    have "r' \<noteq> []" using Cons.prems(3) r' by simp
    then have "ext_end (item_ext (last r)) < ext_start (item_ext (hd r'))"
      using gap [OF r', of "last r" "hd r'"] ne by simp
    then show ?thesis using run_extent_end(1) [OF ne o(1)] by (simp add: run_extent_def)
  qed
  then show ?case
    using Cons.IH [OF sep(1) o(2)] Cons.prems(3) run_extent_end(2) [OF ne o(1)]
      run_extent_bytes [OF ne sep(2) o(1)] by simp
qed simp


lemma ordered_concat_filter:
  assumes "ordered_regions (map item_ext (concat rs))"
  shows "ordered_regions (map item_ext (concat (filter P rs)))"
  using assms by (induction rs) (auto simp: ordered_regions_append)

lemma seeded_bytes:
  assumes "concat rs = sweep_items threshold ts es"
    and iff: "\<And>r x. r \<in> set rs \<Longrightarrow> x \<in> set r \<Longrightarrow> item_returned x \<Longrightarrow>
      admitted (region_bytes ts) threshold (set es) (item_ext x) \<longleftrightarrow> run_seeded r"
  shows "region_bytes (map item_ext (concat (filter run_seeded rs)))
     = admitted_bytes (region_bytes ts) threshold (set es)" (is "?L = ?R")
proof
  have mem: "x \<in> tracked_item ` set ts \<or> x \<in> returned_item threshold ` set es"
    if "x \<in> set r" "r \<in> set rs" for x r
    using that set_sweep_items [of threshold ts es] by (auto simp flip: assms(1))
  have "ext_bytes (item_ext x) \<subseteq> ?R" if x: "x \<in> set r" "r \<in> set rs" "run_seeded r" for x r
    using mem [OF x(1,2)] iff [OF x(2,1)] x(3) ext_bytes_subset_region
    unfolding admitted_bytes_def by fastforce
  then show "?L \<subseteq> ?R" unfolding region_bytes_def by fastforce
  have run: "\<exists>r \<in> set rs. x \<in> set r" if "x \<in> tracked_item ` set ts \<union> returned_item threshold ` set es" for x
    using that set_sweep_items [of threshold ts es] by (auto simp flip: assms(1))
  have "ext_bytes t \<subseteq> ?L" if t: "t \<in> set ts" for t
  proof -
    obtain r where r: "r \<in> set rs" "tracked_item t \<in> set r" using run [of "tracked_item t"] t by auto
    then have "run_seeded r" unfolding run_seeded_def by force
    then show ?thesis using r unfolding region_bytes_def by force
  qed
  moreover have "ext_bytes e \<subseteq> ?L" if e: "e \<in> set es" "admitted (region_bytes ts) threshold (set es) e" for e
  proof -
    obtain r where r: "r \<in> set rs" "returned_item threshold e \<in> set r" using run [of "returned_item threshold e"] e by auto
    then have "run_seeded r" using iff [OF r] e(2) by simp
    then show ?thesis using r unfolding region_bytes_def by force
  qed
  ultimately show "?R \<subseteq> ?L" unfolding admitted_bytes_def region_bytes_def [of ts] by blast
qed

lemma admission_sweep_exact:
  assumes ts: "ordered_regions ts" and es: "ordered_regions es" and ret: "returnable (region_bytes ts) es"
  shows "\<exists>adm. admission_sweep threshold fa_default ts es = Some adm
     \<and> fa_dropped (finish_run adm) = filter (\<lambda>e. \<not> admitted (region_bytes ts) threshold (set es) e) es
     \<and> ordered_regions (fa_admitted (finish_run adm))
     \<and> region_bytes (fa_admitted (finish_run adm)) = admitted_bytes (region_bytes ts) threshold (set es)"
proof -
  let ?its = "sweep_items threshold ts es"
  let ?A = "admitted (region_bytes ts) threshold (set es)"
  have "region_bytes ts \<inter> region_bytes es = {}"
    using ret by (auto simp: returnable_def region_bytes_def)
  then have o: "ordered_regions (map item_ext ?its)" by (rule sweep_items_ordered [OF ts es])
  from sweep_runs [OF o] obtain adm rs where r: "push_all fa_default ?its = Some adm" "separated rs"
    "concat rs = ?its" "fa_admitted (finish_run adm) = map run_extent (filter run_seeded rs)"
    "fa_dropped (finish_run adm) = seedless_returns rs" by blast
  have iff: "?A (item_ext x) \<longleftrightarrow> run_seeded r" if x: "r \<in> set rs" "x \<in> set r" "item_returned x" for r x
  proof -
    have "x \<in> set ?its" using x(1,2) by (auto simp flip: r(3))
    then have "x = returned_item threshold (item_ext x)" using x(3) by (auto simp: set_sweep_items)
    then show ?thesis
      using admitted_seeded [OF ts ret r(2,3), of "item_ext x" r] o x
        seeded_admitted [OF ts ret r(2,3) x(1) _ x(2,3)] unfolding r(3) by metis
  qed
  let ?S = "filter run_seeded rs"
  have S: "separated ?S" "ordered_regions (map item_ext (concat ?S))" "\<forall>r \<in> set ?S. r \<noteq> []"
    using r(2) o by (auto simp: separated_def sorted_wrt_filter run_seeded_def ordered_concat_filter simp flip: r(3))
  have "region_bytes (map item_ext (concat ?S)) = admitted_bytes (region_bytes ts) threshold (set es)"
    by (rule seeded_bytes [OF r(3) iff])
  then show ?thesis
    using run_extents_ordered [OF S] r(1,4,5) seedless_returns_filter [of rs ?A, OF iff]
    by (simp add: sweep_push_all r(3) sweep_items_returned)
qed


section \<open>Ordering the returned extents\<close>

lemma windows2_ordered:
  assumes "\<forall>e \<in> set es. wf_extent e"
  shows "ordered_regions es \<longleftrightarrow> (\<forall>(a, b) \<in> set (windows2 es). ext_end a \<le> ext_start b)"
  using assms
proof (induction es rule: induct_list012)
  case (3 a b es)
  have "ext_end a \<le> ext_start r" if "ext_end a \<le> ext_start b" "ordered_regions (b # es)" "r \<in> set es" for r
    using that wf_extentD(2) [of b] "3.prems" by fastforce
  then show ?case using "3.IH"(2) "3.prems" by auto
qed simp_all

lemma windows2_sorted:
  "sorted (map f es) \<longleftrightarrow> list_all (\<lambda>(a, b). f a \<le> f b) (windows2 es)"
  by (induction es rule: induct_list012) auto

lemma windows2_map: "windows2 (map f xs) = map (\<lambda>(a, b). (f a, f b)) (windows2 xs)"
  by (induction xs rule: induct_list012) auto

lemma disjoint_all_mset:
  assumes "\<forall>S \<in> set Ss. finite S" "mset Ss = mset Ts"
  shows "disjoint_all Ss \<longleftrightarrow> disjoint_all Ts"
proof -
  have "set Ss = set Ts" using assms(2) by (rule mset_eq_setD)
  moreover have "sum_list (map card Ss) = sum_list (map card Ts)"
    using assms(2) by (metis mset_map sum_mset_sum_list)
  ultimately show ?thesis using assms(1) disjoint_all_card(2) [of Ss] disjoint_all_card(2) [of Ts] by simp
qed

lemma ordered_disjoint_all: "ordered_regions es \<Longrightarrow> disjoint_all (map ext_bytes es)"
proof (induction es)
  case (Cons e es)
  then show ?case using ordered_head_disjoint [OF Cons.prems] by (auto simp: region_bytes_def)
qed simp

lemma sorted_disjoint_ordered:
  assumes "sorted (map ext_start es)" "\<forall>e \<in> set es. wf_extent e" "disjoint_all (map ext_bytes es)"
  shows "ordered_regions es"
  using assms
proof (induction es)
  case (Cons e es)
  have "ext_end e \<le> ext_start r" if r: "r \<in> set es" for r
  proof -
    have "ext_bytes e \<inter> ext_bytes r = {}" using Cons.prems(3) r by auto
    moreover have "ext_start e \<le> ext_start r" using Cons.prems(1) r by simp
    ultimately show ?thesis
      using ext_bytes_disjoint_iff [of e r] wf_extentD(2) [of r] Cons.prems(2) r by auto
  qed
  then show ?case using Cons by simp
qed simp

lemma find_SomeD: "find P xs = Some x \<Longrightarrow> x \<in> set xs \<and> P x"
  by (auto simp: find_Some_iff)

lemma ordered_returns_new_eq:
  "ordered_returns_new es =
     (let s = sort_key (\<lambda>x. ext_start (fst x)) es in
      case find (\<lambda>(a, b). ext_start (fst b) < ext_end (fst a)) (windows2 s) of
        None \<Rightarrow> Inr s | Some (a, b) \<Rightarrow> Inl (Overlap (fst a) (fst b)))"
proof (cases "sorted (map (\<lambda>x. ext_start (fst x)) es)")
  case True
  then show ?thesis
    using windows2_sorted [of "\<lambda>x. ext_start (fst x)" es]
    by (simp add: ordered_returns_new_def sort_key_id_if_sorted)
next
  case False
  then show ?thesis
    using windows2_sorted [of "\<lambda>x. ext_start (fst x)" es] by (simp add: ordered_returns_new_def)
qed

text \<open>Exactly the disjoint batches are accepted, and they come out in address order.\<close>

lemma ordered_returns_new_iff:
  assumes wf: "\<forall>x \<in> set es. wf_extent (fst x)"
  defines "s \<equiv> sort_key (\<lambda>x. ext_start (fst x)) es"
  shows "disjoint_all (map ext_bytes (map fst es)) \<Longrightarrow> ordered_returns_new es = Inr s \<and> ordered_regions (map fst s)"
    and "\<not> disjoint_all (map ext_bytes (map fst es)) \<Longrightarrow> \<exists>a b. ordered_returns_new es = Inl (Overlap a b)
      \<and> a \<in> fst ` set es \<and> b \<in> fst ` set es \<and> ext_bytes a \<inter> ext_bytes b \<noteq> {}"
proof -
  let ?bad = "\<lambda>(a, b). ext_start (fst b) < ext_end (fst a)"
  note eq = ordered_returns_new_eq [of es, folded s_def]
  have srt: "sorted (map ext_start (map fst s))" by (simp add: s_def comp_def)
  have ms: "mset (map ext_bytes (map fst s)) = mset (map ext_bytes (map fst es))"
    by (simp add: s_def)
  have wfs: "\<forall>e \<in> set (map fst s). wf_extent e" using wf by (simp add: s_def)
  have dj: "disjoint_all (map ext_bytes (map fst s)) \<longleftrightarrow> disjoint_all (map ext_bytes (map fst es))"
    by (rule disjoint_all_mset [OF _ ms]) auto
  have ord: "ordered_regions (map fst s) \<longleftrightarrow> disjoint_all (map ext_bytes (map fst es))"
    using sorted_disjoint_ordered [OF srt wfs] ordered_disjoint_all dj by blast
  have w: "ordered_regions (map fst s) \<longleftrightarrow> find ?bad (windows2 s) = None"
    unfolding windows2_ordered [OF wfs] find_None_iff by (force simp: windows2_map not_less)
  show "ordered_returns_new es = Inr s \<and> ordered_regions (map fst s)"
    if "disjoint_all (map ext_bytes (map fst es))"
    using that ord w eq by (simp add: Let_def)
  show "\<exists>a b. ordered_returns_new es = Inl (Overlap a b)
      \<and> a \<in> fst ` set es \<and> b \<in> fst ` set es \<and> ext_bytes a \<inter> ext_bytes b \<noteq> {}"
    if overlap: "\<not> disjoint_all (map ext_bytes (map fst es))"
  proof -
    obtain a b where ab: "find ?bad (windows2 s) = Some (a, b)"
      using overlap ord w by (cases "find ?bad (windows2 s)") auto
    have bad: "ext_start (fst b) < ext_end (fst a)" and mem: "(a, b) \<in> set (windows2 s)"
      using find_SomeD [OF ab] by simp_all
    have le: "ext_start (fst a) \<le> ext_start (fst b)"
      using srt mem windows2_sorted [of "\<lambda>x. ext_start (fst x)" s] by (auto simp: list_all_iff comp_def)
    have "a \<in> set s" "b \<in> set s"
      using mem set_zip_leftD [of a b s "tl s"] set_zip_rightD [of a b s "tl s"]
      by (auto simp: windows2_def dest: list.set_sel(2) [rotated])
    then have in_es: "a \<in> set es" "b \<in> set es" by (simp_all add: s_def)
    have "ext_start (fst b) \<in> ext_bytes (fst a) \<inter> ext_bytes (fst b)"
      using le bad wf in_es ext_start_in_bytes [of "fst b"] by (auto simp: ext_bytes_def)
    then show ?thesis using eq ab in_es by (auto simp: Let_def)
  qed
qed


lemma sort_key_map_pair:
  "sort_key (\<lambda>x. f (fst x)) (map (\<lambda>e. (e, ())) es) = map (\<lambda>e. (e, ())) (sort_key f es)"
proof -
  have "insort_key (\<lambda>x. f (fst x)) (a, ()) (map (\<lambda>e. (e, ())) ds) = map (\<lambda>e. (e, ())) (insort_key f a ds)"
    for a ds by (induction ds) auto
  then show ?thesis by (induction es) auto
qed

section \<open>Releasing a batch\<close>

lemma admitted_empty: "\<not> admitted B threshold {} e"
  by (auto dest: admitted_member)

lemma admitted_single:
  "admitted B threshold {e} e \<longleftrightarrow> threshold \<le> ext_len e \<or> touches B e"
proof
  assume "admitted B threshold {e} e"
  then show "threshold \<le> ext_len e \<or> touches B e"
  proof cases
    case (admitted_chain d)
    then have "d = e" by (auto dest: admitted_member)
    then show ?thesis using admitted_chain by (auto simp: touches_def ext_bytes_def)
  qed auto
qed (auto intro: admitted.intros)

lemma fl_release_single:
  assumes "fl_inv l" "returnable (fl_bytes l) [e]"
  shows "\<exists>l'. fl_release_batch dbg l threshold [e]
       = Some (l', filter (\<lambda>x. \<not> admitted (fl_bytes l) threshold {e} x) [e])
     \<and> fl_inv l' \<and> fl_bytes l' = admitted_bytes (fl_bytes l) threshold {e}"
proof -
  have e: "wf_extent e" "ext_bytes e \<inter> fl_bytes l = {}" using assms(2) by (auto simp: returnable_def)
  show ?thesis
    using flat.release_ok [OF assms(1) e, of threshold dbg "()"] flat.merges_iff [OF assms(1) e]
      admitted_single [of "fl_bytes l" threshold e] assms(1)
    by (auto simp: fl_release_batch_def admitted_bytes_def split: if_splits)
qed

lemma fl_release_batch_exact:
  assumes inv: "fl_inv l" and ret: "returnable (fl_bytes l) es"
  shows "\<exists>l'. fl_release_batch dbg l threshold es
       = Some (l', filter (\<lambda>e. \<not> admitted (fl_bytes l) threshold (set es) e) (sort_key ext_start es))
     \<and> fl_inv l' \<and> fl_bytes l' = admitted_bytes (fl_bytes l) threshold (set es)"
proof -
  consider "es = []" | e where "es = [e]" | a b ds where "es = a # b # ds"
    by (metis neq_Nil_conv)
  then show ?thesis
  proof cases
    case 1
    then show ?thesis using inv by (simp add: fl_release_batch_def admitted_bytes_def)
  next
    case 2
    then show ?thesis using fl_release_single [OF inv, of e dbg threshold] ret by simp
  next
    case 3
    let ?s = "sort_key ext_start es"
    have wf: "\<forall>x \<in> set (map (\<lambda>e. (e, ())) es). wf_extent (fst x)"
      and dj: "disjoint_all (map ext_bytes (map fst (map (\<lambda>e. (e, ())) es)))"
      using ret by (auto simp: returnable_def comp_def)
    have srt: "map fst (sort_key (\<lambda>x. ext_start (fst x)) (map (\<lambda>e. (e, ())) es)) = ?s"
      by (simp add: sort_key_map_pair comp_def)
    note or = ordered_returns_new_iff(1) [OF wf dj, unfolded srt]
    have "returnable (region_bytes (fl_regions l)) ?s"
      using ret disjoint_all_mset [of "map ext_bytes es" "map ext_bytes ?s"]
      by (simp add: returnable_def fl_bytes_def)
    moreover have "ordered_regions (fl_regions l)" using inv by (simp add: fl_inv_def canonical_ordered)
    ultimately obtain adm where adm: "admission_sweep threshold fa_default (fl_regions l) ?s = Some adm"
      "fa_dropped (finish_run adm) = filter (\<lambda>e. \<not> admitted (fl_bytes l) threshold (set es) e) ?s"
      "ordered_regions (fa_admitted (finish_run adm))"
      "region_bytes (fa_admitted (finish_run adm)) = admitted_bytes (fl_bytes l) threshold (set es)"
      using admission_sweep_exact [of "fl_regions l" ?s threshold] or by (auto simp: fl_bytes_def)
    obtain l' where l': "from_sorted (fa_admitted (finish_run adm)) = Some (Inr l')" "fl_inv l'"
      "fl_bytes l' = admitted_bytes (fl_bytes l) threshold (set es)"
      using from_sorted_ok [OF adm(3)] adm(4) by auto
    have "fl_release_batch dbg l threshold es = Some (l', fa_dropped (finish_run adm))"
      unfolding fl_release_batch_def using or srt adm(1) l'(1) 3 by (simp add: ok_def)
    then show ?thesis using adm(2) l' by simp
  qed
qed

lemma fl_release_batch_panics:
  assumes "\<forall>e \<in> set es. wf_extent e" "\<not> disjoint_all (map ext_bytes es)"
  shows "fl_release_batch dbg l threshold es = None"
proof -
  obtain a b ds where es: "es = a # b # ds"
    using assms(2) by (cases es rule: list.exhaust; cases "tl es") auto
  show ?thesis
    using ordered_returns_new_iff(2) [of "map (\<lambda>e. (e, ())) es"] assms
    by (auto simp: fl_release_batch_def es comp_def ok_def)
qed

end
