(* ===== verification/Admission_Properties.thy ===== *)
theory Admission_Properties
  imports Admission_Batch
begin

text \<open>
  The contract of threshold admission: which returned extents are tracked, that the single sweep,
  the repeated offers and the indexed list agree, and what happens to the end of allocation.
\<close>

section \<open>Lemmas\<close>

abbreviation no_class :: "extent \<Rightarrow> extent \<times> unit" where
  "no_class e \<equiv> (e, ())"

lemma fst_no_class [simp]: "map fst (map no_class es) = es" "fst ` no_class ` S = S"
  by (simp_all add: comp_def image_image)

lemma release_each_flat:
  assumes "fl_inv l" "returnable (fl_bytes l) es"
  shows "\<exists>l'. release_each fl_adjoins (fl_track dbg) threshold l (map no_class es)
       = Some (l', map no_class (filter (\<lambda>e. \<not> admitted (fl_bytes l) threshold (set es) e) es))
     \<and> fl_inv l' \<and> fl_bytes l' = admitted_bytes (fl_bytes l) threshold (set es)"
  using flat.release_each_exact [OF assms(1), of "map no_class es" dbg threshold] assms(2)
  by (simp add: filter_map comp_def image_image)

lemma release_each_indexed:
  assumes "idx_inv page ix" "returnable (fl_bytes (idx_list ix)) es"
  shows "\<exists>ix'. release_each idx_merges (\<lambda>ix e c. idx_free ix e) threshold ix (map no_class es)
       = Some (ix', map no_class (filter (\<lambda>e. \<not> admitted (fl_bytes (idx_list ix)) threshold (set es) e) es))
     \<and> idx_inv page ix' \<and> fl_bytes (idx_list ix') = admitted_bytes (fl_bytes (idx_list ix)) threshold (set es)"
  using indexed_flat.release_each_exact [OF assms(1), of "map no_class es" threshold] assms(2)
  by (simp add: filter_map comp_def image_image)

text \<open>The fold of \<^verbatim>\<open>release_all\<close> is the walk down a run that ends at the end of allocation.\<close>

lemma lower_eoa:
  assumes "ordered_regions es" "\<forall>e \<in> set es. ext_end e \<le> eoa"
  shows "run_start (region_bytes es) eoa
    (fold (\<lambda>e eoa. if ext_end e = eoa then ext_start e else eoa) (rev es) eoa)"
proof -
  let ?f = "\<lambda>e eoa. if ext_end e = eoa then ext_start e else eoa"
  have stuck: "fold ?f (rev rs) s = s" if "\<forall>e \<in> set rs. ext_end e < s" for rs s
    using that by (induction rs rule: rev_induct) auto
  have "fold ?f (rev rs) s = trailing_walk s (rev rs)"
    if "ordered_regions rs" "\<forall>e \<in> set rs. ext_end e \<le> s" for rs s
    using that
  proof (induction rs arbitrary: s rule: rev_induct)
    case (snoc e rs)
    have e: "ordered_regions rs" "\<forall>r \<in> set rs. ext_end r \<le> ext_start e" "ext_start e < ext_end e" "ext_end e \<le> s"
      using snoc.prems by (auto simp: ordered_regions_append dest: wf_extentD(2))
    show ?case
    proof (cases "ext_end e = s")
      case True
      then show ?thesis using snoc.IH [OF e(1,2)] e(3) by (simp add: min_def)
    next
      case False
      then have "\<forall>r \<in> set rs. ext_end r < s" using e by fastforce
      then show ?thesis using stuck [of rs s] False e(4) by simp
    qed
  qed simp
  then show ?thesis
    using trailing_walk_run [OF assms(1), of eoa eoa "region_bytes es"] assms by simp
qed

lemma region_bytes_not_admitted:
  assumes "returnable B es"
  shows "region_bytes (filter (\<lambda>e. \<not> admitted B threshold (set es) e) (sort_key ext_start es))
     = region_bytes es - admitted_bytes B threshold (set es)"
proof -
  have "x \<notin> admitted_bytes B threshold (set es)"
    if e: "e \<in> set es" "\<not> admitted B threshold (set es) e" "x \<in> ext_bytes e" for e x
  proof -
    have "x \<notin> B" using assms e(1,3) by (auto simp: returnable_def)
    moreover have "x \<notin> ext_bytes d" if "d \<in> set es" "admitted B threshold (set es) d" for d
      using returnable_inj [OF assms that(1) e(1) _ e(3)] that(2) e(2) by blast
    ultimately show ?thesis by (simp add: admitted_bytes_def)
  qed
  moreover have "x \<in> admitted_bytes B threshold (set es)"
    if "e \<in> set es" "admitted B threshold (set es) e" "x \<in> ext_bytes e" for e x
    using that by (auto simp: admitted_bytes_def)
  ultimately show ?thesis by (intro set_eqI) (simp add: region_bytes_iff, blast)
qed

lemma ordered_filter: "ordered_regions es \<Longrightarrow> ordered_regions (filter P es)"
  by (induction es) auto

lemma returnable_sorted:
  assumes "returnable B es"
  shows "ordered_regions (sort_key ext_start es)"
proof (rule sorted_disjoint_ordered)
  show "disjoint_all (map ext_bytes (sort_key ext_start es))"
    using disjoint_all_mset [of "map ext_bytes es" "map ext_bytes (sort_key ext_start es)"] assms
    by (simp add: returnable_def)
qed (use assms in \<open>auto simp: returnable_def\<close>)

section \<open>Inserting into a batch\<close>

lemma get_at_last: "xs \<noteq> [] \<Longrightarrow> get_at (xs @ ys) (length xs - 1) = Some (last xs)"
  by (cases xs rule: rev_cases) (auto simp: get_at_def nth_append)

lemma get_at_hd: "get_at (xs @ ys) (length xs) = (if ys = [] then None else Some (hd ys))"
  by (cases ys) (auto simp: get_at_def)

lemma returned_insert_split:
  fixes es :: returned_extents
  defines "before e \<equiv> takeWhile (\<lambda>(x, _). ext_start x < ext_start e) es"
    and "rest e \<equiv> dropWhile (\<lambda>(x, _). ext_start x < ext_start e) es"
  shows "returned_insert es e cls =
     (if before e \<noteq> [] \<and> ext_start e < ext_end (fst (last (before e))) then Inl (Overlap (fst (last (before e))) e)
      else if rest e \<noteq> [] \<and> ext_start (fst (hd (rest e))) < ext_end e then Inl (Overlap e (fst (hd (rest e))))
      else Inr (before e @ (e, cls) # rest e))"
proof -
  let ?p = "\<lambda>(x, _). ext_start x < ext_start e"
  let ?i = "partition_point ?p es"
  have split: "es = before e @ rest e" by (simp add: before_def rest_def)
  have i: "?i = length (before e)" by (simp add: partition_point_def before_def)
  have parts: "take ?i es = before e" "drop ?i es = rest e"
    unfolding i using split by (metis append_eq_conv_conj)+
  have prev: "(if ?i = 0 then None else get_at es (?i - 1)) = (if before e = [] then None else Some (last (before e)))"
    unfolding i using get_at_last [of "before e" "rest e"] by (simp flip: split)
  have nxt: "get_at es ?i = (if rest e = [] then None else Some (hd (rest e)))"
    unfolding i using get_at_hd [of "before e" "rest e"] by (simp flip: split)
  show ?thesis
    unfolding returned_insert_def Let_def prev nxt parts by (auto split: prod.splits option.splits)
qed

lemma returned_parts:
  fixes es :: returned_extents
  assumes "ordered_regions (map fst es)" "wf_extent e"
  defines "b \<equiv> takeWhile (\<lambda>(x, _). ext_start x < ext_start e) es"
    and "r \<equiv> dropWhile (\<lambda>(x, _). ext_start x < ext_start e) es"
  shows "\<forall>x \<in> set b. ext_start (fst x) < ext_start e" "\<forall>x \<in> set r. ext_start e \<le> ext_start (fst x)"
    "b \<noteq> [] \<Longrightarrow> x \<in> set b \<Longrightarrow> ext_end (fst x) \<le> ext_end (fst (last b))"
    "r \<noteq> [] \<Longrightarrow> x \<in> set r \<Longrightarrow> ext_start (fst (hd r)) \<le> ext_start (fst x)"
proof -
  have es: "es = b @ r" by (simp add: b_def r_def)
  have o: "ordered_regions (map fst b)" "ordered_regions (map fst r)"
    using assms(1) by (simp_all add: es ordered_regions_append)
  show "\<forall>x \<in> set b. ext_start (fst x) < ext_start e"
    unfolding b_def by (auto dest!: set_takeWhileD)
  show last_le: "ext_end (fst x) \<le> ext_end (fst (last b))" if "b \<noteq> []" "x \<in> set b"
    using o(1) that by (cases b rule: rev_cases) (auto simp: ordered_regions_append intro: order_trans)
  show hd_le: "ext_start (fst (hd r)) \<le> ext_start (fst x)" if "r \<noteq> []" "x \<in> set r" for x
    using o(2) that by (cases r) (auto intro: order_trans [OF ext_start_le_end])
  show "\<forall>x \<in> set r. ext_start e \<le> ext_start (fst x)"
  proof
    fix x assume x: "x \<in> set r"
    then have "r \<noteq> []" by auto
    then have "\<not> ext_start (fst (hd r)) < ext_start e"
      using hd_dropWhile [of "\<lambda>(x, _). ext_start x < ext_start e" es] by (auto simp: r_def split: prod.splits)
    then show "ext_start e \<le> ext_start (fst x)" using hd_le [OF \<open>r \<noteq> []\<close> x] by simp
  qed
qed


lemma returned_insert_ok:
  fixes es :: returned_extents
  assumes o: "ordered_regions (map fst es)" and e: "wf_extent e"
  shows "if ext_bytes e \<inter> region_bytes (map fst es) = {}
    then \<exists>b r. es = b @ r \<and> returned_insert es e cls = Inr (b @ (e, cls) # r)
      \<and> ordered_regions (map fst (b @ (e, cls) # r))
    else \<exists>p n. returned_insert es e cls = Inl (Overlap p n) \<and> ext_bytes p \<inter> ext_bytes n \<noteq> {}"
proof -
  define b where "b = takeWhile (\<lambda>(x, _). ext_start x < ext_start e) es"
  define r where "r = dropWhile (\<lambda>(x, _). ext_start x < ext_start e) es"
  note parts = returned_parts [OF o e, folded b_def r_def]
  note ins = returned_insert_split [of es e cls, folded b_def r_def]
  have es: "es = b @ r" by (simp add: b_def r_def)
  have ob: "ordered_regions (map fst b)" "ordered_regions (map fst r)"
    "\<forall>x \<in> set b. \<forall>y \<in> set r. ext_end (fst x) \<le> ext_start (fst y)"
    using o by (auto simp: es ordered_regions_append)
  have wf: "wf_extent (fst x)" if "x \<in> set es" for x using ordered_wf [OF o] that by simp
  have pos: "ext_start (fst x) < ext_end (fst x)" if "x \<in> set es" for x by (rule wf_extentD(2) [OF wf [OF that]])
  have ep: "ext_start e < ext_end e" by (rule wf_extentD(2) [OF e])
  consider (prev) "b \<noteq> []" "ext_start e < ext_end (fst (last b))"
    | (following) "\<not> (b \<noteq> [] \<and> ext_start e < ext_end (fst (last b)))" "r \<noteq> []" "ext_start (fst (hd r)) < ext_end e"
    | (fits) "\<not> (b \<noteq> [] \<and> ext_start e < ext_end (fst (last b)))" "\<not> (r \<noteq> [] \<and> ext_start (fst (hd r)) < ext_end e)"
    by blast
  then show ?thesis
  proof cases
    case prev
    have "ext_start e \<in> ext_bytes (fst (last b)) \<inter> ext_bytes e"
      using prev parts(1) ep by (auto simp: ext_bytes_def intro: less_imp_le)
    moreover have "last b \<in> set es" using prev(1) by (simp add: es)
    ultimately have "ext_bytes e \<inter> region_bytes (map fst es) \<noteq> {}" by (auto simp: region_bytes_fst)
    then show ?thesis using ins prev \<open>ext_start e \<in> _\<close> by auto
  next
    case following
    have hd: "hd r \<in> set r" "hd r \<in> set es" using following(2) by (simp_all add: es)
    have "ext_start (fst (hd r)) \<in> ext_bytes e \<inter> ext_bytes (fst (hd r))"
      using following parts(2) hd pos [OF hd(2)] by (auto simp: ext_bytes_def)
    moreover from this have "ext_bytes e \<inter> region_bytes (map fst es) \<noteq> {}" using hd(2) by (auto simp: region_bytes_fst)
    ultimately show ?thesis using ins following by auto
  next
    case fits
    have be: "ext_end (fst x) \<le> ext_start e" if "x \<in> set b" for x
      using parts(3) [of x] that fits(1) by fastforce
    have re: "ext_end e \<le> ext_start (fst x)" if "x \<in> set r" for x
      using parts(4) [of x] that fits(2) by fastforce
    have "ext_bytes e \<inter> region_bytes (map fst es) = {}"
      using be re by (fastforce simp: region_bytes_fst es ext_bytes_def)
    moreover have "ordered_regions (map fst (b @ (e, cls) # r))"
      using ob be re e by (auto simp: ordered_regions_append)
    ultimately show ?thesis using ins fits es by auto
  qed
qed

section \<open>Properties\<close>

text \<open>C13: a batch of disjoint returns is admitted by one rule. An extent is tracked exactly if it is
  at least the threshold long, touches tracked space, or touches another tracked return; the list
  gains exactly those bytes, the others come back in address order, and nothing panics.\<close>

theorem batch_release_exact:
  assumes "fl_inv l" "returnable (fl_bytes l) es"
  shows "\<exists>l'. fl_release_batch dbg l threshold es
       = Some (l', filter (\<lambda>e. \<not> admitted (fl_bytes l) threshold (set es) e) (sort_key ext_start es))
     \<and> fl_inv l' \<and> fl_bytes l' = admitted_bytes (fl_bytes l) threshold (set es)"
  by (rule fl_release_batch_exact [OF assms])

abbreviation small_b :: extent where "small_b \<equiv> \<lparr>ext_start = 160, ext_len = 5\<rparr>"
abbreviation small_a :: extent where "small_a \<equiv> \<lparr>ext_start = 150, ext_len = 10\<rparr>"
abbreviation lone :: extent where "lone \<equiv> \<lparr>ext_start = 300, ext_len = 8\<rparr>"
abbreviation one_region :: free_list where
  "one_region \<equiv> \<lparr>fl_regions = [\<lparr>ext_start = 100, ext_len = 50\<rparr>], fl_total = 50\<rparr>"

lemmas batch_eval = fl_inv_def fl_bytes_def u64_max_def ext_end_def wf_extent_def ext_bytes_def

lemma one_region_batch:
  "fl_inv one_region" "returnable (fl_bytes one_region) [small_b, lone, small_a]"
  by (auto simp: batch_eval returnable_def)

lemma one_region_admitted:
  "admitted (fl_bytes one_region) 64 {small_b, lone, small_a} small_a"
  "admitted (fl_bytes one_region) 64 {small_b, lone, small_a} small_b"
proof -
  show a: "admitted (fl_bytes one_region) 64 {small_b, lone, small_a} small_a"
    by (rule admitted_touch) (simp_all add: touches_def batch_eval)
  show "admitted (fl_bytes one_region) 64 {small_b, lone, small_a} small_b"
    by (rule admitted_chain [OF _ a]) (simp_all add: touches_def ext_bytes_def ext_end_def)
qed

theorem batch_release_exact_witness:
  "\<exists>l' d. fl_release_batch True one_region 64 [small_b, lone, small_a] = Some (l', d)
     \<and> small_a \<notin> set d \<and> small_b \<notin> set d \<and> fl_inv l' \<and> {100..<165} \<subseteq> fl_bytes l'"
proof -
  let ?A = "admitted (fl_bytes one_region) 64 (set [small_b, lone, small_a])"
  obtain l' where l': "fl_release_batch True one_region 64 [small_b, lone, small_a]
      = Some (l', filter (\<lambda>e. \<not> ?A e) (sort_key ext_start [small_b, lone, small_a]))"
    "fl_inv l'" "fl_bytes l' = admitted_bytes (fl_bytes one_region) 64 (set [small_b, lone, small_a])"
    using batch_release_exact [OF one_region_batch, of True 64] by blast
  have S: "set [small_b, lone, small_a] = {small_b, lone, small_a}" by simp
  have "ext_bytes small_a \<subseteq> fl_bytes l'" "ext_bytes small_b \<subseteq> fl_bytes l'" "fl_bytes one_region \<subseteq> fl_bytes l'"
    unfolding l'(3) admitted_bytes_def S using one_region_admitted by blast+
  moreover have "{100..<165} \<subseteq> fl_bytes one_region \<union> ext_bytes small_a \<union> ext_bytes small_b"
    by (auto simp: batch_eval)
  ultimately have "{100..<165} \<subseteq> fl_bytes l'" by blast
  moreover have "small_a \<notin> set (filter (\<lambda>e. \<not> ?A e) es)" "small_b \<notin> set (filter (\<lambda>e. \<not> ?A e) es)" for es
    unfolding S using one_region_admitted by simp_all
  ultimately show ?thesis using l'(1,2) by blast
qed

text \<open>C14: the single sweep of \<^verbatim>\<open>release_batch\<close> and the repeated offers of the default
  \<^verbatim>\<open>release_each\<close> leave the same list and drop the same extents, the sweep in address order.\<close>

theorem batch_matches_default:
  assumes "fl_inv l" "returnable (fl_bytes l) es"
  shows "\<exists>l' d. release_each fl_adjoins (fl_track dbg) threshold l (map no_class es) = Some (l', map no_class d)
     \<and> fl_release_batch dbg l threshold es = Some (l', sort_key ext_start d)"
proof -
  obtain l1 l2 where "release_each fl_adjoins (fl_track dbg) threshold l (map no_class es)
       = Some (l1, map no_class (filter (\<lambda>e. \<not> admitted (fl_bytes l) threshold (set es) e) es))"
    "fl_release_batch dbg l threshold es
       = Some (l2, filter (\<lambda>e. \<not> admitted (fl_bytes l) threshold (set es) e) (sort_key ext_start es))"
    "l1 = l2"
    using release_each_flat [OF assms, of dbg threshold] fl_release_batch_exact [OF assms, of dbg threshold]
      fl_inv_eqI by metis
  then show ?thesis by (auto simp: filter_sort)
qed

theorem batch_matches_default_witness:
  "\<exists>l' d. release_each fl_adjoins (fl_track True) 64 one_region (map no_class [small_b, lone, small_a])
       = Some (l', map no_class d)
     \<and> fl_release_batch True one_region 64 [small_b, lone, small_a] = Some (l', sort_key ext_start d)"
  by (rule batch_matches_default [OF one_region_batch])

text \<open>C15: a batch returned to the indexed list, which keeps the default \<^verbatim>\<open>release_each\<close>, and the same
  batch returned to the plain list, which overrides it by \<^verbatim>\<open>release_batch\<close>, leave the same free space
  and drop the same extents; the index lists them in the order given, the plain list in address order.
  The one-extent \<^verbatim>\<open>release\<close>, the default on both, tracks or drops an extent alike.\<close>

theorem indexed_release_refines:
  assumes "idx_inv page ix" "returnable (fl_bytes (idx_list ix)) es"
  shows "(\<exists>ix' d. release_each idx_merges (\<lambda>ix e c. idx_free ix e) threshold ix (map no_class es)
         = Some (ix', map no_class d) \<and> idx_inv page ix'
       \<and> fl_release_batch dbg (idx_list ix) threshold es = Some (idx_list ix', sort_key ext_start d))
     \<and> (\<forall>e \<in> set es. \<exists>ix' r. release idx_merges (\<lambda>ix e c. idx_free ix e) threshold ix e () = Some (ix', r)
       \<and> idx_inv page ix' \<and> release fl_adjoins (fl_track dbg) threshold (idx_list ix) e () = Some (idx_list ix', r))"
proof (intro conjI ballI)
  have l: "fl_inv (idx_list ix)" by (rule idx_inv_list [OF assms(1)])
  obtain ix' where ix': "release_each idx_merges (\<lambda>ix e c. idx_free ix e) threshold ix (map no_class es)
       = Some (ix', map no_class (filter (\<lambda>e. \<not> admitted (fl_bytes (idx_list ix)) threshold (set es) e) es))"
    "idx_inv page ix'" "fl_bytes (idx_list ix') = admitted_bytes (fl_bytes (idx_list ix)) threshold (set es)"
    using release_each_indexed [OF assms, of threshold] by blast
  obtain l' where "fl_release_batch dbg (idx_list ix) threshold es
       = Some (l', filter (\<lambda>e. \<not> admitted (fl_bytes (idx_list ix)) threshold (set es) e) (sort_key ext_start es))"
    "fl_inv l'" "fl_bytes l' = admitted_bytes (fl_bytes (idx_list ix)) threshold (set es)"
    using fl_release_batch_exact [OF l assms(2), of dbg threshold] by blast
  moreover from this have "l' = idx_list ix'" using fl_inv_eqI [OF _ idx_inv_list [OF ix'(2)]] ix'(3) by simp
  ultimately show "\<exists>ix' d. release_each idx_merges (\<lambda>ix e c. idx_free ix e) threshold ix (map no_class es)
         = Some (ix', map no_class d) \<and> idx_inv page ix'
       \<and> fl_release_batch dbg (idx_list ix) threshold es = Some (idx_list ix', sort_key ext_start d)"
    using ix' by (auto simp: filter_sort)
next
  fix e assume "e \<in> set es"
  then have e: "wf_extent e" "ext_bytes e \<inter> fl_bytes (idx_list ix) = {}"
    using assms(2) by (auto simp: returnable_def)
  show "\<exists>ix' r. release idx_merges (\<lambda>ix e c. idx_free ix e) threshold ix e () = Some (ix', r)
       \<and> idx_inv page ix' \<and> release fl_adjoins (fl_track dbg) threshold (idx_list ix) e () = Some (idx_list ix', r)"
    using idx_free_refines [OF assms(1) e, of dbg] idx_merges_refines [OF assms(1), of e] assms(1)
    by (auto simp: release_def fl_track_def)
qed

theorem indexed_release_refines_witness:
  "(\<exists>ix' d. release_each idx_merges (\<lambda>ix e c. idx_free ix e) 64 (idx_new one_region None)
       (map no_class [small_b, lone, small_a]) = Some (ix', map no_class d) \<and> idx_inv 512 ix'
     \<and> fl_release_batch False one_region 64 [small_b, lone, small_a] = Some (idx_list ix', sort_key ext_start d))
   \<and> (\<exists>ix' r. release idx_merges (\<lambda>ix e c. idx_free ix e) 64 (idx_new one_region None) lone () = Some (ix', r)
     \<and> idx_inv 512 ix' \<and> release fl_adjoins (fl_track False) 64 one_region lone () = Some (idx_list ix', r))"
  using indexed_release_refines [of 512 "idx_new one_region None" "[small_b, lone, small_a]" 64 False]
    idx_new_inv(1) [OF one_region_batch(1), of None 512] idx_new_inv(2) [OF one_region_batch(1), of None]
    one_region_batch(2) by simp

text \<open>C16: \<^verbatim>\<open>release_all\<close> moves the end of allocation down exactly to the start of the run of dropped
  bytes that reaches it, and leaves tracked bytes below the new end of allocation.\<close>

theorem release_all_lowers_eoa:
  fixes threshold :: byte_length
  assumes "fl_inv l" "returnable (fl_bytes l) es" "\<forall>e \<in> set es. ext_end e \<le> eoa" "fl_bytes l \<subseteq> {..<eoa}"
  defines "dropped \<equiv> region_bytes es - admitted_bytes (fl_bytes l) threshold (set es)"
  shows "\<exists>l' eoa'. fl_release_all dbg l threshold eoa es = Some (l', eoa') \<and> fl_inv l'
     \<and> eoa' \<le> eoa \<and> {eoa'..<eoa} \<subseteq> dropped \<and> (0 < eoa' \<longrightarrow> eoa' - 1 \<notin> dropped)
     \<and> fl_bytes l' = admitted_bytes (fl_bytes l) threshold (set es) \<and> fl_bytes l' \<subseteq> {..<eoa'}"
proof -
  let ?d = "filter (\<lambda>e. \<not> admitted (fl_bytes l) threshold (set es) e) (sort_key ext_start es)"
  define e' where "e' = fold (\<lambda>e eoa. if ext_end e = eoa then ext_start e else eoa) (rev ?d) eoa"
  obtain l' where l': "fl_release_batch dbg l threshold es = Some (l', ?d)" "fl_inv l'"
    "fl_bytes l' = admitted_bytes (fl_bytes l) threshold (set es)"
    using fl_release_batch_exact [OF assms(1,2)] by blast
  have o: "ordered_regions ?d" by (rule ordered_filter [OF returnable_sorted [OF assms(2)]])
  have "sort_key ext_start ?d = ?d" by (simp add: filter_sort sort_key_id_if_sorted)
  then have "fl_release_all dbg l threshold eoa es = Some (l', e')"
    using l'(1) by (simp add: fl_release_all_def e'_def)
  moreover have run: "run_start dropped eoa e'"
    using lower_eoa [OF o, of eoa] assms(3) unfolding region_bytes_not_admitted [OF assms(2)] dropped_def e'_def by simp
  moreover have "x < e'" if x: "x \<in> fl_bytes l'" for x
  proof (rule ccontr)
    assume "\<not> x < e'"
    moreover have "x < eoa"
      using x assms(3,4) by (auto simp: l'(3) admitted_bytes_def ext_bytes_def intro: less_le_trans)
    ultimately have "x \<in> dropped" using run unfolding run_start_def by auto
    then show False using x by (simp add: dropped_def l'(3))
  qed
  ultimately show ?thesis using l'(2,3) unfolding run_start_def by blast
qed

theorem release_all_lowers_eoa_witness:
  "\<exists>l' eoa'. fl_release_all True one_region 64 308 [small_b, lone, small_a] = Some (l', eoa')
     \<and> fl_inv l' \<and> eoa' \<le> 308 \<and> fl_bytes l' \<subseteq> {..<eoa'}"
proof -
  have "\<forall>e \<in> set [small_b, lone, small_a]. ext_end e \<le> 308" "fl_bytes one_region \<subseteq> {..<308}"
    by (auto simp: batch_eval)
  from release_all_lowers_eoa [OF one_region_batch this, of True 64] show ?thesis by blast
qed

text \<open>C17: inserting into a batch of returned allocations. Exactly the allocations that overlap one
  already there are refused, with an overlapping pair; otherwise the allocation is put in address
  order and removing it at its position restores the batch.\<close>

theorem returned_insert_remove:
  assumes "ordered_regions (map fst es)" "wf_extent e"
  shows "if ext_bytes e \<inter> region_bytes (map fst es) = {}
    then \<exists>es' i. returned_insert es e cls = Inr es' \<and> ordered_regions (map fst es')
      \<and> returned_remove es' i = Some (es, (e, cls))
    else \<exists>p n. returned_insert es e cls = Inl (Overlap p n) \<and> ext_bytes p \<inter> ext_bytes n \<noteq> {}"
proof -
  have "returned_remove (b @ (e, cls) # r) (length b) = Some (b @ r, (e, cls))" for b r
    by (simp add: returned_remove_def)
  then have "\<exists>es' i. returned_insert es e cls = Inr es' \<and> ordered_regions (map fst es')
      \<and> returned_remove es' i = Some (es, (e, cls))"
    if "ext_bytes e \<inter> region_bytes (map fst es) = {}"
    using returned_insert_ok [OF assms, of cls] that by metis
  then show ?thesis using returned_insert_ok [OF assms, of cls] by presburger
qed

theorem returned_insert_remove_witness:
  "\<exists>es' i. returned_insert [(small_a, Dead)] small_b (InPage Raw) = Inr es'
     \<and> ordered_regions (map fst es') \<and> returned_remove es' i = Some ([(small_a, Dead)], (small_b, InPage Raw))"
proof -
  have "ordered_regions (map fst [(small_a, Dead)])" "wf_extent small_b"
    "ext_bytes small_b \<inter> region_bytes (map fst [(small_a, Dead)]) = {}"
    by (auto simp: u64_max_def)
  then show ?thesis
    using returned_insert_remove [of "[(small_a, Dead)]" small_b "InPage Raw"] by simp
qed

end
