(* ===== verification/Aggregator.thy ===== *)
theory Aggregator
  imports Requests
begin

text \<open>
  The metadata and raw aggregates of a session (\<^verbatim>\<open>hdf5-pure-space/src/aggregator.rs\<close>).

  An aggregate is a reserved range with a cursor; the bytes from the cursor to its end are unused.
  The bytes in use are those below the end of allocation that are not unused in an aggregate
  (\<open>ca_used\<close>), and every operation is specified by what it does to them. A step is \<^term>\<open>None\<close> if
  it panics and an \<^typ>\<open>'e + 'a\<close> otherwise; the state is returned only on success, as the code
  works on a copy.
\<close>

datatype aggregation_error =
    EndOfAllocationTooSmall stored_address stored_address
  | AggregateOverflow u64 u64

definition aggregate_block_size :: u64 where
  "aggregate_block_size = 2048"

record aggregate =
  ag_range :: extent
  ag_cursor :: stored_address

definition aggregate_take ::
  "bool \<Rightarrow> aggregate \<Rightarrow> u64 \<Rightarrow> (aggregation_error + aggregate \<times> extent) option" where
  "aggregate_take dbg self sz =
     (case ext_new (ag_cursor self) sz of
        None \<Rightarrow> Some (Inl (AggregateOverflow (ag_cursor self) sz))
      | Some e \<Rightarrow> do {
          debug_assert dbg (ext_end e \<le> ext_end (ag_range self));
          Some (Inr (self\<lparr>ag_cursor := ext_end e\<rparr>, e)) })"

definition aggregate_unused :: "aggregate \<Rightarrow> extent option" where
  "aggregate_unused self = ext_between (ag_cursor self) (ext_end (ag_range self))"

record classic_aggregators =
  ca_metadata :: "aggregate option"
  ca_raw :: "aggregate option"

definition ca_new :: classic_aggregators where
  "ca_new = \<lparr>ca_metadata = None, ca_raw = None\<rparr>"

record aggregation_allocation =
  aa_extent :: extent
  aa_eoa :: stored_address
  aa_released :: "extent option"

record aggregation_release =
  rel_metadata :: "extent option"
  rel_raw :: "extent option"
  rel_eoa :: stored_address

definition rel_released :: "aggregation_release \<Rightarrow> allocation_class \<Rightarrow> extent option" where
  "rel_released self cls = (case cls of ClassMetadata \<Rightarrow> rel_metadata self | ClassRaw \<Rightarrow> rel_raw self)"

text \<open>The window of the requested class and the other one.\<close>

definition ca_own :: "classic_aggregators \<Rightarrow> allocation_class \<Rightarrow> aggregate option" where
  "ca_own self cls = (case cls of ClassMetadata \<Rightarrow> ca_metadata self | ClassRaw \<Rightarrow> ca_raw self)"

definition ca_other :: "classic_aggregators \<Rightarrow> allocation_class \<Rightarrow> aggregate option" where
  "ca_other self cls = (case cls of ClassMetadata \<Rightarrow> ca_raw self | ClassRaw \<Rightarrow> ca_metadata self)"

definition ca_windows :: "allocation_class \<Rightarrow> aggregate option \<Rightarrow> aggregate option \<Rightarrow> classic_aggregators" where
  "ca_windows cls own other =
     (case cls of ClassMetadata \<Rightarrow> \<lparr>ca_metadata = own, ca_raw = other\<rparr>
      | ClassRaw \<Rightarrow> \<lparr>ca_metadata = other, ca_raw = own\<rparr>)"

definition ca_unused :: "classic_aggregators \<Rightarrow> allocation_class \<Rightarrow> extent option" where
  "ca_unused self cls = Option.bind (ca_own self cls) aggregate_unused"

definition window_ends :: "aggregate option list \<Rightarrow> stored_address list" where
  "window_ends ws = map (\<lambda>w. ext_end (ag_range w)) (List.map_filter id ws)"

definition minimum_eoa :: "classic_aggregators \<Rightarrow> stored_address" where
  "minimum_eoa self = fold max (window_ends [ca_metadata self, ca_raw self]) 0"

text \<open>The last part of \<^verbatim>\<open>reserve\<close>: the request is placed at the end of allocation.\<close>

definition releases_tail :: "aggregate option \<Rightarrow> stored_address \<Rightarrow> extent option" where
  "releases_tail other eoa =
     (case other of
        None \<Rightarrow> None
      | Some w \<Rightarrow>
          if ext_end (ag_range w) = eoa
             \<and> (case addr_distance_from (ag_cursor w) (ext_start (ag_range w)) of
                  None \<Rightarrow> False | Some len \<Rightarrow> aggregate_block_size \<le> len)
          then aggregate_unused w else None)"

definition reserve_at_eoa ::
  "bool \<Rightarrow> allocation_class \<Rightarrow> aggregate option \<Rightarrow> aggregate option \<Rightarrow> stored_address \<Rightarrow> u64
     \<Rightarrow> (aggregation_error + classic_aggregators \<times> aggregation_allocation) option" where
  "reserve_at_eoa dbg cls own other eoa sz =
     (let tail_space = releases_tail other eoa;
          eoa = (case tail_space of Some unused \<Rightarrow> ext_start unused | None \<Rightarrow> eoa);
          other = (case tail_space of Some unused \<Rightarrow> None | None \<Rightarrow> other)
      in if aggregate_block_size \<le> sz
         then (case ext_new eoa sz of
                 None \<Rightarrow> Some (Inl (AggregateOverflow eoa sz))
               | Some e \<Rightarrow> Some (Inr (ca_windows cls own other,
                   \<lparr>aa_extent = e, aa_eoa = ext_end e, aa_released = None\<rparr>)))
         else (case ext_new eoa aggregate_block_size of
                 None \<Rightarrow> Some (Inl (AggregateOverflow eoa aggregate_block_size))
               | Some rng \<Rightarrow>
                   try_bind (aggregate_take dbg \<lparr>ag_range = rng, ag_cursor = eoa\<rparr> sz) (\<lambda>(w, e).
                     Some (Inr (ca_windows cls (Some w) other,
                       \<lparr>aa_extent = e, aa_eoa = ext_end rng,
                        aa_released = Option.bind own aggregate_unused\<rparr>)))))"

definition ca_reserve ::
  "bool \<Rightarrow> classic_aggregators \<Rightarrow> stored_address \<Rightarrow> u64 \<Rightarrow> allocation_class
     \<Rightarrow> (aggregation_error + classic_aggregators \<times> aggregation_allocation) option" where
  "ca_reserve dbg self eoa sz cls =
     (let own = ca_own self cls; other = ca_other self cls
      in case own of
           None \<Rightarrow> reserve_at_eoa dbg cls own other eoa sz
         | Some w \<Rightarrow>
             if sz \<le> (case aggregate_unused w of None \<Rightarrow> 0 | Some u \<Rightarrow> ext_len u)
             then try_bind (aggregate_take dbg w sz) (\<lambda>(w, e).
                    Some (Inr (ca_windows cls (Some w) other,
                      \<lparr>aa_extent = e, aa_eoa = eoa, aa_released = None\<rparr>)))
             else if ext_end (ag_range w) = eoa
             then (let growth = (if aggregate_block_size \<le> sz then sz else aggregate_block_size)
                   in case addr_checked_add eoa growth of
                        Inl _ \<Rightarrow> Some (Inl (AggregateOverflow eoa growth))
                      | Inr stop \<Rightarrow> do {
                          rng \<leftarrow> ext_between (ext_start (ag_range w)) stop;
                          try_bind (aggregate_take dbg (w\<lparr>ag_range := rng\<rparr>) sz) (\<lambda>(w, e).
                            Some (Inr (ca_windows cls (Some w) other,
                              \<lparr>aa_extent = e, aa_eoa = stop, aa_released = None\<rparr>))) })
             else reserve_at_eoa dbg cls own other eoa sz)"

definition ca_allocate ::
  "bool \<Rightarrow> classic_aggregators \<Rightarrow> stored_address \<Rightarrow> u64 \<Rightarrow> allocation_class
     \<Rightarrow> (aggregation_error + classic_aggregators \<times> aggregation_allocation) option" where
  "ca_allocate dbg self eoa sz cls =
     (let minimum = minimum_eoa self
      in if eoa < minimum then Some (Inl (EndOfAllocationTooSmall eoa minimum))
         else ca_reserve dbg self eoa sz cls)"

definition release_window :: "aggregate option \<Rightarrow> stored_address \<Rightarrow> aggregate option \<times> stored_address" where
  "release_window w eoa =
     (case Option.bind w aggregate_unused of
        Some unused \<Rightarrow> if ext_end unused = eoa then (None, ext_start unused) else (w, eoa)
      | None \<Rightarrow> (w, eoa))"

definition ca_release_tail ::
  "classic_aggregators \<Rightarrow> stored_address \<Rightarrow> aggregation_error + classic_aggregators \<times> stored_address" where
  "ca_release_tail self eoa =
     (let minimum = minimum_eoa self
      in if eoa < minimum then Inl (EndOfAllocationTooSmall eoa minimum)
         else (let (m, eoa) = release_window (ca_metadata self) eoa;
                   (r, eoa) = release_window (ca_raw self) eoa
               in Inr (\<lparr>ca_metadata = m, ca_raw = r\<rparr>, eoa)))"

definition ca_reset ::
  "classic_aggregators \<Rightarrow> stored_address \<Rightarrow> aggregation_error + classic_aggregators \<times> aggregation_release" where
  "ca_reset self eoa =
     (case ca_release_tail self eoa of
        Inl e \<Rightarrow> Inl e
      | Inr (nxt, eoa) \<Rightarrow>
          Inr (ca_new, \<lparr>rel_metadata = ca_unused nxt ClassMetadata, rel_raw = ca_unused nxt ClassRaw,
                        rel_eoa = eoa\<rparr>))"

definition forget_window :: "stored_address \<Rightarrow> aggregate option \<Rightarrow> aggregate option" where
  "forget_window eoa w =
     (case w of None \<Rightarrow> None | Some a \<Rightarrow> if eoa < ext_end (ag_range a) then None else w)"

definition reconcile_eoa ::
  "classic_aggregators \<Rightarrow> stored_address \<Rightarrow> aggregation_error + classic_aggregators" where
  "reconcile_eoa self eoa =
     (let minimum = fold max (window_ends (filter (\<lambda>w. Option.bind w aggregate_unused \<noteq> None)
                      [ca_metadata self, ca_raw self])) 0
      in if eoa < minimum then Inl (EndOfAllocationTooSmall eoa minimum)
         else Inr \<lparr>ca_metadata = forget_window eoa (ca_metadata self),
                   ca_raw = forget_window eoa (ca_raw self)\<rparr>)"

section \<open>The invariant\<close>

definition wf_aggregate :: "aggregate \<Rightarrow> bool" where
  "wf_aggregate w \<longleftrightarrow> wf_extent (ag_range w) \<and> ext_start (ag_range w) < ag_cursor w
     \<and> ag_cursor w \<le> ext_end (ag_range w)"

definition unused_bytes :: "aggregate option \<Rightarrow> nat set" where
  "unused_bytes w = (case w of None \<Rightarrow> {} | Some a \<Rightarrow> {ag_cursor a ..< ext_end (ag_range a)})"

definition window_bytes :: "aggregate option \<Rightarrow> nat set" where
  "window_bytes w = (case w of None \<Rightarrow> {} | Some a \<Rightarrow> ext_bytes (ag_range a))"

definition window_ok :: "stored_address \<Rightarrow> aggregate option \<Rightarrow> bool" where
  "window_ok eoa w = (case w of None \<Rightarrow> True | Some a \<Rightarrow> wf_aggregate a \<and> ext_end (ag_range a) \<le> eoa)"

definition ca_inv :: "classic_aggregators \<Rightarrow> stored_address \<Rightarrow> bool" where
  "ca_inv st eoa \<longleftrightarrow> eoa \<le> u64_max \<and> window_ok eoa (ca_metadata st) \<and> window_ok eoa (ca_raw st)
     \<and> window_bytes (ca_metadata st) \<inter> window_bytes (ca_raw st) = {}"

definition ca_used :: "classic_aggregators \<Rightarrow> stored_address \<Rightarrow> nat set" where
  "ca_used st eoa = {..<eoa} - (unused_bytes (ca_metadata st) \<union> unused_bytes (ca_raw st))"


section \<open>Windows\<close>

lemma ca_windows_self [simp]: "ca_windows cls (ca_own st cls) (ca_other st cls) = st"
  by (cases cls) (simp_all add: ca_windows_def ca_own_def ca_other_def)

lemma ca_windows_get [simp]:
  "ca_own (ca_windows cls own other) cls = own" "ca_other (ca_windows cls own other) cls = other"
  by (cases cls; simp add: ca_windows_def ca_own_def ca_other_def)+

lemma ca_inv_windows:
  "ca_inv (ca_windows cls own other) eoa \<longleftrightarrow> eoa \<le> u64_max \<and> window_ok eoa own \<and> window_ok eoa other
     \<and> window_bytes own \<inter> window_bytes other = {}"
  by (cases cls) (auto simp: ca_inv_def ca_windows_def)

lemma ca_used_windows:
  "ca_used (ca_windows cls own other) eoa = {..<eoa} - (unused_bytes own \<union> unused_bytes other)"
  by (cases cls) (auto simp: ca_used_def ca_windows_def)

lemma window_simps [simp]:
  "unused_bytes None = {}" "window_bytes None = {}" "window_ok eoa None"
  "unused_bytes (Some a) = {ag_cursor a ..< ext_end (ag_range a)}"
  "window_bytes (Some a) = ext_bytes (ag_range a)"
  "window_ok eoa (Some a) \<longleftrightarrow> wf_aggregate a \<and> ext_end (ag_range a) \<le> eoa"
  by (simp_all add: unused_bytes_def window_bytes_def window_ok_def)

lemma unused_in_window: "window_ok eoa w \<Longrightarrow> unused_bytes w \<subseteq> window_bytes w"
  by (cases w) (auto simp: wf_aggregate_def ext_bytes_def)

lemma window_below: "window_ok eoa w \<Longrightarrow> window_bytes w \<subseteq> {..<eoa}"
  by (cases w) (auto simp: ext_bytes_def)

lemma aggregate_unused_eq:
  assumes "wf_aggregate w"
  shows "aggregate_unused w = (if ag_cursor w < ext_end (ag_range w)
    then Some \<lparr>ext_start = ag_cursor w, ext_len = ext_end (ag_range w) - ag_cursor w\<rparr> else None)"
  using assms wf_extentD [of "ag_range w"] by (auto simp: aggregate_unused_def wf_aggregate_def checked)

lemma opt_bytes_unused: "window_ok eoa w \<Longrightarrow> opt_bytes (Option.bind w aggregate_unused) = unused_bytes w"
  by (cases w) (auto simp: aggregate_unused_eq)

lemma aggregate_take_ok:
  assumes "ext_start (ag_range w) \<le> ag_cursor w" "wf_extent (ag_range w)" "0 < sz"
    and "ag_cursor w + sz \<le> ext_end (ag_range w)"
  shows "aggregate_take dbg w sz = Some (Inr (w\<lparr>ag_cursor := ag_cursor w + sz\<rparr>,
      \<lparr>ext_start = ag_cursor w, ext_len = sz\<rparr>))" "wf_aggregate (w\<lparr>ag_cursor := ag_cursor w + sz\<rparr>)"
    "wf_extent \<lparr>ext_start = ag_cursor w, ext_len = sz\<rparr>"
  using assms wf_extentD(3) [OF assms(2)]
  by (simp_all add: aggregate_take_def checked debug_assert_def wf_aggregate_def)

lemma fold_max_le: "fold max xs m \<le> n \<longleftrightarrow> m \<le> n \<and> (\<forall>x \<in> set xs. x \<le> n)" for m n :: nat
  by (induction xs arbitrary: m) auto

lemma minimum_eoa_le:
  "ca_inv st eoa \<Longrightarrow> minimum_eoa st \<le> eoa"
  by (cases "ca_metadata st"; cases "ca_raw st")
    (auto simp: minimum_eoa_def fold_max_le window_ends_def map_filter_simps ca_inv_def)

section \<open>Allocation\<close>

text \<open>
  \<open>accounted st eoa sz st' aa\<close>: the allocation has the requested length, and the bytes in use
  afterwards are those before, the new extent and the released one, which do not overlap.
\<close>

definition accounted ::
  "classic_aggregators \<Rightarrow> stored_address \<Rightarrow> u64 \<Rightarrow> classic_aggregators \<Rightarrow> aggregation_allocation \<Rightarrow> bool" where
  "accounted st eoa sz st' aa \<longleftrightarrow>
     ca_inv st' (aa_eoa aa) \<and> wf_extent (aa_extent aa) \<and> ext_len (aa_extent aa) = sz
     \<and> ext_bytes (aa_extent aa) \<inter> ca_used st eoa = {} \<and> opt_bytes (aa_released aa) \<inter> ca_used st eoa = {}
     \<and> ext_bytes (aa_extent aa) \<inter> opt_bytes (aa_released aa) = {}
     \<and> ca_used st' (aa_eoa aa) = ca_used st eoa \<union> ext_bytes (aa_extent aa) \<union> opt_bytes (aa_released aa)"

lemma accounted_take:
  assumes inv: "ca_inv (ca_windows cls (Some w) other) eoa" and "0 < sz"
    and fits: "ag_cursor w + sz \<le> ext_end (ag_range w)"
  defines "w' \<equiv> w\<lparr>ag_cursor := ag_cursor w + sz\<rparr>"
  shows "accounted (ca_windows cls (Some w) other) eoa sz (ca_windows cls (Some w') other)
    \<lparr>aa_extent = \<lparr>ext_start = ag_cursor w, ext_len = sz\<rparr>, aa_eoa = eoa, aa_released = None\<rparr>"
proof -
  have wf: "wf_aggregate w" "window_ok eoa other" "ext_bytes (ag_range w) \<inter> window_bytes other = {}"
    "ext_end (ag_range w) \<le> eoa" "eoa \<le> u64_max"
    using inv by (simp_all add: ca_inv_windows)
  have ok: "wf_aggregate w'" "wf_extent \<lparr>ext_start = ag_cursor w, ext_len = sz\<rparr>"
    unfolding w'_def by (rule aggregate_take_ok; use wf(1) assms(2) fits in \<open>simp add: wf_aggregate_def\<close>)+
  have un: "{ag_cursor w ..< ext_end (ag_range w)} \<inter> unused_bytes other = {}"
  proof -
    have "{ag_cursor w ..< ext_end (ag_range w)} \<subseteq> ext_bytes (ag_range w)"
      using wf(1) by (auto simp: wf_aggregate_def ext_bytes_def)
    then show ?thesis using unused_in_window [OF wf(2)] wf(3) by blast
  qed
  have "{..<eoa} - ({ag_cursor w + sz ..< ext_end (ag_range w)} \<union> unused_bytes other)
     = {..<eoa} - ({ag_cursor w ..< ext_end (ag_range w)} \<union> unused_bytes other) \<union> {ag_cursor w ..< ag_cursor w + sz}"
    using un fits wf(4) by (auto simp: disjoint_iff)
  then show ?thesis
    using wf ok fits by (auto simp: accounted_def ca_inv_windows ca_used_windows w'_def)
qed

text \<open>A window is replaced by one with the same unused bytes and more, up to a new end.\<close>

lemma accounted_grow:
  assumes inv: "ca_inv (ca_windows cls (Some w) other) eoa" and sz: "0 < sz" "sz \<le> g"
    and at_eoa: "ext_end (ag_range w) = eoa" and max: "eoa + g \<le> u64_max"
  defines "w' \<equiv> w\<lparr>ag_range := \<lparr>ext_start = ext_start (ag_range w), ext_len = eoa + g - ext_start (ag_range w)\<rparr>,
      ag_cursor := ag_cursor w + sz\<rparr>"
  shows "accounted (ca_windows cls (Some w) other) eoa sz (ca_windows cls (Some w') other)
    \<lparr>aa_extent = \<lparr>ext_start = ag_cursor w, ext_len = sz\<rparr>, aa_eoa = eoa + g, aa_released = None\<rparr>"
proof -
  have wf: "wf_aggregate w" "window_ok eoa other" "ext_bytes (ag_range w) \<inter> window_bytes other = {}"
    using inv by (simp_all add: ca_inv_windows)
  have st: "ext_start (ag_range w) < ag_cursor w" "ag_cursor w \<le> eoa"
    using wf(1) at_eoa by (simp_all add: wf_aggregate_def)
  have other: "window_ok (eoa + g) other" "window_bytes other \<subseteq> {..<eoa}" "unused_bytes other \<subseteq> window_bytes other"
    using wf(2) window_below [OF wf(2)] unused_in_window [OF wf(2)] by (cases other; simp)+
  have dj: "{ext_start (ag_range w) ..< eoa + g} \<inter> window_bytes other = {}"
  proof -
    have "{ext_start (ag_range w) ..< eoa + g} \<inter> window_bytes other \<subseteq> ext_bytes (ag_range w)"
      using other(2) at_eoa by (auto simp: ext_bytes_def)
    then show ?thesis using wf(3) by blast
  qed
  have "{ag_cursor w ..< eoa + g} \<subseteq> {ext_start (ag_range w) ..< eoa + g}" using st by auto
  then have un: "{ag_cursor w ..< eoa + g} \<inter> unused_bytes other = {}" using dj other(3) by blast
  have "{..<eoa + g} - ({ag_cursor w + sz ..< eoa + g} \<union> unused_bytes other)
     = {..<eoa} - ({ag_cursor w ..< eoa} \<union> unused_bytes other) \<union> {ag_cursor w ..< ag_cursor w + sz}"
    using un st sz other by (auto simp: disjoint_iff)
  then show ?thesis
    using wf other dj st sz max at_eoa
    by (auto simp: accounted_def ca_inv_windows ca_used_windows w'_def wf_aggregate_def)
qed


lemma accounted_cong:
  "ca_used st eoa = ca_used st1 eoa1 \<Longrightarrow> accounted st eoa sz st' aa = accounted st1 eoa1 sz st' aa"
  by (simp add: accounted_def)

lemma tail_released:
  assumes inv: "ca_inv (ca_windows cls own other) eoa"
    and own: "\<And>w. own = Some w \<Longrightarrow> ext_end (ag_range w) \<noteq> eoa"
    and u: "releases_tail other eoa = Some u"
  shows "ca_inv (ca_windows cls own None) (ext_start u)" "ext_start u \<le> eoa"
    "ca_used (ca_windows cls own None) (ext_start u) = ca_used (ca_windows cls own other) eoa"
proof -
  obtain w where w: "other = Some w" "ext_end (ag_range w) = eoa" "aggregate_unused w = Some u"
    using u by (auto simp: releases_tail_def split: option.splits if_splits)
  have wf: "wf_aggregate w" "window_ok eoa own" "window_bytes own \<inter> ext_bytes (ag_range w) = {}" "eoa \<le> u64_max"
    using inv by (auto simp: ca_inv_windows w(1))
  have s: "ext_start u = ag_cursor w" "ag_cursor w < eoa" "ext_start (ag_range w) < ag_cursor w"
    using wf(1) w(2,3) by (auto simp: aggregate_unused_eq wf_aggregate_def split: if_splits)
  have below: "ext_end (ag_range v) \<le> ag_cursor w" if v: "own = Some v" for v
  proof -
    have "wf_extent (ag_range v)" "wf_extent (ag_range w)" "ext_end (ag_range v) \<le> eoa"
      using wf(1,2) v by (simp_all add: wf_aggregate_def)
    then show ?thesis
      using ext_bytes_disjoint_iff [of "ag_range v" "ag_range w"] wf(3) own [OF v] w(2) s(3) v
        wf_extentD(2) [of "ag_range v"] by simp
  qed
  show "ext_start u \<le> eoa" using s by simp
  show "ca_inv (ca_windows cls own None) (ext_start u)"
    using below wf(2,4) s by (cases own) (auto simp: ca_inv_windows)
  show "ca_used (ca_windows cls own None) (ext_start u) = ca_used (ca_windows cls own other) eoa"
    using s w(1,2) by (auto simp: ca_used_windows)
qed

lemma window_ok_mono: "window_ok eoa w \<Longrightarrow> eoa \<le> eoa' \<Longrightarrow> window_ok eoa' w"
  by (cases w) auto

lemma used_below:
  assumes "window_ok eoa v" "window_ok eoa w"
  shows "{..<eoa + n} - (unused_bytes v \<union> unused_bytes w)
    = {..<eoa} - (unused_bytes v \<union> unused_bytes w) \<union> {eoa ..< eoa + n}"
proof -
  have "unused_bytes v \<union> unused_bytes w \<subseteq> {..<eoa}"
    using unused_in_window window_below assms by blast
  then show ?thesis by fastforce
qed

lemma accounted_large:
  assumes inv: "ca_inv (ca_windows cls own other) eoa" and "0 < sz" "eoa + sz \<le> u64_max"
  shows "accounted (ca_windows cls own other) eoa sz (ca_windows cls own other)
    \<lparr>aa_extent = \<lparr>ext_start = eoa, ext_len = sz\<rparr>, aa_eoa = eoa + sz, aa_released = None\<rparr>"
proof -
  have w: "window_ok eoa own" "window_ok eoa other" "window_bytes own \<inter> window_bytes other = {}"
    using inv by (simp_all add: ca_inv_windows)
  then show ?thesis
    using used_below [OF w(1,2), of sz] assms(2,3) window_ok_mono [OF w(1), of "eoa + sz"]
      window_ok_mono [OF w(2), of "eoa + sz"]
    by (auto simp: accounted_def ca_inv_windows ca_used_windows)
qed

lemma accounted_small:
  assumes inv: "ca_inv (ca_windows cls own other) eoa" and sz: "0 < sz" "sz \<le> n" "eoa + n \<le> u64_max"
  shows "accounted (ca_windows cls own other) eoa sz
    (ca_windows cls (Some \<lparr>ag_range = \<lparr>ext_start = eoa, ext_len = n\<rparr>, ag_cursor = eoa + sz\<rparr>) other)
    \<lparr>aa_extent = \<lparr>ext_start = eoa, ext_len = sz\<rparr>, aa_eoa = eoa + n, aa_released = Option.bind own aggregate_unused\<rparr>"
proof -
  have w: "window_ok eoa own" "window_ok eoa other" "window_bytes own \<inter> window_bytes other = {}"
    using inv by (simp_all add: ca_inv_windows)
  have un: "unused_bytes own \<subseteq> {..<eoa}" "unused_bytes other \<subseteq> {..<eoa}" "window_bytes other \<subseteq> {..<eoa}"
    "unused_bytes own \<inter> unused_bytes other = {}"
    using unused_in_window [OF w(1)] unused_in_window [OF w(2)] window_below [OF w(1)] window_below [OF w(2)] w(3)
    by blast+
  have "{..<eoa + n} - ({eoa + sz ..< eoa + n} \<union> unused_bytes other)
     = {..<eoa} - (unused_bytes own \<union> unused_bytes other) \<union> {eoa ..< eoa + sz} \<union> unused_bytes own"
  proof (intro set_eqI)
    fix x
    show "x \<in> {..<eoa + n} - ({eoa + sz ..< eoa + n} \<union> unused_bytes other) \<longleftrightarrow>
      x \<in> {..<eoa} - (unused_bytes own \<union> unused_bytes other) \<union> {eoa ..< eoa + sz} \<union> unused_bytes own"
      using un sz subsetD [OF un(1), of x] subsetD [OF un(2), of x] by auto
  qed
  moreover have "{eoa ..< eoa + n} \<inter> window_bytes other = {}" "{eoa ..< eoa + sz} \<inter> unused_bytes own = {}"
    using un by fastforce+
  ultimately show ?thesis
    using sz w window_ok_mono [OF w(2), of "eoa + n"]
    by (auto simp: accounted_def ca_inv_windows ca_used_windows opt_bytes_unused wf_aggregate_def)
qed

text \<open>What a successful or failed step promises.\<close>

definition step_ok ::
  "classic_aggregators \<Rightarrow> stored_address \<Rightarrow> u64
     \<Rightarrow> aggregation_error + classic_aggregators \<times> aggregation_allocation \<Rightarrow> bool" where
  "step_ok st eoa sz r \<longleftrightarrow>
     (case r of
        Inl err \<Rightarrow> \<exists>at n. err = AggregateOverflow at n \<and> at \<le> eoa \<and> n \<le> max sz aggregate_block_size
          \<and> u64_max < at + n
      | Inr (st', aa) \<Rightarrow> accounted st eoa sz st' aa)"

lemma reserve_at_eoa_ok:
  assumes inv: "ca_inv (ca_windows cls own other) eoa" and sz: "0 < sz"
    and own: "\<And>w. own = Some w \<Longrightarrow> ext_end (ag_range w) \<noteq> eoa"
  shows "\<exists>r. reserve_at_eoa dbg cls own other eoa sz = Some r \<and> step_ok (ca_windows cls own other) eoa sz r"
proof -
  define t where "t = releases_tail other eoa"
  define eoa' where "eoa' = (case t of Some u \<Rightarrow> ext_start u | None \<Rightarrow> eoa)"
  define other' where "other' = (case t of Some u \<Rightarrow> None | None \<Rightarrow> other)"
  have inv': "ca_inv (ca_windows cls own other') eoa'" "eoa' \<le> eoa"
    "ca_used (ca_windows cls own other) eoa = ca_used (ca_windows cls own other') eoa'"
    using tail_released [OF inv own, of "the t"] inv
    by (auto simp: eoa'_def other'_def t_def split: option.splits)
  note acc = accounted_cong [OF inv'(3)]
  show ?thesis
  proof (cases "aggregate_block_size \<le> sz")
    case True
    have "ext_new eoa' sz = (if eoa' + sz \<le> u64_max then Some \<lparr>ext_start = eoa', ext_len = sz\<rparr> else None)"
      using sz by simp
    then show ?thesis
      using accounted_large [OF inv'(1) sz] inv'(2) True acc
      unfolding reserve_at_eoa_def t_def [symmetric] eoa'_def [symmetric] other'_def [symmetric] Let_def
      by (auto simp: step_ok_def)
  next
    case False
    show ?thesis
    proof (cases "eoa' + aggregate_block_size \<le> u64_max")
      case fits: True
      let ?w = "\<lparr>ag_range = \<lparr>ext_start = eoa', ext_len = aggregate_block_size\<rparr>, ag_cursor = eoa'\<rparr>"
      have "aggregate_take dbg ?w sz = Some (Inr (?w\<lparr>ag_cursor := eoa' + sz\<rparr>, \<lparr>ext_start = eoa', ext_len = sz\<rparr>))"
        using aggregate_take_ok(1) [of ?w sz dbg] fits False sz by (simp add: aggregate_block_size_def)
      moreover have "ext_new eoa' aggregate_block_size = Some \<lparr>ext_start = eoa', ext_len = aggregate_block_size\<rparr>"
        using fits by (simp add: aggregate_block_size_def)
      ultimately show ?thesis
        using accounted_small [OF inv'(1) sz _ fits] False acc
        unfolding reserve_at_eoa_def t_def [symmetric] eoa'_def [symmetric] other'_def [symmetric] Let_def
        by (simp add: step_ok_def del: ext_new_Some)
    next
      case over: False
      then have "ext_new eoa' aggregate_block_size = None" by simp
      then show ?thesis
        using over False inv'(2)
        unfolding reserve_at_eoa_def t_def [symmetric] eoa'_def [symmetric] other'_def [symmetric] Let_def
        by (auto simp: step_ok_def simp del: ext_new_None)
    qed
  qed
qed

lemma ca_reserve_grow:
  assumes inv: "ca_inv (ca_windows cls (Some w) other) eoa" and sz: "0 < sz"
    and at_eoa: "ext_end (ag_range w) = eoa"
    and more: "\<not> sz \<le> (case aggregate_unused w of None \<Rightarrow> 0 | Some u \<Rightarrow> ext_len u)"
  shows "\<exists>r. ca_reserve dbg (ca_windows cls (Some w) other) eoa sz cls = Some r
     \<and> step_ok (ca_windows cls (Some w) other) eoa sz r"
proof -
  define g where "g = (if aggregate_block_size \<le> sz then sz else aggregate_block_size)"
  have g: "sz \<le> g" "g \<le> max sz aggregate_block_size" by (auto simp: g_def)
  have wf: "wf_aggregate w" using inv by (simp add: ca_inv_windows)
  then have s: "ext_start (ag_range w) < ag_cursor w" "ag_cursor w \<le> eoa" using at_eoa by (simp_all add: wf_aggregate_def)
  have r: "ca_reserve dbg (ca_windows cls (Some w) other) eoa sz cls =
      (case addr_checked_add eoa g of
         Inl _ \<Rightarrow> Some (Inl (AggregateOverflow eoa g))
       | Inr stop \<Rightarrow> do {
           rng \<leftarrow> ext_between (ext_start (ag_range w)) stop;
           try_bind (aggregate_take dbg (w\<lparr>ag_range := rng\<rparr>) sz) (\<lambda>(w, e).
             Some (Inr (ca_windows cls (Some w) other, \<lparr>aa_extent = e, aa_eoa = stop, aa_released = None\<rparr>))) })"
    unfolding g_def using more at_eoa by (cases "aggregate_block_size \<le> sz") (simp_all add: ca_reserve_def)
  show ?thesis
  proof (cases "eoa + g \<le> u64_max")
    case True
    let ?rng = "\<lparr>ext_start = ext_start (ag_range w), ext_len = eoa + g - ext_start (ag_range w)\<rparr>"
    have b: "addr_checked_add eoa g = Inr (eoa + g)" "ext_between (ext_start (ag_range w)) (eoa + g) = Some ?rng"
      using True s by (simp_all add: checked)
    have "aggregate_take dbg (w\<lparr>ag_range := ?rng\<rparr>) sz
       = Some (Inr (w\<lparr>ag_range := ?rng, ag_cursor := ag_cursor w + sz\<rparr>, \<lparr>ext_start = ag_cursor w, ext_len = sz\<rparr>))"
      using aggregate_take_ok(1) [of "w\<lparr>ag_range := ?rng\<rparr>" sz dbg] True s sz g(1) by simp
    then show ?thesis
      using accounted_grow [OF inv sz g(1) at_eoa True]
      by (simp add: r b step_ok_def del: ext_between_Some)
  next
    case False
    then have "addr_checked_add eoa g = Inl (OffsetOverflow eoa g)"
      by (simp add: addr_checked_add_def checked_add_def ok_or_def)
    then show ?thesis using False g(2) unfolding r by (auto simp: step_ok_def)
  qed
qed

lemma ca_allocate_ok:
  assumes inv: "ca_inv st eoa" and sz: "0 < sz"
  shows "\<exists>r. ca_allocate dbg st eoa sz cls = Some r \<and> step_ok st eoa sz r"
proof -
  define own where "own = ca_own st cls"
  define other where "other = ca_other st cls"
  have st: "st = ca_windows cls own other" by (simp add: own_def other_def)
  have inv': "ca_inv (ca_windows cls own other) eoa" using inv by (simp add: st)
  have alloc: "ca_allocate dbg (ca_windows cls own other) eoa sz cls = ca_reserve dbg (ca_windows cls own other) eoa sz cls"
    using minimum_eoa_le [OF inv'] by (simp add: ca_allocate_def)
  show ?thesis
  proof (cases own)
    case None
    then show ?thesis using reserve_at_eoa_ok [OF inv' sz, of dbg] unfolding st alloc by (simp add: ca_reserve_def)
  next
    case (Some w)
    note i = inv' [unfolded Some]
    have wf: "wf_aggregate w" "ext_end (ag_range w) \<le> eoa" using i by (simp_all add: ca_inv_windows)
    have len: "(case aggregate_unused w of None \<Rightarrow> 0 | Some u \<Rightarrow> ext_len u) = ext_end (ag_range w) - ag_cursor w"
      by (simp add: aggregate_unused_eq [OF wf(1)])
    consider (room) "sz \<le> ext_end (ag_range w) - ag_cursor w"
      | (grow) "\<not> sz \<le> ext_end (ag_range w) - ag_cursor w" "ext_end (ag_range w) = eoa"
      | (apart) "\<not> sz \<le> ext_end (ag_range w) - ag_cursor w" "ext_end (ag_range w) \<noteq> eoa" by blast
    then show ?thesis
    proof cases
      case room
      then have fits: "ag_cursor w + sz \<le> ext_end (ag_range w)" using sz by simp
      have "aggregate_take dbg w sz = Some (Inr (w\<lparr>ag_cursor := ag_cursor w + sz\<rparr>, \<lparr>ext_start = ag_cursor w, ext_len = sz\<rparr>))"
        by (rule aggregate_take_ok(1)) (use wf sz fits in \<open>simp_all add: wf_aggregate_def\<close>)
      then show ?thesis
        using accounted_take [OF i sz fits] room unfolding st alloc ca_reserve_def
        by (simp add: Some len step_ok_def)
    next
      case grow
      then show ?thesis using ca_reserve_grow [OF i sz grow(2), of dbg] len unfolding st alloc by (simp add: Some)
    next
      case apart
      then show ?thesis
        using reserve_at_eoa_ok [OF i sz, of dbg] unfolding st alloc by (simp add: ca_reserve_def Some len)
    qed
  qed
qed


section \<open>Releasing\<close>

lemma release_window_ok:
  assumes inv: "ca_inv (ca_windows cls w other) eoa" and r: "release_window w eoa = (w', eoa')"
  shows "ca_inv (ca_windows cls w' other) eoa'" "eoa' \<le> eoa"
    "ca_used (ca_windows cls w' other) eoa' = ca_used (ca_windows cls w other) eoa"
    "\<And>u. Option.bind w' aggregate_unused = Some u \<Longrightarrow> ext_end u \<noteq> eoa'"
    "w' = w \<and> eoa' = eoa \<or> w' = None \<and> (\<exists>a. w = Some a \<and> eoa' = ag_cursor a \<and> ext_end (ag_range a) = eoa)"
proof -
  have d: "w' = w \<and> eoa' = eoa \<and> (\<forall>u. Option.bind w aggregate_unused = Some u \<longrightarrow> ext_end u \<noteq> eoa)
    \<or> w' = None \<and> (\<exists>a. w = Some a \<and> eoa' = ag_cursor a \<and> ag_cursor a < eoa \<and> ext_end (ag_range a) = eoa)"
  proof (cases w)
    case (Some a)
    have "wf_aggregate a" using inv by (simp add: ca_inv_windows Some)
    then show ?thesis using r by (auto simp: release_window_def Some aggregate_unused_eq split: if_splits)
  qed (use r in \<open>auto simp: release_window_def\<close>)
  then show "w' = w \<and> eoa' = eoa \<or> w' = None \<and> (\<exists>a. w = Some a \<and> eoa' = ag_cursor a \<and> ext_end (ag_range a) = eoa)"
    and "eoa' \<le> eoa" and "\<And>u. Option.bind w' aggregate_unused = Some u \<Longrightarrow> ext_end u \<noteq> eoa'"
    by auto
  have "ca_inv (ca_windows cls w' other) eoa' \<and> ca_used (ca_windows cls w' other) eoa' = ca_used (ca_windows cls w other) eoa"
  proof (cases "w' = w \<and> eoa' = eoa")
    case False
    then obtain a where a: "w = Some a" "w' = None" "eoa' = ag_cursor a" "ag_cursor a < eoa" "ext_end (ag_range a) = eoa"
      using d by auto
    have i: "wf_aggregate a" "window_ok eoa other" "ext_bytes (ag_range a) \<inter> window_bytes other = {}" "eoa \<le> u64_max"
      using inv by (simp_all add: ca_inv_windows a(1))
    have "ext_end (ag_range b) \<le> ag_cursor a" if b: "other = Some b" for b
    proof -
      have "wf_extent (ag_range b)" "wf_extent (ag_range a)" "ext_end (ag_range b) \<le> eoa"
        "ext_start (ag_range a) < ag_cursor a"
        using i(1,2) b by (simp_all add: wf_aggregate_def)
      then show ?thesis
        using ext_bytes_disjoint_iff [of "ag_range a" "ag_range b"] i(3) a(5) b wf_extentD(2) [of "ag_range b"] by simp
    qed
    then have "window_ok (ag_cursor a) other" using i(2) by (cases other) auto
    then show ?thesis using i a by (auto simp: ca_inv_windows ca_used_windows)
  qed (use inv in simp)
  then show "ca_inv (ca_windows cls w' other) eoa'"
    "ca_used (ca_windows cls w' other) eoa' = ca_used (ca_windows cls w other) eoa" by auto
qed

lemma ca_windows_meta: "\<lparr>ca_metadata = m, ca_raw = r\<rparr> = ca_windows ClassMetadata m r"
  "\<lparr>ca_metadata = m, ca_raw = r\<rparr> = ca_windows ClassRaw r m"
  by (simp_all add: ca_windows_def)

lemma ca_release_tail_ok:
  assumes inv: "ca_inv st eoa"
  shows "\<exists>st' eoa'. ca_release_tail st eoa = Inr (st', eoa') \<and> ca_inv st' eoa' \<and> eoa' \<le> eoa
     \<and> ca_used st' eoa' = ca_used st eoa
     \<and> (\<forall>cls u. ca_unused st' cls = Some u \<longrightarrow> ext_end u < eoa')"
proof -
  obtain m r where st: "st = \<lparr>ca_metadata = m, ca_raw = r\<rparr>" by (cases st) auto
  obtain m' e1 where 1: "release_window m eoa = (m', e1)" by fastforce
  obtain r' e2 where 2: "release_window r e1 = (r', e2)" by fastforce
  note w1 = release_window_ok [of ClassMetadata m r eoa, OF inv [unfolded st ca_windows_meta(1)] 1]
  have i1: "ca_inv (ca_windows ClassRaw r m') e1" using w1(1) by (simp add: ca_windows_def)
  note w2 = release_window_ok [OF i1 2]
  have res: "ca_release_tail st eoa = Inr (\<lparr>ca_metadata = m', ca_raw = r'\<rparr>, e2)"
    using minimum_eoa_le [OF inv] 1 2 by (simp add: ca_release_tail_def st)
  have inv': "ca_inv \<lparr>ca_metadata = m', ca_raw = r'\<rparr> e2" using w2(1) by (simp add: ca_windows_def)
  have used: "ca_used \<lparr>ca_metadata = m', ca_raw = r'\<rparr> e2 = ca_used st eoa"
    using w1(3) w2(3) by (simp add: ca_windows_def st)
  have meta: "ext_end u < e2" if u: "Option.bind m' aggregate_unused = Some u" for u
  proof -
    obtain a where a: "m' = Some a" "aggregate_unused a = Some u" using u by (cases m') auto
    have wa: "wf_aggregate a" "ext_end (ag_range a) \<le> e2"
      using inv' by (simp_all add: ca_inv_def a(1))
    then have eu: "ext_end u = ext_end (ag_range a)" using a(2) by (auto simp: aggregate_unused_eq split: if_splits)
    show ?thesis
    proof (cases "r' = r \<and> e2 = e1")
      case True
      then show ?thesis using w1(4) [OF u] wa(2) eu by simp
    next
      case False
      then obtain b where b: "r = Some b" "e2 = ag_cursor b" "ext_end (ag_range b) = e1" using w2(5) by auto
      have "wf_aggregate b" "ext_bytes (ag_range b) \<inter> ext_bytes (ag_range a) = {}" "ext_end (ag_range a) \<le> e1"
        using i1 by (simp_all add: ca_inv_windows a(1) b(1))
      then show ?thesis
        using ext_bytes_disjoint_iff [of "ag_range b" "ag_range a"] wa eu b wf_extentD(2) [of "ag_range a"]
        by (simp add: wf_aggregate_def)
    qed
  qed
  have raw: "ext_end u < e2" if u: "Option.bind r' aggregate_unused = Some u" for u
  proof -
    obtain a where a: "r' = Some a" "aggregate_unused a = Some u" using u by (cases r') auto
    have "wf_aggregate a" "ext_end (ag_range a) \<le> e2" using inv' by (simp_all add: ca_inv_def a(1))
    then show ?thesis using w2(4) [OF u] a(2) by (auto simp: aggregate_unused_eq split: if_splits)
  qed
  have "ext_end u < e2" if "ca_unused \<lparr>ca_metadata = m', ca_raw = r'\<rparr> cls = Some u" for cls u
    using that meta raw by (cases cls) (auto simp: ca_unused_def ca_own_def)
  then show ?thesis using res inv' used w1(2) w2(2) by auto
qed

lemma reconcile_ok:
  assumes inv: "ca_inv st eoa0" and eoa: "eoa \<le> eoa0"
    and un: "unused_bytes (ca_metadata st) \<union> unused_bytes (ca_raw st) \<subseteq> {..<eoa}"
  shows "\<exists>st'. reconcile_eoa st eoa = Inr st' \<and> ca_inv st' eoa \<and> ca_used st' eoa = ca_used st eoa0 \<inter> {..<eoa}"
proof -
  have win: "window_ok eoa0 (ca_metadata st)" "window_ok eoa0 (ca_raw st)" using inv by (simp_all add: ca_inv_def)
  have end_le: "ext_end (ag_range a) \<le> eoa"
    if "w = Some a" "aggregate_unused a \<noteq> None" "window_ok eoa0 w" "unused_bytes w \<subseteq> {..<eoa}" for w a
  proof -
    have "ag_cursor a < ext_end (ag_range a)" using that by (auto simp: aggregate_unused_eq split: if_splits)
    then have "ext_end (ag_range a) - 1 \<in> unused_bytes w" using that(1) by auto
    then show ?thesis using that(4) by fastforce
  qed
  have min: "fold max (window_ends (filter (\<lambda>w. Option.bind w aggregate_unused \<noteq> None) [ca_metadata st, ca_raw st])) 0 \<le> eoa"
    using end_le [of "ca_metadata st"] end_le [of "ca_raw st"] win un
    by (cases "ca_metadata st"; cases "ca_raw st") (auto simp: fold_max_le window_ends_def map_filter_simps)
  have f: "window_ok eoa (forget_window eoa w)" "window_bytes (forget_window eoa w) \<subseteq> window_bytes w"
    "unused_bytes (forget_window eoa w) = unused_bytes w" if w: "window_ok eoa0 w" "unused_bytes w \<subseteq> {..<eoa}" for w
    using end_le [of w] w by (cases w; auto simp: forget_window_def aggregate_unused_eq split: if_splits)+
  have "ca_inv \<lparr>ca_metadata = forget_window eoa (ca_metadata st), ca_raw = forget_window eoa (ca_raw st)\<rparr> eoa"
    using f [OF win(1)] f [OF win(2)] un inv eoa by (auto simp: ca_inv_def)
  moreover have "ca_used \<lparr>ca_metadata = forget_window eoa (ca_metadata st), ca_raw = forget_window eoa (ca_raw st)\<rparr> eoa
     = ca_used st eoa0 \<inter> {..<eoa}"
    using f(3) [OF win(1)] f(3) [OF win(2)] un eoa by (auto simp: ca_used_def)
  ultimately show ?thesis using min by (simp add: reconcile_eoa_def)
qed

lemma reconcile_refuses:
  assumes inv: "ca_inv st eoa0"
    and un: "\<not> unused_bytes (ca_metadata st) \<union> unused_bytes (ca_raw st) \<subseteq> {..<eoa}"
  shows "\<exists>m. reconcile_eoa st eoa = Inl (EndOfAllocationTooSmall eoa m) \<and> eoa < m"
proof -
  let ?ws = "filter (\<lambda>w. Option.bind w aggregate_unused \<noteq> None) [ca_metadata st, ca_raw st]"
  have "\<exists>a. w = Some a \<and> aggregate_unused a \<noteq> None \<and> eoa < ext_end (ag_range a)"
    if "window_ok eoa0 w" "\<not> unused_bytes w \<subseteq> {..<eoa}" for w
    using that by (cases w) (auto simp: aggregate_unused_eq not_less)
  moreover have "window_ok eoa0 (ca_metadata st)" "window_ok eoa0 (ca_raw st)" using inv by (simp_all add: ca_inv_def)
  ultimately obtain a where a: "ca_metadata st = Some a \<or> ca_raw st = Some a" "aggregate_unused a \<noteq> None"
    "eoa < ext_end (ag_range a)"
    using un by (metis Un_subset_iff)
  then have "Some a \<in> set ?ws" by auto
  then have "ext_end (ag_range a) \<in> set (window_ends ?ws)"
    unfolding window_ends_def set_map set_map_filter by force
  then have "\<not> fold max (window_ends ?ws) 0 \<le> eoa" 
    using a(3) fold_max_le [of "window_ends ?ws" 0 eoa] leD by blast
  then show ?thesis unfolding reconcile_eoa_def Let_def not_le by simp
qed

end
