(* ===== verification/Aggregator_Properties.thy ===== *)
theory Aggregator_Properties
  imports Aggregator
begin

text \<open>
  The contract of the aggregates: no byte is handed out twice, every byte is accounted for, and
  the end of allocation shrinks exactly past unused tails.
\<close>

section \<open>Histories\<close>

text \<open>
  The states a session reaches from empty aggregates by successful allocations and tail releases,
  with the extents handed out so far.
\<close>

inductive agg_history :: "bool \<Rightarrow> stored_address \<Rightarrow> classic_aggregators \<Rightarrow> stored_address \<Rightarrow> extent list \<Rightarrow> bool"
  for dbg :: bool and eoa0 :: stored_address where
  agg_start: "eoa0 \<le> u64_max \<Longrightarrow> agg_history dbg eoa0 ca_new eoa0 []"
| agg_allocate: "agg_history dbg eoa0 st eoa es \<Longrightarrow> 0 < sz \<Longrightarrow>
    ca_allocate dbg st eoa sz cls = Some (Inr (st', aa)) \<Longrightarrow>
    agg_history dbg eoa0 st' (aa_eoa aa) (aa_extent aa # es)"
| agg_release: "agg_history dbg eoa0 st eoa es \<Longrightarrow> ca_release_tail st eoa = Inr (st', eoa') \<Longrightarrow>
    agg_history dbg eoa0 st' eoa' es"

lemma agg_history_inv:
  "agg_history dbg eoa0 st eoa es \<Longrightarrow>
     ca_inv st eoa \<and> disjoint_all (map ext_bytes es) \<and> region_bytes es \<union> {..<eoa0} \<subseteq> ca_used st eoa
     \<and> region_bytes es \<inter> {..<eoa0} = {}"
proof (induction rule: agg_history.induct)
  case agg_start
  then show ?case by (simp add: ca_inv_def ca_new_def ca_used_def)
next
  case (agg_allocate st eoa es sz cls st' aa)
  then have "accounted st eoa sz st' aa"
    using ca_allocate_ok [of st eoa sz dbg cls] by (auto simp: step_ok_def)
  then have a: "ca_inv st' (aa_eoa aa)" "ext_bytes (aa_extent aa) \<inter> ca_used st eoa = {}"
    "ca_used st eoa \<union> ext_bytes (aa_extent aa) \<subseteq> ca_used st' (aa_eoa aa)"
    by (auto simp: accounted_def)
  have "ext_bytes (aa_extent aa) \<inter> \<Union>(set (map ext_bytes es)) = {}"
    using a(2) agg_allocate.IH by (auto simp: region_bytes_def)
  then show ?case using a agg_allocate.IH by auto
next
  case (agg_release st eoa es st' eoa')
  then show ?case using ca_release_tail_ok [of st eoa] by auto
qed

section \<open>Properties\<close>

text \<open>C18: an allocation from the aggregates never panics. It fails only if a range derived from the
  request would end beyond the largest address. Otherwise the extent has the requested length and
  the bytes in use grow by exactly the new extent and the released rest of a replaced aggregate,
  which overlap neither each other nor any byte in use.\<close>

theorem aggregate_allocate_accounts:
  assumes "ca_inv st eoa" "0 < sz"
  shows "\<exists>r. ca_allocate dbg st eoa sz cls = Some r \<and>
    (case r of
       Inl err \<Rightarrow> \<exists>at n. err = AggregateOverflow at n \<and> at \<le> eoa \<and> n \<le> max sz aggregate_block_size
         \<and> u64_max < at + n
     | Inr (st', aa) \<Rightarrow> ca_inv st' (aa_eoa aa) \<and> wf_extent (aa_extent aa) \<and> ext_len (aa_extent aa) = sz
         \<and> ext_bytes (aa_extent aa) \<inter> ca_used st eoa = {} \<and> opt_bytes (aa_released aa) \<inter> ca_used st eoa = {}
         \<and> ext_bytes (aa_extent aa) \<inter> opt_bytes (aa_released aa) = {}
         \<and> ca_used st' (aa_eoa aa) = ca_used st eoa \<union> ext_bytes (aa_extent aa) \<union> opt_bytes (aa_released aa))"
  using ca_allocate_ok [OF assms, of dbg cls] unfolding step_ok_def accounted_def .

lemma empty_inv: "eoa \<le> u64_max \<Longrightarrow> ca_inv ca_new eoa"
  by (simp add: ca_inv_def ca_new_def)

lemmas aggregate_eval = ca_allocate_def ca_reserve_def reserve_at_eoa_def releases_tail_def ca_new_def
  ca_own_def ca_other_def ca_windows_def minimum_eoa_def window_ends_def map_filter_simps
  aggregate_block_size_def aggregate_take_def debug_assert_def checked u64_max_def

abbreviation first_alloc :: "classic_aggregators \<times> aggregation_allocation" where
  "first_alloc \<equiv>
     (\<lparr>ca_metadata = None,
       ca_raw = Some \<lparr>ag_range = \<lparr>ext_start = 8192, ext_len = 2048\<rparr>, ag_cursor = 8256\<rparr>\<rparr>,
      \<lparr>aa_extent = \<lparr>ext_start = 8192, ext_len = 64\<rparr>, aa_eoa = 10240, aa_released = None\<rparr>)"

lemma first_alloc_eq: "ca_allocate True ca_new 8192 64 ClassRaw = Some (Inr first_alloc)"
  by (simp add: aggregate_eval)

theorem aggregate_allocate_accounts_witness:
  "ca_inv (fst first_alloc) 10240 \<and> ca_used (fst first_alloc) 10240 = {..<8256}"
proof -
  have "ca_used ca_new 8192 \<union> {8192..<8256} = {..<8256}" by (auto simp: ca_used_def ca_new_def)
  then show ?thesis
    using aggregate_allocate_accounts [OF empty_inv, of 8192 64 True ClassRaw] first_alloc_eq
    by (simp add: u64_max_def)
qed

text \<open>C19: in every state a session reaches from empty aggregates, the windows are well formed,
  disjoint and below the end of allocation, and the extents handed out are pairwise disjoint,
  counted as used, and above the original end of allocation.\<close>

theorem aggregate_history_safe:
  assumes "agg_history dbg eoa0 st eoa es"
  shows "ca_inv st eoa \<and> disjoint_all (map ext_bytes es) \<and> region_bytes es \<subseteq> ca_used st eoa
     \<and> region_bytes es \<inter> {..<eoa0} = {} \<and> {..<eoa0} \<subseteq> ca_used st eoa"
  using agg_history_inv [OF assms] by blast

theorem aggregate_history_safe_witness:
  "disjoint_all (map ext_bytes [\<lparr>ext_start = 8192, ext_len = 64\<rparr>])
     \<and> {8192..<8256} \<subseteq> ca_used (fst first_alloc) 10240"
proof -
  have "agg_history True 8192 ca_new 8192 []" by (rule agg_start) (simp add: u64_max_def)
  from agg_allocate [OF this _ first_alloc_eq]
  have "agg_history True 8192 (fst first_alloc) 10240 [\<lparr>ext_start = 8192, ext_len = 64\<rparr>]" by simp
  from aggregate_history_safe [OF this] show ?thesis by simp
qed

text \<open>C20: releasing tails keeps the bytes in use, lowers the end of allocation, and leaves no
  aggregate whose unused space reaches the new end.\<close>

theorem release_tail_exact:
  assumes "ca_inv st eoa"
  shows "\<exists>st' eoa'. ca_release_tail st eoa = Inr (st', eoa') \<and> ca_inv st' eoa' \<and> eoa' \<le> eoa
     \<and> ca_used st' eoa' = ca_used st eoa
     \<and> (\<forall>cls u. ca_unused st' cls = Some u \<longrightarrow> ext_end u < eoa')"
  by (rule ca_release_tail_ok [OF assms])

theorem release_tail_exact_witness:
  "\<exists>st' eoa'. ca_release_tail (fst first_alloc) 10240 = Inr (st', eoa') \<and> ca_inv st' eoa' \<and> eoa' \<le> 10240"
proof -
  have "ca_inv (fst first_alloc) 10240"
    by (simp add: ca_inv_def wf_aggregate_def u64_max_def)
  from release_tail_exact [OF this] show ?thesis by blast
qed

text \<open>C21: a reset clears both aggregates and accounts for all their unused space: what is below
  the new end of allocation and not released is exactly what was in use, and the released extents
  do not overlap.\<close>

theorem reset_accounts:
  assumes "ca_inv st eoa"
  shows "\<exists>rel. ca_reset st eoa = Inr (ca_new, rel) \<and> rel_eoa rel \<le> eoa
     \<and> {..<rel_eoa rel} - (opt_bytes (rel_released rel ClassMetadata) \<union> opt_bytes (rel_released rel ClassRaw))
         = ca_used st eoa
     \<and> opt_bytes (rel_released rel ClassMetadata) \<inter> opt_bytes (rel_released rel ClassRaw) = {}
     \<and> opt_bytes (rel_released rel ClassMetadata) \<union> opt_bytes (rel_released rel ClassRaw) \<subseteq> {..<rel_eoa rel}"
proof -
  obtain st' eoa' where r: "ca_release_tail st eoa = Inr (st', eoa')" "ca_inv st' eoa'" "eoa' \<le> eoa"
    "ca_used st' eoa' = ca_used st eoa"
    using ca_release_tail_ok [OF assms] by blast
  have w: "window_ok eoa' (ca_metadata st')" "window_ok eoa' (ca_raw st')"
    "window_bytes (ca_metadata st') \<inter> window_bytes (ca_raw st') = {}"
    using r(2) by (simp_all add: ca_inv_def)
  have "unused_bytes (ca_metadata st') \<inter> unused_bytes (ca_raw st') = {}"
    "unused_bytes (ca_metadata st') \<union> unused_bytes (ca_raw st') \<subseteq> {..<eoa'}"
    using unused_in_window [OF w(1)] unused_in_window [OF w(2)] window_below [OF w(1)] window_below [OF w(2)] w(3)
    by blast+
  then show ?thesis
    using r w by (auto simp: ca_reset_def rel_released_def ca_unused_def ca_own_def opt_bytes_unused ca_used_def)
qed

theorem reset_accounts_witness:
  "\<exists>rel. ca_reset (fst first_alloc) 10240 = Inr (ca_new, rel)
     \<and> {..<rel_eoa rel} - (opt_bytes (rel_released rel ClassMetadata) \<union> opt_bytes (rel_released rel ClassRaw))
       = ca_used (fst first_alloc) 10240"
proof -
  have "ca_inv (fst first_alloc) 10240"
    by (simp add: ca_inv_def wf_aggregate_def u64_max_def)
  from reset_accounts [OF this] show ?thesis by blast
qed

text \<open>C22: reconciling with a lower end of allocation is refused exactly if unused aggregate space
  lies beyond it. Otherwise only consumed windows are forgotten: the invariant holds for the new
  end, and the bytes in use below it are unchanged.\<close>

theorem reconcile_result:
  assumes "ca_inv st eoa0" "eoa \<le> eoa0"
  shows "if unused_bytes (ca_metadata st) \<union> unused_bytes (ca_raw st) \<subseteq> {..<eoa}
    then \<exists>st'. reconcile_eoa st eoa = Inr st' \<and> ca_inv st' eoa \<and> ca_used st' eoa = ca_used st eoa0 \<inter> {..<eoa}
    else \<exists>m. reconcile_eoa st eoa = Inl (EndOfAllocationTooSmall eoa m) \<and> eoa < m"
  using reconcile_ok [OF assms] reconcile_refuses [OF assms(1), of eoa] by auto

theorem reconcile_result_witness:
  "(\<exists>st'. reconcile_eoa (fst first_alloc) 10240 = Inr st' \<and> ca_inv st' 10240)
   \<and> (\<exists>m. reconcile_eoa (fst first_alloc) 9000 = Inl (EndOfAllocationTooSmall 9000 m))"
proof -
  have inv: "ca_inv (fst first_alloc) 20000"
    by (simp add: ca_inv_def wf_aggregate_def u64_max_def)
  have un: "unused_bytes (ca_metadata (fst first_alloc)) \<union> unused_bytes (ca_raw (fst first_alloc)) = {8256..<10240}"
    by simp
  have "9500 \<in> {8256..<10240::nat}" "9500 \<notin> {..<9000::nat}" by auto
  then have "{8256..<10240} \<subseteq> {..<10240::nat}" "\<not> {8256..<10240} \<subseteq> {..<9000::nat}" by (auto, blast)
  then show ?thesis
    using reconcile_result [OF inv, of 10240] reconcile_result [OF inv, of 9000] unfolding un by auto
qed

end
