(* ===== verification/Persistence.thy ===== *)
theory Persistence
  imports Admission_Batch
begin

text \<open>
  The division of free space among the managers a file persists
  (\<^verbatim>\<open>hdf5-pure-space/src/persistence.rs\<close>): \<^verbatim>\<open>PageParts\<close> splits an extent at page boundaries, and
  \<^verbatim>\<open>ManagerSections\<close> groups the sections of a session by manager.

  The lemmas show that the parts of an extent are ordered and cover it, that the interior holds
  exactly its whole pages and each edge lies in one page, and that the managers together hold
  exactly the bytes of the lists they are made from.
\<close>

datatype manager_kind = Flat | PagedLargeGeneric | PagedSmallMetadata | PagedSmallRaw

record manager_sections =
  ms_kind :: manager_kind
  ms_sections :: "extent list"

definition ms_flat :: "extent list \<Rightarrow> manager_sections list" where
  "ms_flat sections =
     (if sections = [] then [] else [\<lparr>ms_kind = Flat, ms_sections = sections\<rparr>])"

record page_parts =
  pp_leading :: "extent option"
  pp_interior :: "extent option"
  pp_trailing :: "extent option"

definition page_parts_new :: "extent \<Rightarrow> page_size \<Rightarrow> page_parts" where
  "page_parts_new e page =
     (case aligned_interior e page of
        Some interior \<Rightarrow>
          \<lparr>pp_leading = ext_between (ext_start e) (ext_start interior),
           pp_interior = Some interior,
           pp_trailing = ext_between (ext_end interior) (ext_end e)\<rparr>
      | None \<Rightarrow>
          let boundary = min (case addr_checked_add (ext_start e) (page - ext_start e mod page) of
                                Inl _ \<Rightarrow> ext_end e | Inr b \<Rightarrow> b) (ext_end e)
          in \<lparr>pp_leading = ext_between (ext_start e) boundary,
              pp_interior = None,
              pp_trailing = ext_between boundary (ext_end e)\<rparr>)"

definition flatten :: "'a option list \<Rightarrow> 'a list" where
  "flatten xs = List.map_filter id xs"

definition pp_edges :: "page_parts \<Rightarrow> extent list" where
  "pp_edges self = flatten [pp_leading self, pp_trailing self]"

definition pp_count :: "page_parts \<Rightarrow> nat" where
  "pp_count self =
     of_bool (pp_leading self \<noteq> None) + of_bool (pp_interior self \<noteq> None)
     + of_bool (pp_trailing self \<noteq> None)"

fun split_typed ::
  "extent list \<Rightarrow> page_size \<Rightarrow> extent list \<Rightarrow> extent list \<Rightarrow> extent list \<times> extent list" where
  "split_typed [] page small generic = (small, generic)"
| "split_typed (e # sections) page small generic =
     (let parts = page_parts_new e page
      in split_typed sections page
           (small @ flatten [pp_leading parts] @ flatten [pp_trailing parts])
           (generic @ flatten [pp_interior parts]))"

definition paged_lists ::
  "bool \<Rightarrow> extent list \<Rightarrow> extent list \<Rightarrow> extent list \<Rightarrow> page_size \<Rightarrow> manager_sections list option" where
  "paged_lists dbg metadata_extents raw_extents unclassified page =
     (let (metadata, generic) = split_typed metadata_extents page [] [];
          (raw, generic) = split_typed raw_extents page [] generic;
          generic = sort_key ext_start (generic @ unclassified)
      in do {
        debug_assert dbg (list_all (\<lambda>(a, b). ext_start a < ext_start b) (windows2 generic));
        Some (map (\<lambda>(kind, sections). \<lparr>ms_kind = kind, ms_sections = sections\<rparr>)
          (filter (\<lambda>(kind, sections). sections \<noteq> [])
            [(PagedSmallMetadata, metadata), (PagedSmallRaw, raw), (PagedLargeGeneric, generic)])) })"

section \<open>Parts of an extent\<close>

definition pp_parts :: "page_parts \<Rightarrow> extent list" where
  "pp_parts parts = flatten [pp_leading parts, pp_interior parts, pp_trailing parts]"

lemma flatten_simps [simp]:
  "flatten [] = []" "flatten (None # xs) = flatten xs" "flatten (Some x # xs) = x # flatten xs"
  by (simp_all add: flatten_def map_filter_simps)

lemma region_bytes_flatten: "region_bytes (flatten xs) = (\<Union>x \<in> set xs. opt_bytes x)"
proof (induction xs)
  case (Cons x xs)
  then show ?case by (cases x) auto
qed simp

lemma page_next: "0 < p \<Longrightarrow> s + (p - s mod p) = s div p * p + p" for s p :: nat
  using mod_less_divisor [of p s] div_mult_mod_eq [of s p] by linarith

lemma next_multiple_cases:
  "0 < p \<Longrightarrow> next_multiple_of s p = (if p dvd s then s else s div p * p + p)"
  using page_next [of p s] by (auto simp: next_multiple_of_def dvd_eq_mod_eq_0)

text \<open>The boundary used when no whole page lies inside.\<close>

lemma page_parts_none:
  assumes wf: "wf_extent e" and p: "0 < page" and none: "aligned_interior e page = None"
  defines "b \<equiv> min (ext_start e div page * page + page) (ext_end e)"
  shows "page_parts_new e page = \<lparr>pp_leading = ext_between (ext_start e) b, pp_interior = None,
      pp_trailing = ext_between b (ext_end e)\<rparr>"
    and "ext_start e < b" "b \<le> ext_end e" "ext_end e \<le> b + page" "b < ext_end e \<longrightarrow> page dvd b"
    "b \<le> ext_start e div page * page + page"
proof -
  note w = wf_extentD [OF wf]
  show "page_parts_new e page = \<lparr>pp_leading = ext_between (ext_start e) b, pp_interior = None,
      pp_trailing = ext_between b (ext_end e)\<rparr>"
  proof (cases "ext_start e + (page - ext_start e mod page) \<le> u64_max")
    case True
    then have "addr_checked_add (ext_start e) (page - ext_start e mod page) = Inr (ext_start e + (page - ext_start e mod page))"
      by (simp add: checked)
    then show ?thesis
      by (simp only: page_parts_new_def none option.case sum.case Let_def b_def page_next [OF p])
  next
    case False
    then have "addr_checked_add (ext_start e) (page - ext_start e mod page) = Inl (OffsetOverflow (ext_start e) (page - ext_start e mod page))"
      by (simp add: addr_checked_add_def checked_add_def ok_or_def)
    moreover have "b = ext_end e" using False w(3) unfolding b_def page_next [OF p] by simp
    ultimately show ?thesis by (simp only: page_parts_new_def none option.case sum.case Let_def min.idem)
  qed
  have lt: "ext_start e < ext_start e div page * page + page" using dividend_less_div_times [OF p, of "ext_start e"] by simp
  show "ext_start e < b" "b \<le> ext_end e" "b \<le> ext_start e div page * page + page"
    using lt w(2) by (simp_all add: b_def)
  show "b < ext_end e \<longrightarrow> page dvd b" by (auto simp: b_def min_def)
  have "next_multiple_of (ext_start e) page \<ge> ext_end e div page * page"
  proof (rule ccontr)
    assume less: "\<not> ?thesis"
    let ?i = "\<lparr>ext_start = next_multiple_of (ext_start e) page,
      ext_len = ext_end e div page * page - next_multiple_of (ext_start e) page\<rparr>"
    have "aligned_interior e page = Some ?i"
      unfolding aligned_interior_Some [OF wf p] using less by simp
    then show False using none by simp
  qed
  moreover have "next_multiple_of (ext_start e) page \<le> ext_start e div page * page + page"
    using p by (auto simp: next_multiple_cases)
  ultimately show "ext_end e \<le> b + page"
    using dividend_less_div_times [OF p, of "ext_end e"] by (simp add: b_def min_def)
qed

lemma ext_between_if:
  "v \<le> u64_max \<Longrightarrow> ext_between u v = (if u < v then Some \<lparr>ext_start = u, ext_len = v - u\<rparr> else None)"
  by (simp add: checked)

lemma pieces_ordered:
  assumes "s \<le> a" "a \<le> b" "b \<le> t" "t \<le> u64_max"
  shows "ordered_regions (flatten [ext_between s a, ext_between a b, ext_between b t])"
    "region_bytes (flatten [ext_between s a, ext_between a b, ext_between b t]) = {s ..< t}"
proof -
  show "ordered_regions (flatten [ext_between s a, ext_between a b, ext_between b t])"
    using assms by (simp add: ext_between_if)
  show "region_bytes (flatten [ext_between s a, ext_between a b, ext_between b t]) = {s ..< t}"
    using assms unfolding region_bytes_flatten by auto
qed

lemma edges_in_page:
  assumes "a \<le> s div p * p + p" "p dvd b \<or> b = t" "t \<le> b + p" "a \<le> u64_max" "t \<le> u64_max"
  shows "\<forall>d \<in> set (flatten [ext_between s a, ext_between b t]). ext_bytes d \<subseteq> unit_bytes p (ext_start d)"
proof -
  have "{s ..< a} \<subseteq> unit_bytes p s"
    using assms(1) by (auto simp: unit_bytes_def div_mult_le_self intro: order_trans)
  moreover have "{b ..< t} \<subseteq> unit_bytes p b" if "b < t"
    using that assms(2,3) by (auto simp: unit_bytes_def)
  ultimately show ?thesis using assms(4,5) by (simp add: ext_between_if)
qed

lemma page_parts_cut:
  assumes wf: "wf_extent e" and p: "0 < page"
  obtains a b where "ext_start e \<le> a" "a \<le> b" "b \<le> ext_end e"
    "page_parts_new e page = \<lparr>pp_leading = ext_between (ext_start e) a, pp_interior = ext_between a b,
       pp_trailing = ext_between b (ext_end e)\<rparr>"
    "a \<le> ext_start e div page * page + page" "page dvd b \<or> b = ext_end e" "ext_end e \<le> b + page"
    "{a ..< b} = {x. unit_bytes page x \<subseteq> ext_bytes e}"
proof (cases "aligned_interior e page")
  case None
  define b where "b = min (ext_start e div page * page + page) (ext_end e)"
  note b = page_parts_none [OF wf p None, folded b_def]
  then show thesis
    using b aligned_interior_bytes(2) [OF wf p None] by (intro that [of b b]) (auto simp: checked)
next
  case (Some i)
  note i = aligned_interiorD [OF wf p Some]
  have st: "ext_start i \<le> ext_start e div page * page + page"
    using Some unfolding aligned_interior_Some [OF wf p] using p by (auto simp: next_multiple_cases)
  have "ext_between (ext_start i) (ext_end i) = Some i"
    using wf_extentD [OF i(1)] by (auto intro: extent_eqI)
  then show thesis
    using i st aligned_interior_bytes(1) [OF wf p Some]
    by (intro that [of "ext_start i" "ext_end i"]) (simp_all add: page_parts_new_def Some ext_bytes_def del: ext_between_Some)
qed

lemma page_parts_spec:
  assumes wf: "wf_extent e" and p: "0 < page"
  shows "ordered_regions (pp_parts (page_parts_new e page))"
    "region_bytes (pp_parts (page_parts_new e page)) = ext_bytes e"
    "opt_bytes (pp_interior (page_parts_new e page)) = {x. unit_bytes page x \<subseteq> ext_bytes e}"
    "\<forall>d \<in> set (pp_edges (page_parts_new e page)). ext_bytes d \<subseteq> unit_bytes page (ext_start d)"
proof -
  obtain a b where ab: "ext_start e \<le> a" "a \<le> b" "b \<le> ext_end e"
    "page_parts_new e page = \<lparr>pp_leading = ext_between (ext_start e) a, pp_interior = ext_between a b,
       pp_trailing = ext_between b (ext_end e)\<rparr>"
    "a \<le> ext_start e div page * page + page" "page dvd b \<or> b = ext_end e" "ext_end e \<le> b + page"
    "{a ..< b} = {x. unit_bytes page x \<subseteq> ext_bytes e}"
    by (rule page_parts_cut [OF wf p])
  have max: "ext_end e \<le> u64_max" by (rule wf_extentD(3) [OF wf])
  show "ordered_regions (pp_parts (page_parts_new e page))"
    "region_bytes (pp_parts (page_parts_new e page)) = ext_bytes e"
    using pieces_ordered [OF ab(1-3) max] by (simp_all add: pp_parts_def ab(4) ext_bytes_def)
  show "opt_bytes (pp_interior (page_parts_new e page)) = {x. unit_bytes page x \<subseteq> ext_bytes e}"
    using ab(2,3,8) max by (simp add: ab(4))
  show "\<forall>d \<in> set (pp_edges (page_parts_new e page)). ext_bytes d \<subseteq> unit_bytes page (ext_start d)"
    using edges_in_page [OF ab(5-7)] ab(2,3) max by (simp add: pp_edges_def ab(4))
qed

section \<open>Managers\<close>

text \<open>The bytes whose whole page is in a set.\<close>

definition whole_pages :: "page_size \<Rightarrow> nat set \<Rightarrow> nat set" where
  "whole_pages page B = {x. unit_bytes page x \<subseteq> B}"

lemma whole_pages_subset: "0 < page \<Longrightarrow> whole_pages page B \<subseteq> B"
  using unit_bytes_self by (auto simp: whole_pages_def)

lemma canonical_interval:
  assumes "canonical rs" "a < b" "{a ..< b} \<subseteq> region_bytes rs"
  obtains e where "e \<in> set rs" "{a ..< b} \<subseteq> ext_bytes e"
proof -
  have "a \<in> region_bytes rs" using assms(2,3) by auto
  then obtain e where e: "e \<in> set rs" "a \<in> ext_bytes e" by (auto simp: region_bytes_def)
  have "b \<le> ext_end e"
  proof (rule ccontr)
    assume "\<not> b \<le> ext_end e"
    then have "ext_end e \<in> region_bytes rs" using e(2) assms(3) by (auto simp: ext_bytes_def)
    then show False using canonical_end_free [OF assms(1) e(1)] by simp
  qed
  then show thesis using that [OF e(1)] e(2) by (auto simp: ext_bytes_def)
qed

lemma whole_pages_canonical:
  assumes "canonical rs" "0 < page"
  shows "whole_pages page (region_bytes rs) = (\<Union>e \<in> set rs. {x. unit_bytes page x \<subseteq> ext_bytes e})"
proof
  show "whole_pages page (region_bytes rs) \<subseteq> (\<Union>e \<in> set rs. {x. unit_bytes page x \<subseteq> ext_bytes e})"
  proof
    fix x assume "x \<in> whole_pages page (region_bytes rs)"
    then have "{x div page * page ..< x div page * page + page} \<subseteq> region_bytes rs"
      by (simp add: whole_pages_def unit_bytes_def)
    then obtain e where "e \<in> set rs" "unit_bytes page x \<subseteq> ext_bytes e"
      using canonical_interval [OF assms(1)] assms(2) unfolding unit_bytes_def by (metis less_add_same_cancel1)
    then show "x \<in> (\<Union>e \<in> set rs. {x. unit_bytes page x \<subseteq> ext_bytes e})" by blast
  qed
qed (auto simp: whole_pages_def region_bytes_def)

abbreviation parts_edges :: "page_size \<Rightarrow> extent list \<Rightarrow> extent list" where
  "parts_edges page es \<equiv> concat (map (\<lambda>e. pp_edges (page_parts_new e page)) es)"

abbreviation parts_interiors :: "page_size \<Rightarrow> extent list \<Rightarrow> extent list" where
  "parts_interiors page es \<equiv> concat (map (\<lambda>e. flatten [pp_interior (page_parts_new e page)]) es)"

lemma split_typed_eq:
  "split_typed es page small generic = (small @ parts_edges page es, generic @ parts_interiors page es)"
proof (induction es arbitrary: small generic)
  case (Cons e es)
  have "flatten [pp_leading q] @ flatten [pp_trailing q] = pp_edges q" for q
    by (cases "pp_leading q"; cases "pp_trailing q") (simp_all add: pp_edges_def)
  then show ?case using Cons by (simp add: Let_def flip: append_assoc)
qed simp

lemma page_edge_bytes:
  assumes wf: "wf_extent e" and p: "0 < page"
  shows "region_bytes (pp_edges (page_parts_new e page)) = ext_bytes e - {x. unit_bytes page x \<subseteq> ext_bytes e}"
proof -
  let ?q = "page_parts_new e page"
  have o: "ordered_regions (flatten [pp_leading ?q, pp_interior ?q, pp_trailing ?q])"
    using page_parts_spec(1) [OF wf p] by (simp add: pp_parts_def)
  have all: "opt_bytes (pp_leading ?q) \<union> opt_bytes (pp_interior ?q) \<union> opt_bytes (pp_trailing ?q) = ext_bytes e"
    using page_parts_spec(2) [OF wf p] by (auto simp: pp_parts_def region_bytes_flatten)
  have "(opt_bytes (pp_leading ?q) \<union> opt_bytes (pp_trailing ?q)) \<inter> opt_bytes (pp_interior ?q) = {}"
    using o by (cases "pp_leading ?q"; cases "pp_interior ?q"; cases "pp_trailing ?q")
      (auto simp: ext_bytes_def)
  then show ?thesis
    using all page_parts_spec(3) [OF wf p] by (auto simp: pp_edges_def region_bytes_flatten)
qed

lemma region_bytes_concat_map: "region_bytes (concat (map f es)) = (\<Union>e \<in> set es. region_bytes (f e))"
  by (induction es) auto

lemma parts_interiors_bytes:
  assumes "canonical rs" "0 < page"
  shows "region_bytes (parts_interiors page rs) = whole_pages page (region_bytes rs)"
  unfolding whole_pages_canonical [OF assms] region_bytes_concat_map
  using page_parts_spec(3) [OF canonical_wf [OF assms(1)] assms(2)]
  by (auto simp: region_bytes_flatten)

lemma parts_edges_bytes:
  assumes can: "canonical rs" and p: "0 < page"
  shows "region_bytes (parts_edges page rs) = region_bytes rs - whole_pages page (region_bytes rs)"
proof -
  have "\<not> unit_bytes page x \<subseteq> ext_bytes d"
    if e: "e \<in> set rs" "x \<in> ext_bytes e" "\<not> unit_bytes page x \<subseteq> ext_bytes e" and d: "d \<in> set rs" for e d x
  proof
    assume sub: "unit_bytes page x \<subseteq> ext_bytes d"
    then have x: "x \<in> ext_bytes d" using unit_bytes_self [OF p] by blast
    have "ext_start e \<le> ext_start d" "ext_start d \<le> ext_start e"
      using canonical_in_order [OF can d e(1)] canonical_in_order [OF can e(1) d] x e(2)
      by (auto simp: ext_bytes_def not_less intro: ccontr)
    then have "d = e" using canonical_starts_distinct [OF can d e(1)] by simp
    then show False using sub e(3) by simp
  qed
  then show ?thesis
    unfolding whole_pages_canonical [OF can p] region_bytes_concat_map
    using page_edge_bytes [OF canonical_wf [OF can] p] by (fastforce simp: region_bytes_def)
qed

lemma parts_edges_in_page:
  assumes "canonical rs" "0 < page" "d \<in> set (parts_edges page rs)"
  shows "ext_bytes d \<subseteq> unit_bytes page (ext_start d)"
  using assms page_parts_spec(4) [OF canonical_wf [OF assms(1)] assms(2)] by auto

lemma parts_interiors_ordered:
  assumes "canonical rs" "0 < page"
  shows "ordered_regions (parts_interiors page rs)"
  using assms(1)
proof (induction rs)
  case (Cons e rs)
  have can: "wf_extent e" "canonical rs" "\<forall>r \<in> set rs. ext_end e < ext_start r"
    using Cons.prems by auto
  have inside: "ext_start r \<le> ext_start d \<and> ext_end d \<le> ext_end r"
    if "pp_interior (page_parts_new r page) = Some d" "wf_extent r" for d r
    using that aligned_interiorD(4,5) [OF that(2) assms(2), of d]
    by (auto simp: page_parts_new_def Let_def split: option.splits)
  have later: "ext_end e < ext_start d" if d: "d \<in> set (parts_interiors page rs)" for d
  proof -
    obtain r where "r \<in> set rs" "pp_interior (page_parts_new r page) = Some d"
      using d by (auto split: option.splits simp: flatten_def map_filter_simps)
    then show ?thesis using inside [of r d] can(3) canonical_wf [OF can(2)] by fastforce
  qed
  have wf: "wf_extent d" if "pp_interior (page_parts_new e page) = Some d" for d
    using page_parts_spec(1) [OF can(1) assms(2)] that
    by (cases "pp_leading (page_parts_new e page)") (auto simp: pp_parts_def)
  show ?case
  proof (cases "pp_interior (page_parts_new e page)")
    case None
    then show ?thesis using Cons.IH [OF can(2)] by simp
  next
    case (Some d)
    have "\<forall>r \<in> set (parts_interiors page rs). ext_end d \<le> ext_start r"
      using later inside [OF Some can(1)] by fastforce
    then show ?thesis using Cons.IH [OF can(2)] wf [OF Some] Some by simp
  qed
qed simp

lemma ordered_starts_strict: "ordered_regions es \<Longrightarrow> list_all (\<lambda>(a, b). ext_start a < ext_start b) (windows2 es)"
proof (induction es rule: induct_list012)
  case (3 a b es)
  then show ?case using wf_extentD(2) [of a] by fastforce
qed simp_all

lemma disjoint_all_append:
  "disjoint_all (xs @ ys) \<longleftrightarrow> disjoint_all xs \<and> disjoint_all ys \<and> \<Union>(set xs) \<inter> \<Union>(set ys) = {}"
  by (induction xs) (auto simp: Int_Un_distrib2)

lemma disjoint_regions_append:
  "disjoint_all (map ext_bytes (xs @ ys)) \<longleftrightarrow> disjoint_all (map ext_bytes xs) \<and> disjoint_all (map ext_bytes ys)
     \<and> region_bytes xs \<inter> region_bytes ys = {}"
  by (simp add: disjoint_all_append region_bytes_def)

lemma sorted_disjoint_regions:
  assumes "\<forall>e \<in> set es. wf_extent e" "disjoint_all (map ext_bytes es)"
  shows "ordered_regions (sort_key ext_start es)"
proof (rule sorted_disjoint_ordered)
  show "disjoint_all (map ext_bytes (sort_key ext_start es))"
    using disjoint_all_mset [of "map ext_bytes es" "map ext_bytes (sort_key ext_start es)"] assms(2) by simp
qed (use assms(1) in auto)

lemma paged_lists_eq:
  assumes can: "canonical m" "canonical r" "canonical u" and p: "0 < page"
    and dj: "region_bytes m \<inter> region_bytes r = {}" "region_bytes m \<inter> region_bytes u = {}"
      "region_bytes r \<inter> region_bytes u = {}"
  defines "g \<equiv> sort_key ext_start (parts_interiors page m @ parts_interiors page r @ u)"
  shows "paged_lists dbg m r u page = Some (map (\<lambda>(kind, sections). \<lparr>ms_kind = kind, ms_sections = sections\<rparr>)
      (filter (\<lambda>(kind, sections). sections \<noteq> [])
        [(PagedSmallMetadata, parts_edges page m), (PagedSmallRaw, parts_edges page r), (PagedLargeGeneric, g)]))"
    and "ordered_regions g"
proof -
  have o: "ordered_regions (parts_interiors page m)" "ordered_regions (parts_interiors page r)" "ordered_regions u"
    using can p by (simp_all add: parts_interiors_ordered canonical_ordered)
  have sub: "region_bytes (parts_interiors page m) \<subseteq> region_bytes m" "region_bytes (parts_interiors page r) \<subseteq> region_bytes r"
    using can p by (simp_all add: parts_interiors_bytes whole_pages_subset)
  have "disjoint_all (map ext_bytes (parts_interiors page m @ parts_interiors page r @ u))"
    unfolding disjoint_regions_append region_bytes_simps
    using o [THEN ordered_disjoint_all] sub dj by blast
  moreover have "\<forall>e \<in> set (parts_interiors page m @ parts_interiors page r @ u). wf_extent e"
    using o by (auto simp only: ordered_regions_def set_append)
  ultimately show g: "ordered_regions g" unfolding g_def by (intro sorted_disjoint_regions)
  show "paged_lists dbg m r u page = Some (map (\<lambda>(kind, sections). \<lparr>ms_kind = kind, ms_sections = sections\<rparr>)
      (filter (\<lambda>(kind, sections). sections \<noteq> [])
        [(PagedSmallMetadata, parts_edges page m), (PagedSmallRaw, parts_edges page r), (PagedLargeGeneric, g)]))"
    using ordered_starts_strict [OF g] unfolding paged_lists_def split_typed_eq g_def
    by (simp add: debug_assert_def)
qed

definition manager_bytes :: "manager_kind \<Rightarrow> manager_sections list \<Rightarrow> nat set" where
  "manager_bytes kind ms = (\<Union>s \<in> {s \<in> set ms. ms_kind s = kind}. region_bytes (ms_sections s))"

end
