(* ===== verification/Persistence_Properties.thy ===== *)
theory Persistence_Properties
  imports Persistence
begin

text \<open>
  Properties of the split of an extent at page boundaries and of the division of free space among
  the persisted managers.
\<close>

lemma manager_bytes_Cons [simp]:
  "manager_bytes k (s # ms) = (if ms_kind s = k then region_bytes (ms_sections s) else {}) \<union> manager_bytes k ms"
  by (auto simp: manager_bytes_def)

lemma manager_bytes_Nil [simp]: "manager_bytes k [] = {}"
  by (simp add: manager_bytes_def)

abbreviation three_managers :: "extent list \<Rightarrow> extent list \<Rightarrow> extent list \<Rightarrow> manager_sections list" where
  "three_managers a b c \<equiv> map (\<lambda>(kind, sections). \<lparr>ms_kind = kind, ms_sections = sections\<rparr>)
     (filter (\<lambda>(kind, sections). sections \<noteq> [])
       [(PagedSmallMetadata, a), (PagedSmallRaw, b), (PagedLargeGeneric, c)])"

lemma three_managers_bytes:
  "manager_bytes PagedSmallMetadata (three_managers a b c) = region_bytes a"
  "manager_bytes PagedSmallRaw (three_managers a b c) = region_bytes b"
  "manager_bytes PagedLargeGeneric (three_managers a b c) = region_bytes c"
  by (cases a; cases b; cases c; simp)+

lemma three_managers_all:
  assumes "P PagedSmallMetadata a" "P PagedSmallRaw b" "P PagedLargeGeneric c"
  shows "\<forall>s \<in> set (three_managers a b c). ms_sections s \<noteq> [] \<and> P (ms_kind s) (ms_sections s)"
  using assms by simp

lemmas parts_eval = page_parts_new_def aligned_interior_def checked_next_multiple_of_def next_multiple_of_def
  ext_between_if u64_max_def

lemma region_bytes_sort: "region_bytes (sort_key ext_start es) = region_bytes es"
  by (simp add: region_bytes_def)

text \<open>C23: \<^verbatim>\<open>PageParts::new\<close> splits an extent into a leading edge, a page-aligned interior and
  a trailing edge that are in address order, disjoint, and cover exactly the extent. The interior
  holds exactly the pages that lie wholly in the extent, and each edge lies within one page.\<close>

theorem page_parts_partition:
  assumes "wf_extent e" "0 < page"
  shows "ordered_regions (flatten [pp_leading (page_parts_new e page), pp_interior (page_parts_new e page),
        pp_trailing (page_parts_new e page)])
    \<and> region_bytes (flatten [pp_leading (page_parts_new e page), pp_interior (page_parts_new e page),
        pp_trailing (page_parts_new e page)]) = ext_bytes e
    \<and> opt_bytes (pp_interior (page_parts_new e page)) = {x. unit_bytes page x \<subseteq> ext_bytes e}
    \<and> (\<forall>d \<in> set (pp_edges (page_parts_new e page)). ext_bytes d \<subseteq> unit_bytes page (ext_start d))"
  using page_parts_spec [OF assms] by (simp add: pp_parts_def)

theorem page_parts_partition_witness:
  "page_parts_new \<lparr>ext_start = 1000, ext_len = 2000\<rparr> 512 =
     \<lparr>pp_leading = Some \<lparr>ext_start = 1000, ext_len = 24\<rparr>, pp_interior = Some \<lparr>ext_start = 1024, ext_len = 1536\<rparr>,
      pp_trailing = Some \<lparr>ext_start = 2560, ext_len = 440\<rparr>\<rparr>
   \<and> opt_bytes (Some \<lparr>ext_start = 1024, ext_len = 1536\<rparr>) = {x. unit_bytes 512 x \<subseteq> ext_bytes \<lparr>ext_start = 1000, ext_len = 2000\<rparr>}"
proof -
  have eq: "page_parts_new \<lparr>ext_start = 1000, ext_len = 2000\<rparr> 512 =
     \<lparr>pp_leading = Some \<lparr>ext_start = 1000, ext_len = 24\<rparr>, pp_interior = Some \<lparr>ext_start = 1024, ext_len = 1536\<rparr>,
      pp_trailing = Some \<lparr>ext_start = 2560, ext_len = 440\<rparr>\<rparr>"
    by (simp add: parts_eval checked)
  have "wf_extent \<lparr>ext_start = 1000, ext_len = 2000\<rparr>" by (simp add: u64_max_def)
  from page_parts_partition [OF this, of 512] eq show ?thesis by simp
qed

text \<open>C24: For disjoint metadata, raw and unclassified lists, \<^verbatim>\<open>ManagerSections::paged_lists\<close> never
  panics. The small-metadata manager gets exactly the metadata bytes outside whole free metadata
  pages, the small-raw manager likewise for raw data, and the large generic manager gets the whole
  free pages of both lists together with the unclassified bytes. Every small section lies in one
  page, the generic sections are in address order, and no manager is empty.\<close>

theorem paged_managers_classify:
  assumes "canonical m" "canonical r" "canonical u" "0 < page"
    "region_bytes m \<inter> region_bytes r = {}" "region_bytes m \<inter> region_bytes u = {}"
    "region_bytes r \<inter> region_bytes u = {}"
  shows "\<exists>ms. paged_lists dbg m r u page = Some ms
    \<and> manager_bytes PagedSmallMetadata ms = region_bytes m - whole_pages page (region_bytes m)
    \<and> manager_bytes PagedSmallRaw ms = region_bytes r - whole_pages page (region_bytes r)
    \<and> manager_bytes PagedLargeGeneric ms =
        whole_pages page (region_bytes m) \<union> whole_pages page (region_bytes r) \<union> region_bytes u
    \<and> (\<forall>s \<in> set ms. ms_sections s \<noteq> [] \<and>
        (if ms_kind s = PagedLargeGeneric then ordered_regions (ms_sections s)
         else \<forall>d \<in> set (ms_sections s). ext_bytes d \<subseteq> unit_bytes page (ext_start d)))"
proof -
  note e = paged_lists_eq [OF assms]
  let ?P = "\<lambda>k ds. if k = PagedLargeGeneric then ordered_regions ds
    else \<forall>d \<in> set ds. ext_bytes d \<subseteq> unit_bytes page (ext_start d)"
  have all: "\<forall>s \<in> set (three_managers (parts_edges page m) (parts_edges page r)
      (sort_key ext_start (parts_interiors page m @ parts_interiors page r @ u))).
      ms_sections s \<noteq> [] \<and> ?P (ms_kind s) (ms_sections s)"
    by (rule three_managers_all [where P = ?P])
      (use e(2) parts_edges_in_page [OF assms(1,4)] parts_edges_in_page [OF assms(2,4)] in simp_all)
  show ?thesis
    unfolding e(1) option.inject
    by (rule exI, intro conjI, rule refl, rule_tac [4] all)
      (simp_all only: three_managers_bytes region_bytes_sort region_bytes_simps
        parts_edges_bytes parts_interiors_bytes assms Un_assoc)
qed

theorem paged_managers_classify_witness:
  "paged_lists True [\<lparr>ext_start = 100, ext_len = 1000\<rparr>] [\<lparr>ext_start = 2048, ext_len = 512\<rparr>] [] 512 =
     Some [\<lparr>ms_kind = PagedSmallMetadata, ms_sections = [\<lparr>ext_start = 100, ext_len = 412\<rparr>, \<lparr>ext_start = 1024, ext_len = 76\<rparr>]\<rparr>,
       \<lparr>ms_kind = PagedLargeGeneric, ms_sections = [\<lparr>ext_start = 512, ext_len = 512\<rparr>, \<lparr>ext_start = 2048, ext_len = 512\<rparr>]\<rparr>]
   \<and> {512 ..< 1024} \<union> {2048 ..< 2560} =
      whole_pages 512 {100 ..< 1100} \<union> whole_pages 512 {2048 ..< 2560}"
proof -
  let ?m = "[\<lparr>ext_start = 100, ext_len = 1000\<rparr>]" and ?r = "[\<lparr>ext_start = 2048, ext_len = 512\<rparr>]"
  have eq: "paged_lists True ?m ?r [] 512 =
     Some [\<lparr>ms_kind = PagedSmallMetadata, ms_sections = [\<lparr>ext_start = 100, ext_len = 412\<rparr>, \<lparr>ext_start = 1024, ext_len = 76\<rparr>]\<rparr>,
       \<lparr>ms_kind = PagedLargeGeneric, ms_sections = [\<lparr>ext_start = 512, ext_len = 512\<rparr>, \<lparr>ext_start = 2048, ext_len = 512\<rparr>]\<rparr>]"
    by (simp add: paged_lists_def parts_eval checked debug_assert_def)
  have can: "canonical ?m" "canonical ?r" "canonical []" by (simp_all add: wf_extent_def u64_max_def)
  have "region_bytes ?m \<inter> region_bytes ?r = {}" by (simp add: ext_bytes_def)
  with paged_managers_classify [OF can, of 512 True] eq show ?thesis
    by (simp add: ext_bytes_def)
qed

end
