(* ===== verification/Bytes.thy ===== *)
theory Bytes
  imports Core_Types "HOL-Library.Word"
begin

text \<open>
  Little-endian fields of the file format: the widths of \<^verbatim>\<open>hdf5-pure-format/src/width.rs\<close> and the
  bounds-checked readers, writers and the cursor \<^verbatim>\<open>Fields\<close> of \<^verbatim>\<open>bytes.rs\<close>.

  A byte is an \<^typ>\<open>8 word\<close>, a buffer a list of bytes, and \<^verbatim>\<open>usize\<close> has 64 bits here. Reading
  past a slice is the panic \<^term>\<open>None\<close>, so that the lemmas on the readers show that the length
  is checked before every access. The test-only counters of fields are left out.
\<close>

unbundle bit_operations_syntax

type_synonym byte = "8 word"

section \<open>Little-endian integers\<close>

primrec to_le :: "nat \<Rightarrow> nat \<Rightarrow> byte list" where
  "to_le 0 v = []"
| "to_le (Suc n) v = word_of_nat v # to_le n (v div 256)"

primrec from_le :: "byte list \<Rightarrow> nat" where
  "from_le [] = 0"
| "from_le (b # bs) = unat b + 256 * from_le bs"

text \<open>The value \<^verbatim>\<open>v as uN\<close>.\<close>

definition trunc :: "nat \<Rightarrow> nat \<Rightarrow> nat" where
  "trunc bits v = v mod 2 ^ bits"

definition checked_shr :: "u64 \<Rightarrow> nat \<Rightarrow> u64 option" where
  "checked_shr v s = (if s < 64 then Some (v div 2 ^ s) else None)"

text \<open>The decimal digits that \<^verbatim>\<open>format!\<close> prints.\<close>

fun decimal :: "nat \<Rightarrow> string" where
  "decimal n = (if n < 10 then [char_of (48 + n)] else decimal (n div 10) @ [char_of (48 + n mod 10)])"

declare decimal.simps [simp del]

section \<open>Widths\<close>

record format_widths =
  fw_offsets :: field_width
  fw_lengths :: field_width

definition widths_from_sizes :: "nat \<Rightarrow> nat \<Rightarrow> format_error + format_widths" where
  "widths_from_sizes offset_size length_size =
     (case offset_width_try_from offset_size of
        Inl e \<Rightarrow> Inl e
      | Inr offs \<Rightarrow>
          (case length_width_try_from length_size of
             Inl e \<Rightarrow> Inl e
           | Inr lens \<Rightarrow> Inr \<lparr>fw_offsets = offs, fw_lengths = lens\<rparr>))"

text \<open>The number of bits up to the highest set one, \<^verbatim>\<open>u64::BITS - leading_zeros\<close>.\<close>

fun bit_length :: "nat \<Rightarrow> nat" where
  "bit_length v = (if v = 0 then 0 else Suc (bit_length (v div 2)))"

declare bit_length.simps [simp del]

definition encoded_unsigned_width :: "u64 \<Rightarrow> nat" where
  "encoded_unsigned_width v = max (div_ceil (bit_length v) 8) 1"

definition offset_width_max :: "field_width \<Rightarrow> u64" where
  "offset_width_max w = u64_max div 2 ^ (64 - 8 * width_get w)"

definition offset_width_holds :: "field_width \<Rightarrow> u64 \<Rightarrow> bool" where
  "offset_width_holds w address =
     (address = u64_max
      \<or> (case checked_shr address (8 * width_get w) of None \<Rightarrow> True | Some high \<Rightarrow> high = 0))"

definition length_width_holds :: "field_width \<Rightarrow> u64 \<Rightarrow> bool" where
  "length_width_holds w len =
     (case checked_shr len (8 * width_get w) of None \<Rightarrow> True | Some high \<Rightarrow> high = 0)"

definition length_width_max :: "field_width \<Rightarrow> u64" where
  "length_width_max w = u64_max div 2 ^ (64 - 8 * width_get w)"

datatype uint_width = UOne | UTwo | UFour | UEight

fun uint_get :: "uint_width \<Rightarrow> nat" where
  "uint_get UOne = 1"
| "uint_get UTwo = 2"
| "uint_get UFour = 4"
| "uint_get UEight = 8"

abbreviation width_flag_mask :: byte where "width_flag_mask \<equiv> 3"

definition uint_from_flags :: "byte \<Rightarrow> uint_width" where
  "uint_from_flags flags =
     (let sel = flags AND width_flag_mask
      in if sel = 0 then UOne else if sel = 1 then UTwo else if sel = 2 then UFour else UEight)"

definition smallest_for_value :: "u64 \<Rightarrow> uint_width" where
  "smallest_for_value v =
     (if v < 2 ^ 32
      then if v \<le> 255 then UOne else if v \<le> 65535 then UTwo else UFour
      else UEight)"

definition smallest_for_len :: "nat \<Rightarrow> uint_width" where
  "smallest_for_len len = smallest_for_value len"

fun flag_bits :: "uint_width \<Rightarrow> byte" where
  "flag_bits UOne = 0"
| "flag_bits UTwo = 1"
| "flag_bits UFour = 2"
| "flag_bits UEight = 3"

definition uint_write :: "uint_width \<Rightarrow> byte list \<Rightarrow> nat \<Rightarrow> byte list option" where
  "uint_write self buf v = do {
     assert_that (case checked_shr v (8 * uint_get self) of None \<Rightarrow> True | Some high \<Rightarrow> high = 0);
     Some (buf @ (case self of
        UOne \<Rightarrow> to_le 1 (trunc 8 v)
      | UTwo \<Rightarrow> to_le 2 (trunc 16 v)
      | UFour \<Rightarrow> to_le 4 (trunc 32 v)
      | UEight \<Rightarrow> to_le 8 v)) }"

section \<open>Reading at a position\<close>

definition ensure_len :: "byte list \<Rightarrow> nat \<Rightarrow> nat \<Rightarrow> format_error + unit" where
  "ensure_len data offset needed =
     (case checked_add offset needed of
        Some stop \<Rightarrow>
          if stop \<le> length data then Inr ()
          else Inl (UnexpectedEof (saturating_add offset needed) (length data))
      | None \<Rightarrow> Inl (UnexpectedEof (saturating_add offset needed) (length data)))"

text \<open>The bytes \<^verbatim>\<open>data[pos]\<close> to \<^verbatim>\<open>data[pos + n - 1]\<close>, indexed one by one.\<close>

definition index_bytes :: "byte list \<Rightarrow> nat \<Rightarrow> nat \<Rightarrow> byte list option" where
  "index_bytes data pos n = those (map (\<lambda>i. get_at data (pos + i)) [0..<n])"

definition read_le :: "bool \<Rightarrow> byte list \<Rightarrow> nat \<Rightarrow> nat \<Rightarrow> u64 option" where
  "read_le dbg data pos w =
     (if w = 1 \<or> w = 2 \<or> w = 4 \<or> w = 8 then map_option from_le (index_bytes data pos w)
      else do { debug_assert dbg False; Some 0 })"

definition read_offset_width ::
  "bool \<Rightarrow> byte list \<Rightarrow> nat \<Rightarrow> field_width \<Rightarrow> (format_error + u64) option" where
  "read_offset_width dbg data pos w =
     try_bind (Some (ensure_len data pos (width_get w))) (\<lambda>_.
       map_option Inr (read_le dbg data pos (width_get w)))"

definition read_length_width ::
  "bool \<Rightarrow> byte list \<Rightarrow> nat \<Rightarrow> field_width \<Rightarrow> (format_error + u64) option" where
  "read_length_width dbg data pos w =
     try_bind (Some (ensure_len data pos (width_get w))) (\<lambda>_.
       map_option Inr (read_le dbg data pos (width_get w)))"

definition read_uint_width ::
  "bool \<Rightarrow> byte list \<Rightarrow> nat \<Rightarrow> uint_width \<Rightarrow> (format_error + u64) option" where
  "read_uint_width dbg data pos w =
     try_bind (Some (ensure_len data pos (uint_get w))) (\<lambda>_.
       map_option Inr (read_le dbg data pos (uint_get w)))"

definition read_optional_offset_width ::
  "bool \<Rightarrow> byte list \<Rightarrow> nat \<Rightarrow> field_width \<Rightarrow> (format_error + u64 option) option" where
  "read_optional_offset_width dbg data pos w =
     try_bind (read_offset_width dbg data pos w) (\<lambda>addr.
       Some (Inr (if is_undefined addr w then None else Some addr)))"

definition decode_stored_address ::
  "bool \<Rightarrow> field_width \<Rightarrow> byte list \<Rightarrow> nat \<Rightarrow> (format_error + decoded_address) option" where
  "decode_stored_address dbg w data pos =
     try_bind (read_offset_width dbg data pos w) (\<lambda>stored.
       Some (Inr (if is_undefined stored w then Undefined else Defined stored)))"

section \<open>Writing\<close>

definition write_offset :: "byte list \<Rightarrow> u64 \<Rightarrow> field_width \<Rightarrow> byte list option" where
  "write_offset buf v w = do {
     assert_that (offset_width_holds w v);
     Some (buf @ (case w of
        Two \<Rightarrow> to_le 2 (trunc 16 v)
      | Four \<Rightarrow> to_le 4 (trunc 32 v)
      | Eight \<Rightarrow> to_le 8 v)) }"

definition write_length :: "byte list \<Rightarrow> u64 \<Rightarrow> field_width \<Rightarrow> byte list option" where
  "write_length buf v w = do {
     assert_that (length_width_holds w v);
     Some (buf @ (case w of
        Two \<Rightarrow> to_le 2 (trunc 16 v)
      | Four \<Rightarrow> to_le 4 (trunc 32 v)
      | Eight \<Rightarrow> to_le 8 v)) }"

definition try_write_offset ::
  "byte list \<Rightarrow> u64 \<Rightarrow> field_width \<Rightarrow> (format_error + byte list) option" where
  "try_write_offset buf v w =
     (if \<not> offset_width_holds w v then Some (Inl (AddressTooLarge v (width_get w)))
      else map_option Inr (write_offset buf v w))"

text \<open>\<^verbatim>\<open>buf[pos..pos + len].copy_from_slice(bytes)\<close>.\<close>

definition copy_at :: "byte list \<Rightarrow> nat \<Rightarrow> byte list \<Rightarrow> byte list option" where
  "copy_at buf pos bytes =
     (if pos + length bytes \<le> length buf
      then Some (take pos buf @ bytes @ drop (pos + length bytes) buf) else None)"

definition write_stored_address_at ::
  "byte list \<Rightarrow> nat \<Rightarrow> stored_address \<Rightarrow> field_width \<Rightarrow> (format_error + byte list) option" where
  "write_stored_address_at buf pos addr w =
     (if \<not> offset_width_holds w addr then Some (Inl (AddressTooLarge addr (width_get w)))
      else try_bind (Some (ensure_len buf pos (width_get w))) (\<lambda>_.
        map_option Inr (copy_at buf pos (take (width_get w) (to_le 8 addr)))))"

definition require_defined_offset :: "u64 \<Rightarrow> field_width \<Rightarrow> format_error + unit" where
  "require_defined_offset v w =
     (let undef = offset_width_max w
      in if undef < v then Inl (AddressTooLarge v (width_get w))
         else if v = undef then Inl (DefinedAddressIsUndefined v (width_get w))
         else Inr ())"

definition write_defined_stored_address_at ::
  "byte list \<Rightarrow> nat \<Rightarrow> stored_address \<Rightarrow> field_width \<Rightarrow> (format_error + byte list) option" where
  "write_defined_stored_address_at buf pos address w =
     try_bind (Some (require_defined_offset address w)) (\<lambda>_.
       write_stored_address_at buf pos address w)"

definition try_write_defined_offset ::
  "byte list \<Rightarrow> u64 \<Rightarrow> field_width \<Rightarrow> (format_error + byte list) option" where
  "try_write_defined_offset buf v w =
     try_bind (Some (require_defined_offset v w)) (\<lambda>_. map_option Inr (write_offset buf v w))"

definition try_write_decoded_address ::
  "byte list \<Rightarrow> decoded_address \<Rightarrow> field_width \<Rightarrow> (format_error + byte list) option" where
  "try_write_decoded_address buf addr w =
     (case addr of
        Undefined \<Rightarrow> map_option Inr (write_offset buf (undefined_address w) w)
      | Defined a \<Rightarrow> try_write_defined_offset buf a w)"

definition require_length :: "u64 \<Rightarrow> field_width \<Rightarrow> format_error + unit" where
  "require_length v w =
     (if \<not> length_width_holds w v then Inl (LengthTooLarge v (width_get w)) else Inr ())"

definition try_write_length ::
  "byte list \<Rightarrow> u64 \<Rightarrow> field_width \<Rightarrow> (format_error + byte list) option" where
  "try_write_length buf v w =
     try_bind (Some (require_length v w)) (\<lambda>_. map_option Inr (write_length buf v w))"

definition write_length_at ::
  "byte list \<Rightarrow> nat \<Rightarrow> u64 \<Rightarrow> field_width \<Rightarrow> (format_error + byte list) option" where
  "write_length_at buf pos v w =
     try_bind (Some (require_length v w)) (\<lambda>_.
       try_bind (Some (ensure_len buf pos (width_get w))) (\<lambda>_.
         map_option Inr (copy_at buf pos (take (width_get w) (to_le 8 v)))))"

section \<open>The cursor\<close>

record fields =
  f_data :: "byte list"
  f_pos :: nat

definition fields_new :: "byte list \<Rightarrow> nat \<Rightarrow> fields" where
  "fields_new data pos = \<lparr>f_data = data, f_pos = pos\<rparr>"

definition advance :: "fields \<Rightarrow> nat \<Rightarrow> fields" where
  "advance self n = self\<lparr>f_pos := f_pos self + n\<rparr>"

definition f_array :: "nat \<Rightarrow> fields \<Rightarrow> format_error + byte list \<times> fields" where
  "f_array n self =
     (if f_pos self \<le> length (f_data self) \<and> n \<le> length (drop (f_pos self) (f_data self))
      then Inr (take n (drop (f_pos self) (f_data self)), advance self n)
      else Inl (UnexpectedEof (saturating_add (f_pos self) n) (length (f_data self))))"

definition f_u8 :: "fields \<Rightarrow> format_error + byte \<times> fields" where
  "f_u8 self = (case f_array 1 self of Inl e \<Rightarrow> Inl e | Inr (bs, s) \<Rightarrow> Inr (hd bs, s))"

definition f_u16 :: "fields \<Rightarrow> format_error + nat \<times> fields" where
  "f_u16 self = (case f_array 2 self of Inl e \<Rightarrow> Inl e | Inr (bs, s) \<Rightarrow> Inr (from_le bs, s))"

definition f_u32 :: "fields \<Rightarrow> format_error + nat \<times> fields" where
  "f_u32 self = (case f_array 4 self of Inl e \<Rightarrow> Inl e | Inr (bs, s) \<Rightarrow> Inr (from_le bs, s))"

definition f_length :: "bool \<Rightarrow> fields \<Rightarrow> field_width \<Rightarrow> (format_error + u64 \<times> fields) option" where
  "f_length dbg self w =
     try_bind (read_length_width dbg (f_data self) (f_pos self) w) (\<lambda>v.
       Some (Inr (v, advance self (width_get w))))"

definition f_offset :: "bool \<Rightarrow> fields \<Rightarrow> field_width \<Rightarrow> (format_error + u64 \<times> fields) option" where
  "f_offset dbg self w =
     try_bind (read_offset_width dbg (f_data self) (f_pos self) w) (\<lambda>v.
       Some (Inr (v, advance self (width_get w))))"

definition f_address ::
  "bool \<Rightarrow> fields \<Rightarrow> field_width \<Rightarrow> (format_error + stored_address \<times> fields) option" where
  "f_address dbg self w = f_offset dbg self w"

definition f_decoded_address ::
  "bool \<Rightarrow> fields \<Rightarrow> field_width \<Rightarrow> (format_error + decoded_address \<times> fields) option" where
  "f_decoded_address dbg self w =
     try_bind (decode_stored_address dbg w (f_data self) (f_pos self)) (\<lambda>v.
       Some (Inr (v, advance self (width_get w))))"

definition f_uint :: "fields \<Rightarrow> nat \<Rightarrow> format_error + u64 \<times> fields" where
  "f_uint self len =
     (if f_pos self \<le> length (f_data self) \<and> len \<le> length (drop (f_pos self) (f_data self))
      then if len \<le> 8
        then Inr (from_le (take len (drop (f_pos self) (f_data self)) @ replicate (8 - len) 0),
               advance self len)
        else Inl (Internal ''an integer field is wider than 8 bytes'')
      else Inl (UnexpectedEof (saturating_add (f_pos self) len) (length (f_data self))))"

section \<open>Lemmas on little-endian integers\<close>

lemma byte_less: "unat b < 256" for b :: byte
  using unsigned_less [of b] by simp

lemma length_to_le [simp]: "length (to_le n v) = n"
  by (induction n arbitrary: v) auto

lemma to_le_eq_Nil [simp]: "to_le n v = [] \<longleftrightarrow> n = 0"
  using length_to_le [of n v] by (metis length_0_conv)

lemma from_le_to_le: "from_le (to_le n v) = v mod 256 ^ n"
proof (induction n arbitrary: v)
  case (Suc n)
  have "v mod 256 + 256 * (v div 256 mod 256 ^ n) = v mod (256 * 256 ^ n)"
    by (simp add: mod_mult2_eq)
  then show ?case using Suc by (simp add: unat_of_nat)
qed simp

lemma from_le_less: "from_le bs < 256 ^ length bs"
proof (induction bs)
  case (Cons b bs)
  show ?case using Cons byte_less [of b] by simp
qed simp

lemma to_le_from_le [simp]: "to_le (length bs) (from_le bs) = bs"
proof (induction bs)
  case (Cons b bs)
  have u: "unat b < 256" by (rule byte_less)
  then have "(unat b + 256 * from_le bs) div 256 = from_le bs" by simp
  moreover have "word_of_nat (unat b + 256 * from_le bs) = b"
  proof (rule word_unat_eq_iff [THEN iffD2])
    show "unat (word_of_nat (unat b + 256 * from_le bs) :: byte) = unat b"
      unfolding unat_of_nat using u by simp
  qed
  ultimately show ?case using Cons by simp
qed simp

lemma to_le_mod: "n \<le> m \<Longrightarrow> to_le n (v mod 256 ^ m) = to_le n v"
proof (induction n arbitrary: v m)
  case (Suc n)
  then obtain k where m: "m = Suc k" by (cases m) auto
  have "v mod (256 * 256 ^ k) div 256 = v div 256 mod 256 ^ k" by (simp add: mod_mult2_eq)
  moreover have "(word_of_nat (v mod (256 * 256 ^ k)) :: byte) = word_of_nat v"
  proof (rule word_unat_eq_iff [THEN iffD2])
    have "v mod (256 * 256 ^ k) mod 256 = v mod 256" by (rule mod_mod_cancel) simp
    then show "unat (word_of_nat (v mod (256 * 256 ^ k)) :: byte) = unat (word_of_nat v :: byte)"
      unfolding unat_of_nat by simp
  qed
  ultimately show ?case using Suc.IH [of k "v div 256"] Suc.prems by (simp add: m)
qed simp

lemma to_le_inject: "v < 256 ^ n \<Longrightarrow> u < 256 ^ n \<Longrightarrow> to_le n v = to_le n u \<longleftrightarrow> v = u"
  by (metis from_le_to_le mod_less)

lemma take_to_le: "n \<le> m \<Longrightarrow> take n (to_le m v) = to_le n v"
proof (induction n arbitrary: v m)
  case (Suc n)
  then obtain k where "m = Suc k" by (cases m) auto
  then show ?case using Suc by simp
qed simp

lemma from_le_zeros: "from_le (bs @ replicate k 0) = from_le bs"
proof (induction bs)
  case Nil
  then show ?case by (induction k) auto
qed simp

lemma to_le_trunc: "8 * n \<le> m \<Longrightarrow> to_le n (trunc m v) = to_le n v"
  unfolding trunc_def
proof -
  assume le: "8 * n \<le> m"
  have "(256 :: nat) ^ n dvd 2 ^ m"
    using le le_imp_power_dvd [of "8 * n" m "2 :: nat"] by (simp add: power_mult)
  then have "v mod 2 ^ m mod 256 ^ n = v mod 256 ^ n" by (rule mod_mod_cancel)
  then show "to_le n (v mod 2 ^ m) = to_le n v"
    using to_le_mod [of n n "v mod 2 ^ m"] to_le_mod [of n n v] by simp
qed

section \<open>Lemmas on widths\<close>

lemma width_get_cases: "width_get w = 2 \<or> width_get w = 4 \<or> width_get w = 8"
  by (cases w) auto

lemma width_get_pos [simp]: "0 < width_get w"
  by (cases w) auto

lemma undefined_address_eq: "undefined_address w = 256 ^ width_get w - 1"
  by (cases w) (simp_all add: u64_max_def)

lemma offset_width_max_eq: "offset_width_max w = undefined_address w"
  by (cases w) (simp_all add: offset_width_max_def u64_max_def)

lemma width_holds_iff: "v \<le> u64_max \<Longrightarrow> length_width_holds w v \<longleftrightarrow> v < 256 ^ width_get w"
  by (cases w) (auto simp: length_width_holds_def checked_shr_def u64_max_def div_eq_0_iff)

lemma offset_holds_iff: "v \<le> u64_max \<Longrightarrow> offset_width_holds w v \<longleftrightarrow> v = u64_max \<or> v < 256 ^ width_get w"
  using width_holds_iff [of v w] by (auto simp: offset_width_holds_def length_width_holds_def)

lemma length_width_max_holds: "v \<le> u64_max \<Longrightarrow> length_width_holds w v \<longleftrightarrow> v \<le> length_width_max w"
  by (cases w) (auto simp: width_holds_iff length_width_max_def u64_max_def)

lemma width_less_max: "v < 256 ^ width_get w \<Longrightarrow> v \<le> u64_max"
  by (cases w) (auto simp: u64_max_def)

lemma write_offset_eq:
  "offset_width_holds w v \<Longrightarrow> write_offset buf v w = Some (buf @ to_le (width_get w) v)"
  by (cases w) (simp_all add: write_offset_def assert_that_def to_le_trunc)

lemma write_length_eq:
  "length_width_holds w v \<Longrightarrow> write_length buf v w = Some (buf @ to_le (width_get w) v)"
  by (cases w) (simp_all add: write_length_def assert_that_def to_le_trunc)

lemma bit_length_le: "bit_length v \<le> n \<longleftrightarrow> v < 2 ^ n"
proof (induction n arbitrary: v)
  case 0
  then show ?case by (simp add: bit_length.simps [of v])
next
  case (Suc n)
  have "bit_length v \<le> Suc n \<longleftrightarrow> bit_length (v div 2) \<le> n"
    by (cases "v = 0") (simp_all add: bit_length.simps [of v] bit_length.simps [of 0])
  also have "\<dots> \<longleftrightarrow> v < 2 ^ Suc n" unfolding Suc by (simp add: div_less_iff_less_mult mult.commute)
  finally show ?case .
qed

lemma encoded_unsigned_width_least:
  "v < 256 ^ encoded_unsigned_width v" "0 < n \<Longrightarrow> v < 256 ^ n \<Longrightarrow> encoded_unsigned_width v \<le> n"
proof -
  have d: "div_ceil b 8 \<le> n \<longleftrightarrow> b \<le> 8 * n" for b n by (auto simp: div_ceil_def; presburger)
  have p: "(256 :: nat) ^ n = 2 ^ (8 * n)" for n by (simp add: power_mult)
  have "div_ceil (bit_length v) 8 \<le> encoded_unsigned_width v" by (simp add: encoded_unsigned_width_def)
  then show "v < 256 ^ encoded_unsigned_width v" by (simp add: d p bit_length_le)
  show "encoded_unsigned_width v \<le> n" if "0 < n" "v < 256 ^ n"
    using that by (simp add: encoded_unsigned_width_def d p bit_length_le)
qed

section \<open>Lemmas on writing\<close>

text \<open>The addresses that a field of a width can hold, and the bytes they are written as.\<close>

fun storable :: "field_width \<Rightarrow> decoded_address \<Rightarrow> bool" where
  "storable w Undefined = True"
| "storable w (Defined a) = (a < undefined_address w)"

fun address_value :: "field_width \<Rightarrow> decoded_address \<Rightarrow> u64" where
  "address_value w Undefined = undefined_address w"
| "address_value w (Defined a) = a"

abbreviation address_bytes :: "field_width \<Rightarrow> decoded_address \<Rightarrow> byte list" where
  "address_bytes w a \<equiv> to_le (width_get w) (address_value w a)"

lemma undefined_holds [simp]: "offset_width_holds w (undefined_address w)"
  by (cases w) (simp_all add: offset_width_holds_def checked_shr_def)

lemma address_value_less: "storable w a \<Longrightarrow> address_value w a < 256 ^ width_get w"
  by (cases a) (auto simp: undefined_address_eq)

lemma address_value_undefined: "storable w a \<Longrightarrow> is_undefined (address_value w a) w \<longleftrightarrow> a = Undefined"
  by (cases a) (auto simp: is_undefined_def)

lemma storable_holds: "storable w a \<Longrightarrow> offset_width_holds w (address_value w a)"
  using address_value_less [of w a] width_less_max [of "address_value w a" w]
  by (simp add: offset_holds_iff)

lemma require_defined_iff: "require_defined_offset v w = Inr () \<longleftrightarrow> storable w (Defined v)"
  by (auto simp: require_defined_offset_def offset_width_max_eq Let_def)

lemma try_write_defined_eq:
  "try_write_defined_offset buf v w =
     Some (if storable w (Defined v) then Inr (buf @ to_le (width_get w) v)
           else Inl (if v = undefined_address w then DefinedAddressIsUndefined v (width_get w)
                     else AddressTooLarge v (width_get w)))"
  using storable_holds [of w "Defined v"]
  by (auto simp: try_write_defined_offset_def require_defined_offset_def offset_width_max_eq Let_def write_offset_eq)

lemma try_write_decoded_ok:
  "storable w a \<Longrightarrow> try_write_decoded_address buf a w = Some (Inr (buf @ address_bytes w a))"
  by (cases a) (simp_all add: try_write_decoded_address_def write_offset_eq try_write_defined_eq)

lemma try_write_length_eq:
  "try_write_length buf v w =
     Some (if length_width_holds w v then Inr (buf @ to_le (width_get w) v)
           else Inl (LengthTooLarge v (width_get w)))"
  by (simp add: try_write_length_def require_length_def write_length_eq)

section \<open>Lemmas on reading\<close>

lemma ensure_len_eq:
  "length data \<le> u64_max \<Longrightarrow> ensure_len data pos n =
     (if pos + n \<le> length data then Inr () else Inl (UnexpectedEof (saturating_add pos n) (length data)))"
  by (simp add: ensure_len_def checked_add_def)

lemma those_map_Some: "(\<And>x. x \<in> set xs \<Longrightarrow> f x = Some (g x)) \<Longrightarrow> those (map f xs) = Some (map g xs)"
  by (induction xs) auto

lemma index_bytes_eq:
  "pos + n \<le> length data \<Longrightarrow> index_bytes data pos n = Some (take n (drop pos data))"
proof -
  assume le: "pos + n \<le> length data"
  have "index_bytes data pos n = Some (map (\<lambda>i. data ! (pos + i)) [0..<n])"
    unfolding index_bytes_def using le by (intro those_map_Some) (simp add: get_at_def)
  also have "map (\<lambda>i. data ! (pos + i)) [0..<n] = take n (drop pos data)"
    using le by (intro nth_equalityI) simp_all
  finally show ?thesis .
qed

lemma read_le_eq:
  "w = 1 \<or> w = 2 \<or> w = 4 \<or> w = 8 \<Longrightarrow> pos + w \<le> length data \<Longrightarrow>
     read_le dbg data pos w = Some (from_le (take w (drop pos data)))"
  unfolding read_le_def by (simp add: index_bytes_eq)

lemma read_offset_width_eq:
  assumes "length data \<le> u64_max"
  shows "read_offset_width dbg data pos w =
     Some (if pos + width_get w \<le> length data then Inr (from_le (take (width_get w) (drop pos data)))
           else Inl (UnexpectedEof (saturating_add pos (width_get w)) (length data)))"
  using width_get_cases [of w]
  by (simp add: read_offset_width_def ensure_len_eq [OF assms] read_le_eq)

lemma read_length_width_eq: "read_length_width = read_offset_width"
  by (simp add: fun_eq_iff read_length_width_def read_offset_width_def)

text \<open>The unread bytes of a cursor.\<close>

definition unread :: "fields \<Rightarrow> byte list \<Rightarrow> bool" where
  "unread fs bs = (f_pos fs \<le> length (f_data fs) \<and> length (f_data fs) \<le> u64_max \<and> drop (f_pos fs) (f_data fs) = bs)"

lemma unread_new: "length data \<le> u64_max \<Longrightarrow> pos \<le> length data \<Longrightarrow> unread (fields_new data pos) (drop pos data)"
  by (simp add: unread_def fields_new_def)

lemma unread_fits: "unread fs (as @ bs) \<Longrightarrow> f_pos fs + length as \<le> length (f_data fs)"
  by (auto simp: unread_def dest!: arg_cong [where f = length])

lemma unread_advance: "unread fs (as @ bs) \<Longrightarrow> n = length as \<Longrightarrow> unread (advance fs n) bs"
proof -
  assume u: "unread fs (as @ bs)" and n: "n = length as"
  have d: "drop (f_pos fs) (f_data fs) = as @ bs" using u by (simp add: unread_def)
  have "drop (f_pos fs + n) (f_data fs) = drop n (drop (f_pos fs) (f_data fs))"
    by (simp add: add.commute)
  also have "\<dots> = bs" unfolding d by (simp add: n)
  finally show ?thesis using u n unread_fits [OF u] by (simp add: unread_def advance_def)
qed

lemma unread_advance_Cons: "unread fs (b # bs) \<Longrightarrow> unread (advance fs 1) bs"
  using unread_advance [of fs "[b]" bs 1] by simp

lemma f_array_unread: "unread fs (as @ bs) \<Longrightarrow> n = length as \<Longrightarrow> f_array n fs = Inr (as, advance fs n)"
  by (auto simp: unread_def f_array_def dest: arg_cong [where f = length])

lemma f_u8_unread: "unread fs (b # bs) \<Longrightarrow> f_u8 fs = Inr (b, advance fs 1)"
  using f_array_unread [of fs "[b]" bs 1] by (simp add: f_u8_def)

lemma f_u16_unread: "unread fs (to_le 2 v @ bs) \<Longrightarrow> v < 65536 \<Longrightarrow> f_u16 fs = Inr (v, advance fs 2)"
  using f_array_unread [of fs "to_le 2 v" bs 2] by (simp add: f_u16_def from_le_to_le)

lemma f_u32_unread: "unread fs (to_le 4 v @ bs) \<Longrightarrow> v < 4294967296 \<Longrightarrow> f_u32 fs = Inr (v, advance fs 4)"
  using f_array_unread [of fs "to_le 4 v" bs 4] by (simp add: f_u32_def from_le_to_le)

lemma f_offset_unread:
  "unread fs (to_le (width_get w) v @ bs) \<Longrightarrow> v < 256 ^ width_get w \<Longrightarrow>
     f_offset dbg fs w = Some (Inr (v, advance fs (width_get w)))"
  using unread_fits [of fs "to_le (width_get w) v" bs]
  by (simp add: f_offset_def read_offset_width_eq unread_def from_le_to_le)

lemma f_length_unread:
  "unread fs (to_le (width_get w) v @ bs) \<Longrightarrow> v < 256 ^ width_get w \<Longrightarrow>
     f_length dbg fs w = Some (Inr (v, advance fs (width_get w)))"
  using f_offset_unread [of fs w v bs dbg]
  by (simp add: f_length_def f_offset_def read_length_width_eq)

lemma f_decoded_address_unread:
  "unread fs (address_bytes w a @ bs) \<Longrightarrow> storable w a \<Longrightarrow>
     f_decoded_address dbg fs w = Some (Inr (a, advance fs (width_get w)))"
  using unread_fits [of fs "address_bytes w a" bs] address_value_less [of w a] address_value_undefined [of w a]
  by (cases a) (auto simp: f_decoded_address_def decode_stored_address_def read_offset_width_eq unread_def from_le_to_le)

section \<open>Parsers return\<close>

text \<open>A step that does not panic, and whose result, if it succeeds, has a property.\<close>

definition returns :: "('a \<Rightarrow> bool) \<Rightarrow> ('e + 'a) option \<Rightarrow> bool" where
  "returns Q m = (\<exists>r. m = Some r \<and> (\<forall>x. r = Inr x \<longrightarrow> Q x))"

lemma returns_simps [simp]:
  "returns Q (Some (Inr x)) \<longleftrightarrow> Q x" "returns Q (Some (Inl e))" "\<not> returns Q None"
  by (auto simp: returns_def)

lemma returns_any: "returns (\<lambda>_. True) (Some r)"
  by (simp add: returns_def)

lemma returns_bind:
  assumes "returns R m" "\<And>x. R x \<Longrightarrow> returns Q (f x)"
  shows "returns Q (try_bind m f)"
proof -
  obtain r where r: "m = Some r" "\<forall>x. r = Inr x \<longrightarrow> R x" using assms(1) by (auto simp: returns_def)
  then show ?thesis using assms(2) by (cases r) auto
qed

lemma returns_bind2:
  assumes "returns (\<lambda>(a, b). R a b) m" "\<And>a b. R a b \<Longrightarrow> returns Q (g a b)"
  shows "returns Q (try_bind m (\<lambda>(a, b). g a b))"
  using assms by (intro returns_bind [OF assms(1)]) auto

lemma returns_if: "(c \<Longrightarrow> returns Q a) \<Longrightarrow> (\<not> c \<Longrightarrow> returns Q b) \<Longrightarrow> returns Q (if c then a else b)"
  by simp

lemma returns_mono: "returns R m \<Longrightarrow> (\<And>x. R x \<Longrightarrow> Q x) \<Longrightarrow> returns Q m"
  by (auto simp: returns_def)

definition fits :: "fields \<Rightarrow> bool" where
  "fits fs = (length (f_data fs) \<le> u64_max)"

lemma fits_new [simp]: "fits (fields_new data pos) \<longleftrightarrow> length data \<le> u64_max"
  by (simp add: fits_def fields_new_def)

lemma fits_advance [simp]: "fits (advance fs n) \<longleftrightarrow> fits fs"
  by (simp add: fits_def advance_def)

lemma returns_ensure_len [simp]: "returns (\<lambda>_. True) (Some (ensure_len data pos n))"
  by (auto simp: returns_def)

lemma from_le_take_less: "n \<le> length bs \<Longrightarrow> from_le (take n bs) < 256 ^ n"
  using from_le_less [of "take n bs"] by simp

lemma from_le_defined:
  "pos + width_get w \<le> length data \<Longrightarrow> from_le (take (width_get w) (drop pos data)) \<noteq> undefined_address w
     \<Longrightarrow> from_le (take (width_get w) (drop pos data)) < undefined_address w"
proof -
  assume le: "pos + width_get w \<le> length data" and ne: "from_le (take (width_get w) (drop pos data)) \<noteq> undefined_address w"
  have "from_le (take (width_get w) (drop pos data)) < 256 ^ width_get w"
    by (rule from_le_take_less) (use le in simp)
  then show ?thesis using ne unfolding undefined_address_eq by linarith
qed

lemma returns_array: "fits fs \<Longrightarrow> returns (\<lambda>(bs, fs'). length bs = n \<and> fits fs') (Some (f_array n fs))"
  by (auto simp: f_array_def)

lemma returns_u8: "fits fs \<Longrightarrow> returns (\<lambda>(b, fs'). fits fs') (Some (f_u8 fs))"
  by (simp add: f_u8_def f_array_def)

lemma returns_u16: "fits fs \<Longrightarrow> returns (\<lambda>(v, fs'). v < 65536 \<and> fits fs') (Some (f_u16 fs))"
  using from_le_take_less [of 2 "drop (f_pos fs) (f_data fs)"] by (simp add: f_u16_def f_array_def)

lemma returns_u32: "fits fs \<Longrightarrow> returns (\<lambda>(v, fs'). v < 4294967296 \<and> fits fs') (Some (f_u32 fs))"
  using from_le_take_less [of 4 "drop (f_pos fs) (f_data fs)"] by (simp add: f_u32_def f_array_def)

lemma returns_offset: "fits fs \<Longrightarrow> returns (\<lambda>(v, fs'). v < 256 ^ width_get w \<and> fits fs') (f_offset dbg fs w)"
  using from_le_take_less [of "width_get w" "drop (f_pos fs) (f_data fs)"]
  by (simp add: f_offset_def fits_def read_offset_width_eq advance_def)

lemma returns_length: "fits fs \<Longrightarrow> returns (\<lambda>(v, fs'). v < 256 ^ width_get w \<and> fits fs') (f_length dbg fs w)"
  using returns_offset [of fs w dbg] by (simp add: f_length_def f_offset_def read_length_width_eq)

lemma returns_address: "fits fs \<Longrightarrow> returns (\<lambda>(v, fs'). v < 256 ^ width_get w \<and> fits fs') (f_address dbg fs w)"
  using returns_offset by (simp add: f_address_def)

lemma returns_decoded_address:
  "fits fs \<Longrightarrow> returns (\<lambda>(a, fs'). storable w a \<and> fits fs') (f_decoded_address dbg fs w)"
  by (auto simp: f_decoded_address_def decode_stored_address_def fits_def read_offset_width_eq advance_def
      is_undefined_def from_le_defined)

lemmas returns_fields = returns_array returns_u8 returns_u16 returns_u32 returns_offset returns_length
  returns_address returns_decoded_address

lemma returns_optional_offset:
  "length data \<le> u64_max \<Longrightarrow>
     returns (\<lambda>a. \<forall>x. a = Some x \<longrightarrow> storable w (Defined x)) (read_optional_offset_width dbg data pos w)"
  by (auto simp: read_optional_offset_width_def read_offset_width_eq is_undefined_def from_le_defined)

end
