(* ===== verification/Checksum.thy ===== *)
theory Checksum
  imports Bytes
begin

text \<open>
  The metadata checksum of the format, Jenkins lookup3 (\<^verbatim>\<open>hdf5-pure-format/src/checksum.rs\<close>): the
  one-pass \<^verbatim>\<open>hashlittle\<close>, the variant that hashes a block with its embedded checksum zeroed, the
  incremental \<^verbatim>\<open>JenkinsLookup3\<close>, and the checks of a stored checksum.

  Words are \<^typ>\<open>32 word\<close>, whose addition and subtraction wrap. The loop of \<^verbatim>\<open>update\<close> is a partial
  function, since it ends only because the input never exceeds the declared length.
\<close>

type_synonym u32 = "32 word"

type_synonym hash_state = "u32 \<times> u32 \<times> u32"

section \<open>Mixing\<close>

definition rot :: "u32 \<Rightarrow> nat \<Rightarrow> u32" where
  "rot x k = word_rotl k x"

definition mix :: "hash_state \<Rightarrow> hash_state" where
  "mix s = (let (a, b, c) = s;
      a = a - c; a = a XOR rot c 4; c = c + b;
      b = b - a; b = b XOR rot a 6; a = a + c;
      c = c - b; c = c XOR rot b 8; b = b + a;
      a = a - c; a = a XOR rot c 16; c = c + b;
      b = b - a; b = b XOR rot a 19; a = a + c;
      c = c - b; c = c XOR rot b 4; b = b + a
    in (a, b, c))"

definition final_mix :: "hash_state \<Rightarrow> hash_state" where
  "final_mix s = (let (a, b, c) = s;
      c = c XOR b; c = c - rot b 14;
      a = a XOR c; a = a - rot c 11;
      b = b XOR a; b = b - rot a 25;
      c = c XOR b; c = c - rot b 16;
      a = a XOR c; a = a - rot c 4;
      b = b XOR a; b = b - rot a 14;
      c = c XOR b; c = c - rot b 24
    in (a, b, c))"

section \<open>The one-pass hash\<close>

definition byte_at :: "bool \<Rightarrow> byte list \<Rightarrow> nat \<Rightarrow> nat \<Rightarrow> byte option" where
  "byte_at zero data offset zero_at =
     (if zero \<and> zero_at \<le> offset \<and> offset - zero_at < 4 then Some 0 else get_at data offset)"

definition read_u32_le :: "bool \<Rightarrow> byte list \<Rightarrow> nat \<Rightarrow> nat \<Rightarrow> u32 option" where
  "read_u32_le zero data offset zero_at =
     map_option (\<lambda>bs. word_of_nat (from_le bs))
       (those (map (\<lambda>i. byte_at zero data (offset + i) zero_at) [0..<4]))"

definition add_words :: "hash_state \<Rightarrow> hash_state \<Rightarrow> hash_state" where
  "add_words s w = (let (a, b, c) = s; (x, y, z) = w in (a + x, b + y, c + z))"

definition block_words :: "bool \<Rightarrow> byte list \<Rightarrow> nat \<Rightarrow> nat \<Rightarrow> hash_state option" where
  "block_words zero data offset zero_at = do {
     x \<leftarrow> read_u32_le zero data offset zero_at;
     y \<leftarrow> read_u32_le zero data (offset + 4) zero_at;
     z \<leftarrow> read_u32_le zero data (offset + 8) zero_at;
     Some (x, y, z) }"

function hash_blocks :: "bool \<Rightarrow> byte list \<Rightarrow> nat \<Rightarrow> hash_state \<Rightarrow> nat \<Rightarrow> (hash_state \<times> nat) option" where
  "hash_blocks zero data zero_at s offset =
     (if 12 < length data - offset
      then (case block_words zero data offset zero_at of
              None \<Rightarrow> None
            | Some w \<Rightarrow> hash_blocks zero data zero_at (mix (add_words s w)) (offset + 12))
      else Some (s, offset))"
  by pat_completeness auto

termination
  by (relation "measure (\<lambda>(zero, data, zero_at, s, offset). length data - offset)") auto

declare hash_blocks.simps [simp del]

text \<open>\<^verbatim>\<open>slice::chunks(4)\<close>, and a chunk of at most four bytes or-ed into a word.\<close>

fun chunks4 :: "'a list \<Rightarrow> 'a list list" where
  "chunks4 [] = []"
| "chunks4 (x # xs) = take 4 (x # xs) # chunks4 (drop 3 xs)"

definition or_bytes :: "byte list \<Rightarrow> u32" where
  "or_bytes bs = fold (\<lambda>(i, b) w. w OR push_bit (8 * i) (ucast b)) (List.enumerate 0 bs) 0"

definition three_words :: "u32 list \<Rightarrow> hash_state" where
  "three_words ws =
     (let ws = take 3 (ws @ replicate 3 0) in (ws ! 0, ws ! 1, ws ! 2))"

definition tail_words :: "bool \<Rightarrow> byte list \<Rightarrow> nat \<Rightarrow> nat \<Rightarrow> hash_state option" where
  "tail_words zero data offset zero_at =
     map_option three_words (those (map (\<lambda>(wi, chunk).
       map_option or_bytes (those (map (\<lambda>i. byte_at zero data (offset + wi * 4 + i) zero_at)
         [0..<length chunk]))) (List.enumerate 0 (take 3 (chunks4 (drop offset data))))))"

definition hashlittle_zeroed :: "bool \<Rightarrow> byte list \<Rightarrow> u32 \<Rightarrow> nat \<Rightarrow> u32 option" where
  "hashlittle_zeroed zero data initval zero_at =
     (let seed = 0xdeadbeef + word_of_nat (length data) + initval
      in do {
        (s, offset) \<leftarrow> hash_blocks zero data zero_at (seed, seed, seed) 0;
        if drop offset data = [] then Some (snd (snd s))
        else do {
          w \<leftarrow> tail_words zero data offset zero_at;
          Some (snd (snd (final_mix (add_words s w)))) } })"

definition hashlittle :: "byte list \<Rightarrow> u32 \<Rightarrow> u32 option" where
  "hashlittle data initval = hashlittle_zeroed False data initval 0"

definition jenkins_lookup3 :: "byte list \<Rightarrow> u32 option" where
  "jenkins_lookup3 data = hashlittle data 0"

section \<open>The incremental hash\<close>

record jenkins_state =
  jl_words :: hash_state
  jl_remaining :: u64
  jl_pending :: "byte list"
  jl_pending_len :: nat

abbreviation lookup3_block_len :: nat where "lookup3_block_len \<equiv> 12"

abbreviation lookup3_seed :: u32 where "lookup3_seed \<equiv> 0xdeadbeef"

definition jl_new :: "u64 \<Rightarrow> jenkins_state" where
  "jl_new total_len =
     (let seed = lookup3_seed + word_of_nat total_len
      in \<lparr>jl_words = (seed, seed, seed), jl_remaining = total_len,
          jl_pending = replicate lookup3_block_len 0, jl_pending_len = 0\<rparr>)"

text \<open>One pass of the loop: the state after it, and the input that is left.\<close>

definition jl_step :: "jenkins_state \<Rightarrow> byte list \<Rightarrow> (jenkins_state \<times> byte list) option" where
  "jl_step self data =
     (let len = min (lookup3_block_len - jl_pending_len self) (length data)
      in do {
        pending \<leftarrow> copy_at (jl_pending self) (jl_pending_len self) (take len data);
        remaining \<leftarrow> checked_sub (jl_remaining self) len;
        let pending_len = jl_pending_len self + len;
            self = self\<lparr>jl_remaining := remaining, jl_pending := pending, jl_pending_len := pending_len\<rparr>
        in if pending_len = lookup3_block_len \<and> remaining \<noteq> 0
           then do {
             w \<leftarrow> block_words False pending 0 0;
             Some (self\<lparr>jl_words := mix (add_words (jl_words self) w), jl_pending_len := 0\<rparr>, drop len data) }
           else Some (self, drop len data) })"

partial_function (option) jl_loop :: "jenkins_state \<Rightarrow> byte list \<Rightarrow> jenkins_state option" where
  "jl_loop self data =
     (if data = [] then Some self
      else case jl_step self data of
             None \<Rightarrow> None
           | Some (s, rest) \<Rightarrow> jl_loop s rest)"

definition jl_update :: "jenkins_state \<Rightarrow> byte list \<Rightarrow> (format_error + jenkins_state) option" where
  "jl_update self data =
     (if jl_remaining self < length data
      then Some (Inl (Internal ''checksum input exceeds its declared length''))
      else map_option Inr (jl_loop self data))"

definition jl_finish :: "jenkins_state \<Rightarrow> (format_error + u32) option" where
  "jl_finish self =
     (if jl_remaining self \<noteq> 0
      then Some (Inl (Internal ''checksum input is shorter than its declared length''))
      else if jl_pending_len self = 0 then Some (Inr (snd (snd (jl_words self))))
      else do {
        bytes \<leftarrow> slice_get (jl_pending self) 0 (jl_pending_len self);
        let words = three_words (map or_bytes (take 3 (chunks4 bytes)))
        in Some (Inr (snd (snd (final_mix (add_words (jl_words self) words))))) })"

section \<open>Stored checksums\<close>

definition verify_trailing_required :: "byte list \<Rightarrow> (format_error + unit) option" where
  "verify_trailing_required block =
     (if length block < 4 then Some (Inl (UnexpectedEof 4 (length block)))
      else
        let body = take (length block - 4) block;
            stored = from_le (drop (length block - 4) block)
        in do {
          computed \<leftarrow> jenkins_lookup3 body;
          if unat computed \<noteq> stored then Some (Inl (ChecksumMismatch stored (unat computed)))
          else Some (Inr ()) })"

text \<open>The parameter says whether the feature \<^verbatim>\<open>checksum\<close> is compiled in.\<close>

definition verify_trailing :: "bool \<Rightarrow> byte list \<Rightarrow> (format_error + unit) option" where
  "verify_trailing feature block =
     (if feature then verify_trailing_required block else Some (Inr ()))"

definition verify_zeroed_required :: "byte list \<Rightarrow> nat \<Rightarrow> (format_error + unit) option" where
  "verify_zeroed_required block checksum_at =
     try_bind (Some (f_u32 (fields_new block checksum_at))) (\<lambda>(stored, _). do {
       computed \<leftarrow> hashlittle_zeroed True block 0 checksum_at;
       if stored \<noteq> unat computed then Some (Inl (ChecksumMismatch stored (unat computed)))
       else Some (Inr ()) })"

definition verify_zeroed :: "bool \<Rightarrow> byte list \<Rightarrow> nat \<Rightarrow> (format_error + unit) option" where
  "verify_zeroed feature block checksum_at =
     try_bind (Some (f_u32 (fields_new block checksum_at))) (\<lambda>(stored, _).
       if feature
       then do {
         computed \<leftarrow> hashlittle_zeroed True block 0 checksum_at;
         if stored \<noteq> unat computed then Some (Inl (ChecksumMismatch stored (unat computed)))
         else Some (Inr ()) }
       else Some (Inr ()))"

section \<open>Lemmas\<close>

subsection \<open>Bytes that are hashed\<close>

text \<open>A block with four bytes zeroed.\<close>

definition zero_field :: "nat \<Rightarrow> byte list \<Rightarrow> byte list" where
  "zero_field at data = map (\<lambda>i. if at \<le> i \<and> i - at < 4 then 0 else data ! i) [0..<length data]"

lemma length_zero_field [simp]: "length (zero_field at data) = length data"
  by (simp add: zero_field_def)

abbreviation hashed :: "bool \<Rightarrow> nat \<Rightarrow> byte list \<Rightarrow> byte list" where
  "hashed zero at data \<equiv> if zero then zero_field at data else data"

lemma length_hashed [simp]: "length (hashed zero at data) = length data"
  by simp

lemma byte_at_eq: "offset < length data \<Longrightarrow> byte_at zero data offset at = Some (hashed zero at data ! offset)"
  by (auto simp: byte_at_def get_at_def zero_field_def)

lemma those_byte_at:
  assumes "offset + n \<le> length data"
  shows "those (map (\<lambda>i. byte_at zero data (offset + i) at) [0..<n]) = Some (take n (drop offset (hashed zero at data)))"
proof -
  have "those (map (\<lambda>i. byte_at zero data (offset + i) at) [0..<n])
      = Some (map (\<lambda>i. hashed zero at data ! (offset + i)) [0..<n])"
    using assms by (intro those_map_Some byte_at_eq) simp
  also have "map (\<lambda>i. hashed zero at data ! (offset + i)) [0..<n] = take n (drop offset (hashed zero at data))"
    using assms by (intro nth_equalityI) simp_all
  finally show ?thesis .
qed

definition word_of_le :: "byte list \<Rightarrow> u32" where
  "word_of_le bs = word_of_nat (from_le bs)"

definition block3 :: "byte list \<Rightarrow> hash_state" where
  "block3 bs = (word_of_le (take 4 bs), word_of_le (take 4 (drop 4 bs)), word_of_le (take 4 (drop 8 bs)))"

lemma read_u32_le_eq:
  "offset + 4 \<le> length data \<Longrightarrow>
     read_u32_le zero data offset at = Some (word_of_le (take 4 (drop offset (hashed zero at data))))"
  by (simp add: read_u32_le_def those_byte_at word_of_le_def)

lemma block_words_eq:
  "offset + 12 \<le> length data \<Longrightarrow> block_words zero data offset at = Some (block3 (drop offset (hashed zero at data)))"
  by (simp add: block_words_def read_u32_le_eq block3_def add.commute)

lemma block3_take: "block3 (take 12 bs) = block3 bs"
  by (simp add: block3_def drop_take)

lemma block3_append: "12 \<le> length as \<Longrightarrow> block3 (as @ bs) = block3 as"
  using block3_take [of "as @ bs"] block3_take [of as] by simp

lemma chunks4_nth: "i < length (chunks4 xs) \<Longrightarrow> chunks4 xs ! i = take 4 (drop (4 * i) xs)"
proof (induction xs arbitrary: i rule: chunks4.induct)
  case (2 x xs)
  show ?case
  proof (cases i)
    case (Suc k)
    have "4 * i = Suc (3 + 4 * k)" using Suc by simp
    then have "drop (4 * i) (x # xs) = drop (4 * k) (drop 3 xs)"
      by (simp only: drop_Suc_Cons drop_drop) (simp add: add.commute)
    then show ?thesis using 2 Suc by simp
  qed simp
qed simp

lemma chunks4_index: "i < length (chunks4 xs) \<Longrightarrow> 4 * i < length xs"
proof (induction xs arbitrary: i rule: chunks4.induct)
  case (2 x xs)
  show ?case
  proof (cases i)
    case (Suc k)
    then show ?thesis using 2 by fastforce
  qed simp
qed simp

definition tail3 :: "byte list \<Rightarrow> hash_state" where
  "tail3 bs = three_words (map or_bytes (take 3 (chunks4 bs)))"

lemma chunks4_hashed: "map length (chunks4 xs) = map length (chunks4 ys)" if "length xs = length ys"
  using that
proof (induction xs arbitrary: ys rule: chunks4.induct)
  case (2 x xs)
  then obtain y ys' where "ys = y # ys'" by (cases ys) auto
  then show ?case using 2 by simp
qed simp

lemma chunks4_length: "length xs = length ys \<Longrightarrow> length (chunks4 xs) = length (chunks4 ys)"
  using chunks4_hashed by (metis length_map)

lemma tail_words_eq:
  assumes "offset \<le> length data"
  shows "tail_words zero data offset at = Some (tail3 (drop offset (hashed zero at data)))"
proof -
  let ?h = "drop offset (hashed zero at data)" and ?d = "drop offset data"
  let ?f = "\<lambda>(wi, chunk). map_option or_bytes (those (map (\<lambda>i. byte_at zero data (offset + wi * 4 + i) at) [0..<length chunk]))"
  have len: "length ?h = length ?d" by simp
  have "?f x = Some (or_bytes (chunks4 ?h ! fst x))" if "x \<in> set (List.enumerate 0 (take 3 (chunks4 ?d)))" for x
  proof -
    obtain wi c where x: "x = (wi, c)" by fastforce
    have wi: "wi < length (chunks4 ?d)" "c = take 4 (drop (4 * wi) ?d)"
      using that by (auto simp: x in_set_enumerate_eq chunks4_nth)
    have c: "offset + wi * 4 + length c \<le> length data"
      using chunks4_index [OF wi(1)] by (auto simp: wi(2))
    have "those (map (\<lambda>i. byte_at zero data (offset + wi * 4 + i) at) [0..<length c]) = Some (take (length c) (drop (offset + wi * 4) (hashed zero at data)))"
      by (rule those_byte_at [OF c])
    also have "take (length c) (drop (offset + wi * 4) (hashed zero at data)) = take 4 (drop (4 * wi) ?h)"
      by (auto simp: wi(2) min_def add.commute mult.commute)
    also have "\<dots> = chunks4 ?h ! wi"
      using wi(1) chunks4_length [OF len] by (simp add: chunks4_nth)
    finally show ?thesis by (simp add: x)
  qed
  then have "those (map ?f (List.enumerate 0 (take 3 (chunks4 ?d))))
      = Some (map (\<lambda>x. or_bytes (chunks4 ?h ! fst x)) (List.enumerate 0 (take 3 (chunks4 ?d))))"
    by (rule those_map_Some)
  also have "map (\<lambda>x. or_bytes (chunks4 ?h ! fst x)) (List.enumerate 0 (take 3 (chunks4 ?d))) = map or_bytes (take 3 (chunks4 ?h))"
    using chunks4_length [OF len] by (intro nth_equalityI) (simp_all add: nth_enumerate_eq)
  finally show ?thesis by (simp add: tail_words_def tail3_def)
qed

subsection \<open>A closed form of the hash\<close>

primrec absorb :: "nat \<Rightarrow> byte list \<Rightarrow> hash_state \<Rightarrow> hash_state" where
  "absorb 0 bs s = s"
| "absorb (Suc n) bs s = absorb n (drop 12 bs) (mix (add_words s (block3 bs)))"

lemma absorb_snoc: "absorb (Suc n) bs s = mix (add_words (absorb n bs s) (block3 (drop (12 * n) bs)))"
proof (induction n arbitrary: bs s)
  case (Suc n)
  then show ?case using Suc [of "drop 12 bs"] by (simp add: add.commute)
qed simp

lemma absorb_append: "12 * n \<le> length as \<Longrightarrow> absorb n (as @ bs) s = absorb n as s"
proof (induction n arbitrary: as s)
  case (Suc n)
  then show ?case using Suc.IH [of "drop 12 as"] by (simp add: block3_append)
qed simp

lemma hash_blocks_eq:
  "offset \<le> length data \<Longrightarrow> hash_blocks zero data at s offset =
     Some (absorb ((length data - offset - 1) div 12) (drop offset (hashed zero at data)) s,
       offset + 12 * ((length data - offset - 1) div 12))"
proof (induction "length data - offset" arbitrary: offset s rule: less_induct)
  case less
  show ?case
  proof (cases "12 < length data - offset")
    case True
    have n: "(length data - offset - 1) div 12 = Suc ((length data - (offset + 12) - 1) div 12)"
      using True by (simp add: le_div_geq)
    have "hash_blocks zero data at s offset
        = hash_blocks zero data at (mix (add_words s (block3 (drop offset (hashed zero at data))))) (offset + 12)"
      using True by (simp add: hash_blocks.simps [of zero data at s offset] block_words_eq)
    also have "\<dots> = Some (absorb ((length data - (offset + 12) - 1) div 12) (drop (offset + 12) (hashed zero at data))
          (mix (add_words s (block3 (drop offset (hashed zero at data))))),
        offset + 12 + 12 * ((length data - (offset + 12) - 1) div 12))"
      using True by (intro less.hyps) auto
    finally show ?thesis unfolding n by (simp add: add.commute)
  next
    case False
    then have "(length data - offset - 1) div 12 = 0" by (auto simp: div_eq_0_iff)
    then show ?thesis using False by (simp add: hash_blocks.simps [of zero data at s offset])
  qed
qed

definition lookup3 :: "hash_state \<Rightarrow> byte list \<Rightarrow> u32" where
  "lookup3 seed data =
     (let n = (length data - 1) div 12; s = absorb n data seed
      in if data = [] then snd (snd seed)
         else snd (snd (final_mix (add_words s (tail3 (drop (12 * n) data))))))"

lemma last_block_less: "data \<noteq> [] \<Longrightarrow> 12 * ((length data - 1) div 12) < length data"
  using div_times_less_eq_dividend [of "length data - 1" 12] by (cases data) auto

abbreviation seed_of :: "nat \<Rightarrow> u32 \<Rightarrow> hash_state" where
  "seed_of n initval \<equiv> (0xdeadbeef + word_of_nat n + initval, 0xdeadbeef + word_of_nat n + initval,
     0xdeadbeef + word_of_nat n + initval)"

lemma hashlittle_zeroed_eq:
  "hashlittle_zeroed zero data initval at = Some (lookup3 (seed_of (length data) initval) (hashed zero at data))"
proof (cases "data = []")
  case True
  then show ?thesis
    using hash_blocks_eq [of 0 data zero at] by (simp add: hashlittle_zeroed_def lookup3_def zero_field_def)
next
  case False
  then have "hashed zero at data \<noteq> []" by (metis length_hashed length_0_conv)
  then show ?thesis
    using False last_block_less [OF False]
    by (simp add: hashlittle_zeroed_def lookup3_def Let_def hash_blocks_eq tail_words_eq)
qed

lemma jenkins_lookup3_eq: "jenkins_lookup3 data = Some (lookup3 (seed_of (length data) 0) data)"
  by (simp add: jenkins_lookup3_def hashlittle_def hashlittle_zeroed_eq)

subsection \<open>The incremental hash\<close>

definition jl_inv :: "nat \<Rightarrow> byte list \<Rightarrow> jenkins_state \<Rightarrow> bool" where
  "jl_inv N read s = (\<exists>k.
     length read \<le> N \<and> jl_remaining s = N - length read \<and> length (jl_pending s) = 12
     \<and> length read = 12 * k + jl_pending_len s
     \<and> take (jl_pending_len s) (jl_pending s) = drop (12 * k) read
     \<and> jl_words s = absorb k read (seed_of N 0)
     \<and> (if length read < N then jl_pending_len s < 12 else jl_pending_len s \<le> 12 \<and> (0 < N \<longrightarrow> 0 < jl_pending_len s)))"

lemma jl_inv_new: "jl_inv N [] (jl_new N)"
  unfolding jl_inv_def by (rule exI [of _ 0]) (simp add: jl_new_def Let_def)

lemma jl_step_ok:
  assumes inv: "jl_inv N read s" and data: "data \<noteq> []" "length data \<le> jl_remaining s"
  obtains s' n where "jl_step s data = Some (s', drop n data)" "0 < n" "n \<le> length data"
    "jl_inv N (read @ take n data) s'"
proof -
  obtain k where k: "length read \<le> N" "jl_remaining s = N - length read" "length (jl_pending s) = 12"
    "length read = 12 * k + jl_pending_len s" "take (jl_pending_len s) (jl_pending s) = drop (12 * k) read"
    "jl_words s = absorb k read (seed_of N 0)" "length read < N \<Longrightarrow> jl_pending_len s < 12"
    using inv unfolding jl_inv_def by auto
  define n where "n = min (12 - jl_pending_len s) (length data)"
  define pending where "pending = take (jl_pending_len s) (jl_pending s) @ take n data @ drop (jl_pending_len s + n) (jl_pending s)"
  have less: "jl_pending_len s < 12" using k data by (cases data) auto
  have n: "0 < n" "n \<le> length data" "jl_pending_len s + n \<le> 12" using less data by (auto simp: n_def min_def)
  have copy: "copy_at (jl_pending s) (jl_pending_len s) (take n data) = Some pending"
    using n k(3) by (simp add: copy_at_def pending_def)
  have sub: "n \<le> jl_remaining s" "jl_remaining s - n = N - length (read @ take n data)"
    using n data(2) k by simp_all
  have pend: "length pending = 12" "take (jl_pending_len s + n) pending = drop (12 * k) (read @ take n data)"
    using n k(3,4,5) by (simp_all add: pending_def)
  have words: "absorb k (read @ take n data) (seed_of N 0) = jl_words s"
    using k(4,6) by (simp add: absorb_append)
  let ?s = "s\<lparr>jl_remaining := N - length (read @ take n data), jl_pending := pending, jl_pending_len := jl_pending_len s + n\<rparr>"
  show thesis
  proof (cases "jl_pending_len s + n = 12 \<and> N - length (read @ take n data) \<noteq> 0")
    case True
    have full: "pending = drop (12 * k) (read @ take n data)" using pend True by simp
    have "jl_step s data = Some (?s\<lparr>jl_words := mix (add_words (jl_words s) (block3 pending)), jl_pending_len := 0\<rparr>, drop n data)"
      using True copy sub pend(1) by (simp add: jl_step_def Let_def block_words_eq checked_sub_def flip: n_def)
    moreover have "jl_inv N (read @ take n data) (?s\<lparr>jl_words := mix (add_words (jl_words s) (block3 pending)), jl_pending_len := 0\<rparr>)"
      unfolding jl_inv_def
      by (rule exI [of _ "Suc k"]) (use True k n pend words in \<open>auto simp add: absorb_snoc full simp del: absorb.simps\<close>)
    ultimately show ?thesis using n that by blast
  next
    case False
    have "jl_step s data = Some (?s, drop n data)"
      using False copy sub by (auto simp: jl_step_def Let_def checked_sub_def simp flip: n_def)
    moreover have "jl_inv N (read @ take n data) ?s"
      unfolding jl_inv_def
      by (rule exI [of _ k]) (use False k n pend words data(2) in auto)
    ultimately show ?thesis using n that by blast
  qed
qed

lemma jl_loop_ok:
  "jl_inv N read s \<Longrightarrow> length data \<le> jl_remaining s \<Longrightarrow> \<exists>s'. jl_loop s data = Some s' \<and> jl_inv N (read @ data) s'"
proof (induction "length data" arbitrary: data read s rule: less_induct)
  case less
  show ?case
  proof (cases "data = []")
    case True
    then show ?thesis using less.prems by (simp add: jl_loop.simps)
  next
    case False
    obtain s1 n where s1: "jl_step s data = Some (s1, drop n data)" "0 < n" "n \<le> length data"
      "jl_inv N (read @ take n data) s1"
      using jl_step_ok [OF less.prems(1) False less.prems(2)] by blast
    have rem: "length (drop n data) \<le> jl_remaining s1"
      using s1(3,4) less.prems unfolding jl_inv_def by auto
    obtain s' where "jl_loop s1 (drop n data) = Some s'" "jl_inv N (read @ take n data @ drop n data) s'"
      using less.hyps [OF _ s1(4) rem] s1(2,3) False by auto
    then show ?thesis using False s1(1) by (subst jl_loop.simps) simp
  qed
qed

lemma jl_finish_ok:
  assumes "jl_inv N data s" "length data = N"
  shows "jl_finish s = Some (Inr (lookup3 (seed_of N 0) data))"
proof -
  obtain k where k: "jl_remaining s = 0" "length (jl_pending s) = 12" "N = 12 * k + jl_pending_len s"
    "take (jl_pending_len s) (jl_pending s) = drop (12 * k) data" "jl_words s = absorb k data (seed_of N 0)"
    "jl_pending_len s \<le> 12" "0 < N \<Longrightarrow> 0 < jl_pending_len s"
    using assms unfolding jl_inv_def by auto
  show ?thesis
  proof (cases "N = 0")
    case True
    then show ?thesis using k assms(2) by (simp add: jl_finish_def lookup3_def)
  next
    case False
    then have "(N - 1) div 12 = k" using k(3,6,7) by (intro div_nat_eqI) auto
    then show ?thesis
      using False k assms(2) by (auto simp: jl_finish_def lookup3_def Let_def slice_get_def tail3_def)
  qed
qed

end
