(* ===== verification/Checksum_Properties.thy ===== *)
theory Checksum_Properties
  imports Checksum
begin

text \<open>
  Properties of the metadata checksum: the incremental hash agrees with the one-pass hash for every
  division of the input, and a stored checksum is accepted exactly if it is the hash of the rest.
\<close>

primrec jl_updates :: "jenkins_state \<Rightarrow> byte list list \<Rightarrow> (format_error + jenkins_state) option" where
  "jl_updates s [] = Some (Inr s)"
| "jl_updates s (part # parts) = try_bind (jl_update s part) (\<lambda>s. jl_updates s parts)"

lemma jl_updates_ok:
  "jl_inv N read s \<Longrightarrow>
     if length read + length (concat parts) \<le> N
     then \<exists>s'. jl_updates s parts = Some (Inr s') \<and> jl_inv N (read @ concat parts) s'
     else jl_updates s parts = Some (Inl (Internal ''checksum input exceeds its declared length''))"
proof (induction parts arbitrary: read s)
  case (Cons part parts)
  have rem: "jl_remaining s = N - length read" "length read \<le> N"
    using Cons.prems by (auto simp: jl_inv_def)
  show ?case
  proof (cases "length part \<le> jl_remaining s")
    case True
    then obtain s' where s': "jl_loop s part = Some s'" "jl_inv N (read @ part) s'"
      using jl_loop_ok [OF Cons.prems] by blast
    then have "jl_updates s (part # parts) = jl_updates s' parts"
      using True by (simp add: jl_update_def)
    then show ?thesis using Cons.IH [OF s'(2)] by (simp add: add.assoc split: if_splits)
  next
    case False
    then have "jl_updates s (part # parts) = Some (Inl (Internal ''checksum input exceeds its declared length''))"
      by (simp add: jl_update_def)
    then show ?thesis using False rem by simp
  qed
qed (auto simp: jl_inv_def)

text \<open>C25: hashing the parts of an input one after another with \<^verbatim>\<open>JenkinsLookup3\<close> always returns and
  never panics. If the parts have the declared total length, the result is the one-pass
  \<^verbatim>\<open>jenkins_lookup3\<close> of their concatenation, wherever the input is cut. More input than declared
  and less input than declared are reported as errors.\<close>

theorem incremental_hash_agrees:
  "\<exists>h. jenkins_lookup3 (concat parts) = Some h \<and>
     try_bind (jl_updates (jl_new N) parts) jl_finish =
       Some (if length (concat parts) = N then Inr h
             else if N < length (concat parts)
             then Inl (Internal ''checksum input exceeds its declared length'')
             else Inl (Internal ''checksum input is shorter than its declared length''))"
proof -
  note u = jl_updates_ok [OF jl_inv_new [of N], of parts]
  consider "N < length (concat parts)" | "length (concat parts) \<le> N" by linarith
  then show ?thesis
  proof cases
    case 1
    then show ?thesis using u by (simp add: jenkins_lookup3_eq)
  next
    case 2
    then obtain s where s: "jl_updates (jl_new N) parts = Some (Inr s)" "jl_inv N (concat parts) s"
      using u by auto
    show ?thesis
    proof (cases "length (concat parts) = N")
      case True
      then show ?thesis using s jl_finish_ok [OF s(2) True] by (simp add: jenkins_lookup3_eq)
    next
      case False
      then have "jl_remaining s \<noteq> 0" using 2 s(2) by (auto simp: jl_inv_def)
      then show ?thesis using 2 False s(1) by (simp add: jenkins_lookup3_eq jl_finish_def)
    qed
  qed
qed

lemma u32_less: "unat h < 256 ^ 4" for h :: u32
  using unsigned_less [of h] by simp

text \<open>C26: \<^verbatim>\<open>verify_trailing_required\<close> never panics and accepts a block exactly if its last four bytes
  are the little-endian hash of all the bytes before them.\<close>

theorem verify_trailing_exact:
  "\<exists>r. verify_trailing_required block = Some r \<and>
     (r = Inr () \<longleftrightarrow> (\<exists>body h. jenkins_lookup3 body = Some h \<and> block = body @ to_le 4 (unat h)))"
proof (cases "length block < 4")
  case True
  then show ?thesis by (auto simp: verify_trailing_required_def)
next
  case False
  let ?body = "take (length block - 4) block" and ?seal = "drop (length block - 4) block"
  obtain h where h: "jenkins_lookup3 ?body = Some h" by (simp add: jenkins_lookup3_eq)
  have len: "length ?seal = 4" using False by simp
  have "(\<exists>body g. jenkins_lookup3 body = Some g \<and> block = body @ to_le 4 (unat g)) \<longleftrightarrow> ?seal = to_le 4 (unat h)"
  proof
    assume "\<exists>body g. jenkins_lookup3 body = Some g \<and> block = body @ to_le 4 (unat g)"
    then show "?seal = to_le 4 (unat h)" using h by auto
  next
    assume "?seal = to_le 4 (unat h)"
    then show "\<exists>body g. jenkins_lookup3 body = Some g \<and> block = body @ to_le 4 (unat g)"
      using h append_take_drop_id [of "length block - 4" block] by metis
  qed
  moreover have "?seal = to_le 4 (unat h) \<longleftrightarrow> unat h = from_le ?seal"
    using to_le_from_le [of ?seal, unfolded len] from_le_to_le [of 4 "unat h"] u32_less [of h] by auto
  ultimately show ?thesis using False h by (auto simp: verify_trailing_required_def Let_def)
qed

lemma zero_field_split:
  "at + 4 \<le> length data \<Longrightarrow> zero_field at data = take at data @ replicate 4 0 @ drop (at + 4) data"
  by (rule nth_equalityI) (auto simp: zero_field_def nth_append)

lemma f_u32_at:
  "f_u32 (fields_new block at) = (if length block < at + 4
     then Inl (UnexpectedEof (saturating_add at 4) (length block))
     else Inr (from_le (take 4 (drop at block)), advance (fields_new block at) 4))"
  by (auto simp: f_u32_def f_array_def fields_new_def)

lemma from_le_u32: "length bs = 4 \<Longrightarrow> from_le bs = unat h \<longleftrightarrow> bs = to_le 4 (unat h)" for h :: u32
  using to_le_from_le [of bs] from_le_to_le [of 4 "unat h"] u32_less [of h] by auto

text \<open>C27: \<^verbatim>\<open>verify_zeroed_required\<close> never panics. It accepts a block exactly if the four bytes at the
  checksum position lie in the block and are the little-endian one-pass hash of the block with those
  four bytes set to zero; a different checksum is reported with both values, a field past the last
  byte as truncated input. \<^verbatim>\<open>verify_zeroed\<close> is the same check with checksums enabled; without them it
  accepts every block that has the field.\<close>

theorem verify_zeroed_exact:
  "\<exists>h. jenkins_lookup3 (take at block @ replicate 4 0 @ drop (at + 4) block) = Some h
     \<and> verify_zeroed_required block at = Some
         (if length block < at + 4 then Inl (UnexpectedEof (saturating_add at 4) (length block))
          else if take 4 (drop at block) = to_le 4 (unat h) then Inr ()
          else Inl (ChecksumMismatch (from_le (take 4 (drop at block))) (unat h)))
     \<and> verify_zeroed feature block at =
         (if feature \<or> length block < at + 4 then verify_zeroed_required block at else Some (Inr ()))"
proof -
  obtain h where h: "jenkins_lookup3 (take at block @ replicate 4 0 @ drop (at + 4) block) = Some h"
    by (simp add: jenkins_lookup3_eq)
  show ?thesis
  proof (cases "length block < at + 4")
    case True
    then show ?thesis using h by (simp add: verify_zeroed_def verify_zeroed_required_def f_u32_at)
  next
    case False
    then have len: "at + 4 \<le> length block" "length (take 4 (drop at block)) = 4" by simp_all
    have "hashlittle_zeroed True block 0 at = Some h"
      using h len(1) zero_field_split [OF len(1)] by (simp add: hashlittle_zeroed_eq jenkins_lookup3_eq)
    then show ?thesis
      using False h from_le_u32 [OF len(2), of h]
      by (simp add: verify_zeroed_def verify_zeroed_required_def f_u32_at)
  qed
qed

end
