(* ===== verification/File_Space_Info.thy ===== *)
theory File_Space_Info
  imports Bytes
begin

text \<open>
  The File Space Info message (\<^verbatim>\<open>hdf5-pure-format/src/file_space_info.rs\<close>): the writer of version 1,
  the parsers of versions 0 and 1, and the normalisation of version 0.

  The lemmas show that parsing never panics and yields only fields that can be stored, and that the
  parser inverts the writer.
\<close>

section \<open>The message\<close>

record file_space_info =
  fsi_strategy :: file_space_strategy
  fsi_persist :: bool
  fsi_threshold :: u64
  fsi_page_size :: page_size
  fsi_page_end :: nat
  fsi_eoa_pre_fsm :: "decoded_address option"
  fsi_manager_addrs :: "decoded_address list"

abbreviation fsi_version_0 :: byte where "fsi_version_0 \<equiv> 0"

abbreviation fsi_version_1 :: byte where "fsi_version_1 \<equiv> 1"

abbreviation num_file_fsm_managers :: nat where "num_file_fsm_managers \<equiv> 12"

abbreviation version_0_managers :: nat where "version_0_managers \<equiv> 6"

definition fixed_len :: "format_widths \<Rightarrow> nat" where
  "fixed_len ws = 3 + 2 * width_get (fw_lengths ws) + 2 + width_get (fw_offsets ws)"

fun strategy_code :: "file_space_strategy \<Rightarrow> byte" where
  "strategy_code FsmAggr = 0"
| "strategy_code Page = 1"
| "strategy_code Aggr = 2"
| "strategy_code NoStrategy = 3"

definition strategy_from_code :: "byte \<Rightarrow> format_error + file_space_strategy" where
  "strategy_from_code code =
     (if code = 0 then Inr FsmAggr
      else if code = 1 then Inr Page
      else if code = 2 then Inr Aggr
      else if code = 3 then Inr NoStrategy
      else Inl (InvalidFileSpaceStrategy (unat code)))"

section \<open>Writing\<close>

primrec write_addresses ::
  "byte list \<Rightarrow> decoded_address list \<Rightarrow> field_width \<Rightarrow> (format_error + byte list) option" where
  "write_addresses buf [] w = Some (Inr buf)"
| "write_addresses buf (a # as) w =
     try_bind (try_write_decoded_address buf a w) (\<lambda>buf. write_addresses buf as w)"

definition serialize_file_space_info_v1 ::
  "format_widths \<Rightarrow> file_space_info \<Rightarrow> (format_error + byte list) option" where
  "serialize_file_space_info_v1 ws info =
     (case fsi_eoa_pre_fsm info of
        None \<Rightarrow> Some (Inl (UnsupportedFileSpaceInfoVersion (unat fsi_version_0)))
      | Some eoa_pre_fsm \<Rightarrow>
          if fsi_persist info \<and> length (fsi_manager_addrs info) \<noteq> num_file_fsm_managers
          then Some (Inl (InvalidFreeSpaceManager
            (''a persisting version 1 message requires '' @ decimal num_file_fsm_managers
             @ '' manager addresses, but '' @ decimal (length (fsi_manager_addrs info)) @ '' were provided'')))
          else
            let manager_addrs = (if fsi_persist info then fsi_manager_addrs info else []);
                buf = [fsi_version_1, strategy_code (fsi_strategy info), of_bool (fsi_persist info)]
            in try_bind (try_write_length buf (fsi_threshold info) (fw_lengths ws)) (\<lambda>buf.
               try_bind (try_write_length buf (fsi_page_size info) (fw_lengths ws)) (\<lambda>buf.
               let buf = buf @ to_le 2 (fsi_page_end info) in
               try_bind (try_write_decoded_address buf eoa_pre_fsm (fw_offsets ws)) (\<lambda>buf.
               write_addresses buf manager_addrs (fw_offsets ws)))))"

section \<open>Normalisation\<close>

text \<open>\<^verbatim>\<open>Vec::resize\<close>.\<close>

definition resize :: "'a list \<Rightarrow> nat \<Rightarrow> 'a \<Rightarrow> 'a list" where
  "resize xs n x = take n xs @ replicate (n - length xs) x"

definition normalize_file_space_info_to_v1 :: "file_space_info \<Rightarrow> stored_address \<Rightarrow> file_space_info" where
  "normalize_file_space_info_to_v1 info eoa =
     (if fsi_eoa_pre_fsm info \<noteq> None then info
      else
        let (eoa_pre_fsm, manager_addrs) =
          (if fsi_persist info
           then (Some (Defined eoa), resize (fsi_manager_addrs info) num_file_fsm_managers Undefined)
           else (Some Undefined, []))
        in info\<lparr>fsi_eoa_pre_fsm := eoa_pre_fsm, fsi_manager_addrs := manager_addrs\<rparr>)"

section \<open>Parsing\<close>

primrec decode_addresses ::
  "bool \<Rightarrow> nat \<Rightarrow> fields \<Rightarrow> field_width \<Rightarrow> (format_error + decoded_address list \<times> fields) option" where
  "decode_addresses dbg 0 fs w = Some (Inr ([], fs))"
| "decode_addresses dbg (Suc n) fs w =
     try_bind (f_decoded_address dbg fs w) (\<lambda>(a, fs).
       try_bind (decode_addresses dbg n fs w) (\<lambda>(as, fs). Some (Inr (a # as, fs))))"

definition fsi_defaults :: file_space_info where
  "fsi_defaults =
     \<lparr>fsi_strategy = FsmAggr, fsi_persist = False, fsi_threshold = 1,
      fsi_page_size = page_size_default, fsi_page_end = 0, fsi_eoa_pre_fsm = None,
      fsi_manager_addrs = []\<rparr>"

definition fsi_parse_version_0 ::
  "bool \<Rightarrow> format_widths \<Rightarrow> byte list \<Rightarrow> (format_error + file_space_info) option" where
  "fsi_parse_version_0 dbg ws data =
     (let head_len = 2 + width_get (fw_lengths ws) in
      try_bind (Some (ensure_len data 0 head_len)) (\<lambda>_.
      try_bind (Some (f_u8 (fields_new data 1))) (\<lambda>(code, fs).
      try_bind (f_length dbg fs (fw_lengths ws)) (\<lambda>(threshold, fs).
      if code = 1
      then try_bind (Some (ensure_len data head_len (version_0_managers * width_get (fw_offsets ws)))) (\<lambda>_.
           try_bind (decode_addresses dbg version_0_managers fs (fw_offsets ws)) (\<lambda>(addrs, _).
             Some (Inr (fsi_defaults\<lparr>fsi_persist := True, fsi_threshold := threshold,
               fsi_manager_addrs := addrs\<rparr>))))
      else if code = 2 then Some (Inr (fsi_defaults\<lparr>fsi_threshold := threshold\<rparr>))
      else if code = 3 then Some (Inr (fsi_defaults\<lparr>fsi_strategy := Aggr\<rparr>))
      else if code = 4 then Some (Inr (fsi_defaults\<lparr>fsi_strategy := NoStrategy\<rparr>))
      else Some (Inl (InvalidFileSpaceStrategy (unat code)))))))"

definition fsi_parse_version_1 ::
  "bool \<Rightarrow> format_widths \<Rightarrow> byte list \<Rightarrow> (format_error + file_space_info) option" where
  "fsi_parse_version_1 dbg ws data =
     (let fixed = fixed_len ws in
      if length data < fixed then Some (Inl (UnexpectedEof fixed (length data)))
      else
        let head = take fixed data; managers = drop fixed data in
        try_bind (Some (f_u8 (fields_new head 1))) (\<lambda>(code, fs).
        try_bind (Some (strategy_from_code code)) (\<lambda>strategy.
        try_bind (Some (f_u8 fs)) (\<lambda>(persist, fs).
        try_bind (f_length dbg fs (fw_lengths ws)) (\<lambda>(threshold, fs).
        try_bind (f_length dbg fs (fw_lengths ws)) (\<lambda>(sz, fs).
        try_bind (Some (page_size_try_from sz)) (\<lambda>page.
        try_bind (Some (f_u16 fs)) (\<lambda>(page_end, fs).
        try_bind (f_decoded_address dbg fs (fw_offsets ws)) (\<lambda>(eoa, fs).
        try_bind
          (if persist \<noteq> 0
           then try_bind (Some (ensure_len managers 0 (num_file_fsm_managers * width_get (fw_offsets ws)))) (\<lambda>_.
                try_bind (decode_addresses dbg num_file_fsm_managers (fields_new managers 0) (fw_offsets ws))
                  (\<lambda>(addrs, _). Some (Inr addrs)))
           else Some (Inr [])) (\<lambda>addrs.
        Some (Inr \<lparr>fsi_strategy = strategy, fsi_persist = (persist \<noteq> 0), fsi_threshold = threshold,
          fsi_page_size = page, fsi_page_end = page_end, fsi_eoa_pre_fsm = Some eoa,
          fsi_manager_addrs = addrs\<rparr>)))))))))))"

definition parse_file_space_info ::
  "bool \<Rightarrow> format_widths \<Rightarrow> byte list \<Rightarrow> (format_error + file_space_info) option" where
  "parse_file_space_info dbg ws data =
     try_bind (Some (f_u8 (fields_new data 0))) (\<lambda>(version, _).
       if version = fsi_version_0 then fsi_parse_version_0 dbg ws data
       else if version = fsi_version_1 then fsi_parse_version_1 dbg ws data
       else Some (Inl (UnsupportedFileSpaceInfoVersion (unat version))))"

section \<open>Messages that can be stored\<close>

definition storable_info :: "format_widths \<Rightarrow> file_space_info \<Rightarrow> bool" where
  "storable_info ws info =
     (fsi_threshold info < 256 ^ width_get (fw_lengths ws)
      \<and> valid_page_size (fsi_page_size info) \<and> fsi_page_size info < 256 ^ width_get (fw_lengths ws)
      \<and> fsi_page_end info < 65536
      \<and> (\<exists>a. fsi_eoa_pre_fsm info = Some a \<and> storable (fw_offsets ws) a)
      \<and> (if fsi_persist info
         then length (fsi_manager_addrs info) = num_file_fsm_managers
           \<and> (\<forall>a \<in> set (fsi_manager_addrs info). storable (fw_offsets ws) a)
         else fsi_manager_addrs info = []))"

lemma page_size_ok [checked]: "valid_page_size n \<Longrightarrow> page_size_try_from n = Inr n"
  by simp

lemma strategy_code_roundtrip [simp]: "strategy_from_code (strategy_code s) = Inr s"
  by (cases s) (simp_all add: strategy_from_code_def)

lemma write_addresses_ok:
  "\<forall>a \<in> set as. storable w a \<Longrightarrow> write_addresses buf as w = Some (Inr (buf @ concat (map (address_bytes w) as)))"
  by (induction as arbitrary: buf) (simp_all add: try_write_decoded_ok)

lemma decode_addresses_ok:
  "\<forall>a \<in> set as. storable w a \<Longrightarrow> unread fs (concat (map (address_bytes w) as) @ rest) \<Longrightarrow>
     \<exists>fs'. decode_addresses dbg (length as) fs w = Some (Inr (as, fs'))"
proof (induction as arbitrary: fs)
  case (Cons a as)
  then have u: "unread fs (address_bytes w a @ concat (map (address_bytes w) as) @ rest)" by simp
  have "unread (advance fs (width_get w)) (concat (map (address_bytes w) as) @ rest)"
    by (rule unread_advance [OF u]) simp
  then show ?case
    using Cons f_decoded_address_unread [OF u, of dbg] by fastforce
qed simp

lemma length_addresses: "length (concat (map (address_bytes w) as)) = length as * width_get w"
  by (induction as) simp_all

definition fixed_bytes :: "format_widths \<Rightarrow> file_space_info \<Rightarrow> decoded_address \<Rightarrow> byte list" where
  "fixed_bytes ws info eoa = [fsi_version_1, strategy_code (fsi_strategy info), of_bool (fsi_persist info)]
     @ to_le (width_get (fw_lengths ws)) (fsi_threshold info)
     @ to_le (width_get (fw_lengths ws)) (fsi_page_size info)
     @ to_le 2 (fsi_page_end info) @ address_bytes (fw_offsets ws) eoa"

lemma length_fixed_bytes: "length (fixed_bytes ws info eoa) = fixed_len ws"
  by (simp add: fixed_bytes_def fixed_len_def)

lemma serialize_ok:
  assumes ok: "storable_info ws info" and eoa: "fsi_eoa_pre_fsm info = Some eoa"
  shows "serialize_file_space_info_v1 ws info =
    Some (Inr (fixed_bytes ws info eoa @ concat (map (address_bytes (fw_offsets ws)) (fsi_manager_addrs info))))"
proof -
  have l: "length_width_holds (fw_lengths ws) (fsi_threshold info)" "length_width_holds (fw_lengths ws) (fsi_page_size info)"
    using ok by (auto simp: storable_info_def width_holds_iff width_less_max)
  have "storable (fw_offsets ws) eoa" using ok eoa by (simp add: storable_info_def)
  moreover have "write_addresses buf (if fsi_persist info then fsi_manager_addrs info else []) (fw_offsets ws)
      = Some (Inr (buf @ concat (map (address_bytes (fw_offsets ws)) (fsi_manager_addrs info))))" for buf
    using ok by (auto simp: storable_info_def write_addresses_ok split: if_splits)
  moreover have "fsi_persist info \<longrightarrow> length (fsi_manager_addrs info) = num_file_fsm_managers"
    using ok by (auto simp: storable_info_def)
  ultimately show ?thesis
    using l by (simp add: serialize_file_space_info_v1_def eoa try_write_length_eq try_write_decoded_ok fixed_bytes_def)
qed

section \<open>Reading back\<close>

lemma fixed_bytes_fields:
  assumes "storable_info ws info" "fsi_eoa_pre_fsm info = Some eoa"
    "length (fixed_bytes ws info eoa) \<le> u64_max"
  defines "fs \<equiv> fields_new (fixed_bytes ws info eoa) 1" and "l \<equiv> width_get (fw_lengths ws)"
  shows "f_u8 fs = Inr (strategy_code (fsi_strategy info), advance fs 1)"
    "f_u8 (advance fs 1) = Inr (of_bool (fsi_persist info), advance (advance fs 1) 1)"
    "f_length dbg (advance (advance fs 1) 1) (fw_lengths ws)
       = Some (Inr (fsi_threshold info, advance (advance (advance fs 1) 1) l))"
    "f_length dbg (advance (advance (advance fs 1) 1) l) (fw_lengths ws)
       = Some (Inr (fsi_page_size info, advance (advance (advance (advance fs 1) 1) l) l))"
    "f_u16 (advance (advance (advance (advance fs 1) 1) l) l)
       = Inr (fsi_page_end info, advance (advance (advance (advance (advance fs 1) 1) l) l) 2)"
    "\<exists>fs'. f_decoded_address dbg (advance (advance (advance (advance (advance fs 1) 1) l) l) 2) (fw_offsets ws)
       = Some (Inr (eoa, fs'))"
proof -
  have u0: "unread fs (strategy_code (fsi_strategy info) # of_bool (fsi_persist info) # to_le l (fsi_threshold info)
      @ to_le l (fsi_page_size info) @ to_le 2 (fsi_page_end info) @ address_bytes (fw_offsets ws) eoa @ [])"
    using unread_new [OF assms(3), of 1] by (simp add: fs_def l_def fixed_bytes_def)
  note u1 = unread_advance_Cons [OF u0]
  note u2 = unread_advance_Cons [OF u1]
  note u3 = unread_advance [OF u2 length_to_le [symmetric]]
  note u4 = unread_advance [OF u3 length_to_le [symmetric]]
  have u5: "unread (advance (advance (advance (advance (advance fs 1) 1) l) l) 2) (address_bytes (fw_offsets ws) eoa @ [])"
    by (rule unread_advance [OF u4]) simp
  have b: "fsi_threshold info < 256 ^ l" "fsi_page_size info < 256 ^ l" "fsi_page_end info < 65536"
    "storable (fw_offsets ws) eoa"
    using assms(1,2) by (auto simp: storable_info_def l_def)
  show "f_u8 fs = Inr (strategy_code (fsi_strategy info), advance fs 1)" by (rule f_u8_unread [OF u0])
  show "f_u8 (advance fs 1) = Inr (of_bool (fsi_persist info), advance (advance fs 1) 1)"
    by (rule f_u8_unread [OF u1])
  show "f_length dbg (advance (advance fs 1) 1) (fw_lengths ws)
       = Some (Inr (fsi_threshold info, advance (advance (advance fs 1) 1) l))"
    using f_length_unread [OF u2 [unfolded l_def]] b(1) by (simp add: l_def)
  show "f_length dbg (advance (advance (advance fs 1) 1) l) (fw_lengths ws)
       = Some (Inr (fsi_page_size info, advance (advance (advance (advance fs 1) 1) l) l))"
    using f_length_unread [OF u3 [unfolded l_def]] b(2) by (simp add: l_def)
  show "f_u16 (advance (advance (advance (advance fs 1) 1) l) l)
       = Inr (fsi_page_end info, advance (advance (advance (advance (advance fs 1) 1) l) l) 2)"
    by (rule f_u16_unread [OF u4 b(3)])
  show "\<exists>fs'. f_decoded_address dbg (advance (advance (advance (advance (advance fs 1) 1) l) l) 2) (fw_offsets ws)
       = Some (Inr (eoa, fs'))"
    using f_decoded_address_unread [OF u5 b(4), of dbg] by blast
qed

lemma fsi_parse_serialized:
  assumes ok: "storable_info ws info" and eoa: "fsi_eoa_pre_fsm info = Some eoa"
    and len: "length (fixed_bytes ws info eoa @ concat (map (address_bytes (fw_offsets ws)) (fsi_manager_addrs info)) @ extra) \<le> u64_max"
  shows "parse_file_space_info dbg ws
    (fixed_bytes ws info eoa @ concat (map (address_bytes (fw_offsets ws)) (fsi_manager_addrs info)) @ extra)
    = Some (Inr info)"
proof -
  let ?m = "concat (map (address_bytes (fw_offsets ws)) (fsi_manager_addrs info)) @ extra"
  let ?d = "fixed_bytes ws info eoa @ ?m"
  have l: "length (fixed_bytes ws info eoa) \<le> u64_max" "length ?m \<le> u64_max" using len by auto
  note f = fixed_bytes_fields [OF ok eoa l(1)]
  obtain fs' where fs': "f_decoded_address dbg (advance (advance (advance (advance (advance
      (fields_new (fixed_bytes ws info eoa) 1) 1) 1) (width_get (fw_lengths ws))) (width_get (fw_lengths ws))) 2) (fw_offsets ws)
       = Some (Inr (eoa, fs'))"
    using f(6) [of dbg] by blast
  have page: "valid_page_size (fsi_page_size info)" using ok by (simp add: storable_info_def)
  have split: "take (fixed_len ws) ?d = fixed_bytes ws info eoa" "drop (fixed_len ws) ?d = ?m" "fixed_len ws \<le> length ?d"
    using length_fixed_bytes [of ws info eoa] by auto
  have "unread (fields_new ?d 0) (fsi_version_1 # drop 1 ?d)"
    using unread_new [OF len, of 0] by (simp add: fixed_bytes_def)
  from f_u8_unread [OF this]
  have "parse_file_space_info dbg ws ?d = fsi_parse_version_1 dbg ws ?d"
    by (simp add: parse_file_space_info_def)
  also have "\<dots> = Some (Inr info)"
  proof (cases "fsi_persist info")
    case True
    then have mgrs: "\<forall>a \<in> set (fsi_manager_addrs info). storable (fw_offsets ws) a"
      "length (fsi_manager_addrs info) = num_file_fsm_managers"
      using ok by (auto simp: storable_info_def)
    have "unread (fields_new ?m 0) ?m" using unread_new [OF l(2), of 0] by simp
    from decode_addresses_ok [OF mgrs(1) this, of dbg] obtain ms where
      "decode_addresses dbg num_file_fsm_managers (fields_new ?m 0) (fw_offsets ws) = Some (Inr (fsi_manager_addrs info, ms))"
      by (auto simp: mgrs(2))
    moreover have "ensure_len ?m 0 (num_file_fsm_managers * width_get (fw_offsets ws)) = Inr ()"
      using l(2) by (simp add: ensure_len_eq length_addresses mgrs(2))
    ultimately show ?thesis
      using True split f(1-5) fs' page eoa by (simp add: fsi_parse_version_1_def Let_def page_size_ok)
  next
    case False
    then have "fsi_manager_addrs info = []" using ok by (simp add: storable_info_def)
    then show ?thesis
      using False split f(1-5) fs' page eoa by (simp add: fsi_parse_version_1_def Let_def page_size_ok)
  qed
  finally show ?thesis by simp
qed

section \<open>Arbitrary input\<close>

text \<open>What the parsers return, from any bytes.\<close>

definition parsed_info :: "format_widths \<Rightarrow> file_space_info \<Rightarrow> bool" where
  "parsed_info ws info =
     (fsi_threshold info < 256 ^ width_get (fw_lengths ws)
      \<and> valid_page_size (fsi_page_size info) \<and> fsi_page_size info < 256 ^ width_get (fw_lengths ws)
      \<and> fsi_page_end info < 65536
      \<and> (\<forall>a. fsi_eoa_pre_fsm info = Some a \<longrightarrow> storable (fw_offsets ws) a)
      \<and> (\<forall>a \<in> set (fsi_manager_addrs info). storable (fw_offsets ws) a)
      \<and> length (fsi_manager_addrs info) =
          (if fsi_persist info then if fsi_eoa_pre_fsm info = None then version_0_managers else num_file_fsm_managers
           else 0)
      \<and> (fsi_eoa_pre_fsm info \<noteq> None \<longrightarrow> storable_info ws info))"

lemma returns_addresses:
  "fits fs \<Longrightarrow> returns (\<lambda>(as, fs'). length as = n \<and> (\<forall>a \<in> set as. storable w a) \<and> fits fs') (decode_addresses dbg n fs w)"
proof (induction n arbitrary: fs)
  case (Suc n)
  show ?case
    unfolding decode_addresses.simps
    by (rule returns_bind [OF returns_decoded_address [OF Suc.prems]], clarsimp,
        rule returns_bind [OF Suc.IH], assumption) auto
qed simp

lemma default_fits: "Suc 0 < (256 :: nat) ^ width_get w" "page_size_default < 256 ^ width_get w"
  by (cases w; simp)+

lemma returns_version_0:
  assumes "length data \<le> u64_max"
  shows "returns (parsed_info ws) (fsi_parse_version_0 dbg ws data)"
  unfolding fsi_parse_version_0_def Let_def
proof (rule returns_bind [OF returns_ensure_len], rule returns_bind2 [OF returns_u8],
    simp add: assms, rule returns_bind2 [OF returns_length], assumption, intro returns_if)
  fix code :: byte and fs fs' :: fields and threshold :: u64
  assume t: "threshold < 256 ^ width_get (fw_lengths ws) \<and> fits fs'"
  let ?as = "\<lambda>as. fsi_defaults\<lparr>fsi_persist := True, fsi_threshold := threshold, fsi_manager_addrs := as\<rparr>"
  show "returns (parsed_info ws)
     (try_bind (Some (ensure_len data (2 + width_get (fw_lengths ws)) (version_0_managers * width_get (fw_offsets ws))))
       (\<lambda>_. try_bind (decode_addresses dbg version_0_managers fs' (fw_offsets ws)) (\<lambda>(addrs, _). Some (Inr (?as addrs)))))"
    by (rule returns_bind [OF returns_ensure_len], rule returns_bind2 [OF returns_addresses])
      (use t in \<open>auto simp: parsed_info_def fsi_defaults_def valid_page_size_def default_fits\<close>)
qed (auto simp: parsed_info_def fsi_defaults_def valid_page_size_def default_fits)

lemma returns_page_size: "returns (\<lambda>p. p = sz \<and> valid_page_size p) (Some (page_size_try_from sz))"
  by (auto simp: returns_def)

lemma returns_managers:
  "length data \<le> u64_max \<Longrightarrow>
   returns (\<lambda>as. length as = (if persist then num_file_fsm_managers else 0) \<and> (\<forall>a \<in> set as. storable (fw_offsets ws) a))
    (if persist
     then try_bind (Some (ensure_len data 0 (num_file_fsm_managers * width_get (fw_offsets ws)))) (\<lambda>_.
          try_bind (decode_addresses dbg num_file_fsm_managers (fields_new data 0) (fw_offsets ws))
            (\<lambda>(addrs, _). Some (Inr addrs)))
     else Some (Inr []))"
  by (rule returns_if, rule returns_bind [OF returns_ensure_len], rule returns_bind2 [OF returns_addresses]) auto

lemma returns_version_1:
  assumes "length data \<le> u64_max"
  shows "returns (parsed_info ws) (fsi_parse_version_1 dbg ws data)"
  unfolding fsi_parse_version_1_def Let_def
  apply (rule returns_if, simp)
  apply (rule returns_bind2 [OF returns_u8], use assms in simp)
  apply (rule returns_bind [OF returns_any])
  apply (rule returns_bind2 [OF returns_u8], assumption)
  apply (rule returns_bind2 [OF returns_length], assumption)
  apply (rule returns_bind2 [OF returns_length], blast)
  apply (rule returns_bind [OF returns_page_size])
  apply (rule returns_bind2 [OF returns_u16], blast)
  apply (rule returns_bind2 [OF returns_decoded_address], blast)
  apply (rule returns_bind [OF returns_managers], use assms in simp)
  apply (auto simp: parsed_info_def storable_info_def split: if_splits)
  done

lemma returns_file_space_info:
  "length data \<le> u64_max \<Longrightarrow> returns (parsed_info ws) (parse_file_space_info dbg ws data)"
  unfolding parse_file_space_info_def
  by (rule returns_bind2 [OF returns_u8], simp, intro returns_if returns_version_0 returns_version_1) simp_all

lemma normalized_storable:
  assumes "parsed_info ws info" "eoa < undefined_address (fw_offsets ws)"
  shows "storable_info ws (normalize_file_space_info_to_v1 info eoa)"
  using assms
  by (auto simp: parsed_info_def storable_info_def normalize_file_space_info_to_v1_def Let_def resize_def
      split: if_splits)

end
