(* ===== verification/Group_Messages.thy ===== *)
theory Group_Messages
  imports Bytes
begin

text \<open>
  The messages that describe the storage of links and attributes: Link Info
  (\<^verbatim>\<open>hdf5-pure-format/src/link_info.rs\<close>), Attribute Info (\<^verbatim>\<open>attribute_info.rs\<close>) and Group Info
  (\<^verbatim>\<open>group_info.rs\<close>), each with its parser and its writer.

  The lemmas show that no input makes a parser panic and that each parser inverts its writer.
\<close>

section \<open>Link Info\<close>

record link_info_message =
  li_max_creation_order :: "u64 option"
  li_fractal_heap_address :: "stored_address option"
  li_btree_name_index_address :: "stored_address option"
  li_btree_creation_order_address :: "stored_address option option"

abbreviation link_info_version :: byte where "link_info_version \<equiv> 0"

abbreviation tracks_creation_order :: byte where "tracks_creation_order \<equiv> 1"

abbreviation indexes_creation_order :: byte where "indexes_creation_order \<equiv> 2"

definition li_parse_with_offset_width ::
  "bool \<Rightarrow> byte list \<Rightarrow> field_width \<Rightarrow> (format_error + link_info_message) option" where
  "li_parse_with_offset_width dbg data w =
     try_bind (Some (ensure_len data 0 2)) (\<lambda>_. do {
       version \<leftarrow> get_at data 0;
       if version \<noteq> link_info_version then Some (Inl (InvalidLinkInfoVersion (unat version)))
       else do {
         flags \<leftarrow> get_at data 1;
         let has_max_creation_order = flags AND tracks_creation_order \<noteq> 0;
             has_creation_order_index = flags AND indexes_creation_order \<noteq> 0;
             pos = 2
         in try_bind
              (if has_max_creation_order
               then try_bind (Some (ensure_len data pos 8)) (\<lambda>_. do {
                 bs \<leftarrow> index_bytes data pos 8;
                 Some (Inr (Some (from_le bs), pos + 8)) })
               else Some (Inr (None, pos))) (\<lambda>(max_creation_order, pos).
            try_bind (read_optional_offset_width dbg data pos w) (\<lambda>heap.
            let pos = pos + width_get w in
            try_bind (read_optional_offset_width dbg data pos w) (\<lambda>name.
            let pos = pos + width_get w in
            try_bind
              (if has_creation_order_index
               then try_bind (read_optional_offset_width dbg data pos w) (\<lambda>a. Some (Inr (Some a)))
               else Some (Inr None)) (\<lambda>order.
            Some (Inr \<lparr>li_max_creation_order = max_creation_order, li_fractal_heap_address = heap,
              li_btree_name_index_address = name, li_btree_creation_order_address = order\<rparr>))))) } })"

definition li_parse :: "bool \<Rightarrow> byte list \<Rightarrow> nat \<Rightarrow> (format_error + link_info_message) option" where
  "li_parse dbg data offset_size =
     try_bind (Some (offset_width_try_from offset_size)) (\<lambda>w. li_parse_with_offset_width dbg data w)"

definition decoded_of :: "stored_address option \<Rightarrow> decoded_address" where
  "decoded_of address = (case address of None \<Rightarrow> Undefined | Some a \<Rightarrow> Defined a)"

definition li_serialize ::
  "link_info_message \<Rightarrow> field_width \<Rightarrow> (format_error + byte list) option" where
  "li_serialize self w =
     (let data = [link_info_version];
          flags = 0;
          flags = (if li_max_creation_order self \<noteq> None then flags OR tracks_creation_order else flags);
          flags = (if li_btree_creation_order_address self \<noteq> None then flags OR indexes_creation_order else flags);
          data = data @ [flags];
          data = (case li_max_creation_order self of None \<Rightarrow> data | Some m \<Rightarrow> data @ to_le 8 m)
      in try_bind (try_write_decoded_address data (decoded_of (li_fractal_heap_address self)) w) (\<lambda>data.
         try_bind (try_write_decoded_address data (decoded_of (li_btree_name_index_address self)) w) (\<lambda>data.
         case li_btree_creation_order_address self of
           None \<Rightarrow> Some (Inr data)
         | Some a \<Rightarrow> try_write_decoded_address data (decoded_of a) w)))"

section \<open>Attribute Info\<close>

record attribute_info_message =
  ai_max_creation_index :: "nat option"
  ai_indexes_creation_order :: bool
  ai_fractal_heap_address :: "stored_address option"
  ai_btree_name_index_address :: "stored_address option"
  ai_btree_creation_order_address :: "stored_address option"

definition ai_parse_with_offset_width ::
  "bool \<Rightarrow> byte list \<Rightarrow> field_width \<Rightarrow> (format_error + attribute_info_message) option" where
  "ai_parse_with_offset_width dbg data w =
     try_bind (Some (ensure_len data 0 2)) (\<lambda>_. do {
       version \<leftarrow> get_at data 0;
       if version \<noteq> 0 then Some (Inl (InvalidAttributeInfoVersion (unat version)))
       else do {
         flags \<leftarrow> get_at data 1;
         let has_max_creation_index = flags AND 1 \<noteq> 0;
             has_creation_order_index = flags AND 2 \<noteq> 0;
             pos = 2
         in try_bind
              (if has_max_creation_index
               then try_bind (Some (ensure_len data pos 2)) (\<lambda>_. do {
                 bs \<leftarrow> index_bytes data pos 2;
                 Some (Inr (Some (from_le bs), pos + 2)) })
               else Some (Inr (None, pos))) (\<lambda>(max_creation_index, pos).
            try_bind (read_optional_offset_width dbg data pos w) (\<lambda>heap.
            let pos = pos + width_get w in
            try_bind (read_optional_offset_width dbg data pos w) (\<lambda>name.
            let pos = pos + width_get w in
            try_bind
              (if has_creation_order_index then read_optional_offset_width dbg data pos w
               else Some (Inr None)) (\<lambda>order.
            Some (Inr \<lparr>ai_max_creation_index = max_creation_index,
              ai_indexes_creation_order = has_creation_order_index, ai_fractal_heap_address = heap,
              ai_btree_name_index_address = name, ai_btree_creation_order_address = order\<rparr>))))) } })"

definition ai_parse :: "bool \<Rightarrow> byte list \<Rightarrow> nat \<Rightarrow> (format_error + attribute_info_message) option" where
  "ai_parse dbg data offset_size =
     try_bind (Some (offset_width_try_from offset_size)) (\<lambda>w. ai_parse_with_offset_width dbg data w)"

definition write_optional_offset ::
  "byte list \<Rightarrow> stored_address option \<Rightarrow> field_width \<Rightarrow> (format_error + byte list) option" where
  "write_optional_offset data address w = try_write_decoded_address data (decoded_of address) w"

definition ai_serialize ::
  "attribute_info_message \<Rightarrow> field_width \<Rightarrow> (format_error + byte list) option" where
  "ai_serialize self w =
     (let flags = of_bool (ai_max_creation_index self \<noteq> None)
            OR push_bit 1 (of_bool (ai_indexes_creation_order self));
          data = [0] @ [flags];
          data = (case ai_max_creation_index self of None \<Rightarrow> data | Some m \<Rightarrow> data @ to_le 2 m)
      in try_bind (write_optional_offset data (ai_fractal_heap_address self) w) (\<lambda>data.
         try_bind (write_optional_offset data (ai_btree_name_index_address self) w) (\<lambda>data.
         if ai_indexes_creation_order self
         then write_optional_offset data (ai_btree_creation_order_address self) w
         else Some (Inr data))))"

section \<open>Group Info\<close>

datatype group_info_error =
    GroupFlags nat
  | GroupLength nat nat
  | GroupThresholds nat nat
  | GroupTrailingBytes
  | GroupVersion nat

record group_phase_change =
  gp_max_compact :: nat
  gp_min_dense :: nat

record group_estimates =
  ge_entries :: nat
  ge_name_length :: nat

record group_info =
  gi_phase_change :: group_phase_change
  gi_estimates :: "group_estimates option"

abbreviation stores_phase_change :: byte where "stores_phase_change \<equiv> 1"

abbreviation stores_estimates :: byte where "stores_estimates \<equiv> 2"

abbreviation default_max_compact :: nat where "default_max_compact \<equiv> 8"

abbreviation default_min_dense :: nat where "default_min_dense \<equiv> 6"

definition phase_change_new :: "nat \<Rightarrow> nat \<Rightarrow> group_info_error + group_phase_change" where
  "phase_change_new max_compact min_dense =
     (if max_compact < min_dense then Inl (GroupThresholds max_compact min_dense)
      else Inr \<lparr>gp_max_compact = max_compact, gp_min_dense = min_dense\<rparr>)"

record declared_length =
  dl_flags :: byte
  dl_expected :: nat
  dl_actual :: nat

definition declared_length_read :: "byte list \<Rightarrow> group_info_error + declared_length" where
  "declared_length_read bytes =
     (if 65535 < length bytes then Inl GroupTrailingBytes
      else case bytes of
        version # flags # _ \<Rightarrow>
          if version \<noteq> 0 then Inl (GroupVersion (unat version))
          else if flags AND NOT (stores_phase_change OR stores_estimates) \<noteq> 0 then Inl (GroupFlags (unat flags))
          else Inr \<lparr>dl_flags = flags,
            dl_expected = 2 + 4 * (of_bool (flags AND stores_phase_change \<noteq> 0)
              + of_bool (flags AND stores_estimates \<noteq> 0)),
            dl_actual = length bytes\<rparr>
      | _ \<Rightarrow> Inl (GroupLength 2 (length bytes)))"

definition phase_change_parse :: "byte list \<Rightarrow> group_info_error + group_phase_change" where
  "phase_change_parse bytes =
     (case declared_length_read bytes of
        Inl e \<Rightarrow> Inl e
      | Inr d \<Rightarrow>
          if dl_actual d \<noteq> dl_expected d then Inl (GroupLength (dl_expected d) (dl_actual d))
          else if dl_flags d AND stores_phase_change \<noteq> 0
          then (case bytes of
                  _ # _ # a # b # c # e # _ \<Rightarrow> phase_change_new (from_le [a, b]) (from_le [c, e])
                | _ \<Rightarrow> Inl (GroupLength (dl_expected d) (dl_actual d)))
          else phase_change_new default_max_compact default_min_dense)"

definition encoded_len :: "byte list \<Rightarrow> group_info_error + nat" where
  "encoded_len bytes =
     (case declared_length_read bytes of
        Inl e \<Rightarrow> Inl e
      | Inr d \<Rightarrow>
          if dl_actual d < dl_expected d then Inl (GroupLength (dl_expected d) (dl_actual d))
          else Inr (dl_expected d))"

text \<open>The last four bytes, as the pattern \<^verbatim>\<open>[.., a, b, c, d]\<close> binds them.\<close>

definition group_info_parse :: "byte list \<Rightarrow> group_info_error + group_info" where
  "group_info_parse bytes =
     (case phase_change_parse bytes of
        Inl e \<Rightarrow> Inl e
      | Inr phase_change \<Rightarrow>
          if (case get_at bytes 1 of None \<Rightarrow> False | Some flags \<Rightarrow> flags AND stores_estimates \<noteq> 0)
          then if length bytes < 4
            then Inl (if 65535 < length bytes then GroupTrailingBytes else GroupLength (2 + 4) (length bytes))
            else
              let last4 = drop (length bytes - 4) bytes
              in Inr \<lparr>gi_phase_change = phase_change,
                   gi_estimates = Some \<lparr>ge_entries = from_le (take 2 last4),
                     ge_name_length = from_le (drop 2 last4)\<rparr>\<rparr>
          else Inr \<lparr>gi_phase_change = phase_change, gi_estimates = None\<rparr>)"

definition group_info_new :: "group_phase_change \<Rightarrow> group_info" where
  "group_info_new phase_change = \<lparr>gi_phase_change = phase_change, gi_estimates = None\<rparr>"

definition with_estimates :: "group_info \<Rightarrow> group_estimates option \<Rightarrow> group_info" where
  "with_estimates self estimates = self\<lparr>gi_estimates := estimates\<rparr>"

definition group_info_serialize :: "group_info \<Rightarrow> byte list" where
  "group_info_serialize self =
     (let phase_change = gi_phase_change self;
          stores = (gp_max_compact phase_change \<noteq> default_max_compact
                    \<or> gp_min_dense phase_change \<noteq> default_min_dense);
          flags = (if stores then stores_phase_change else 0)
            OR (if gi_estimates self \<noteq> None then stores_estimates else 0);
          bytes = [0, flags];
          bytes = (if stores
            then bytes @ to_le 2 (gp_max_compact phase_change) @ to_le 2 (gp_min_dense phase_change)
            else bytes)
      in case gi_estimates self of
           None \<Rightarrow> bytes
         | Some est \<Rightarrow> bytes @ to_le 2 (ge_entries est) @ to_le 2 (ge_name_length est))"

section \<open>Lemmas on optional addresses\<close>

lemma storable_decoded_of: "storable w (decoded_of a) \<longleftrightarrow> (\<forall>x. a = Some x \<longrightarrow> x < undefined_address w)"
  by (cases a) (simp_all add: decoded_of_def)

lemma read_optional_at:
  assumes "drop pos data = address_bytes w (decoded_of a) @ rest" "length data \<le> u64_max" "storable w (decoded_of a)"
  shows "read_optional_offset_width dbg data pos w = Some (Inr a)"
proof -
  have "length (drop pos data) = width_get w + length rest" by (simp only: assms(1)) simp
  then have le: "pos + width_get w \<le> length data" using width_get_pos [of w] by (simp; linarith)
  have "from_le (take (width_get w) (drop pos data)) = address_value w (decoded_of a)"
    using address_value_less [OF assms(3)] by (simp add: assms(1) from_le_to_le)
  moreover have "is_undefined (address_value w (decoded_of a)) w \<longleftrightarrow> a = None"
    using address_value_undefined [OF assms(3)] by (cases a) (simp_all add: decoded_of_def)
  ultimately show ?thesis
    using le by (cases a) (auto simp: read_optional_offset_width_def read_offset_width_eq [OF assms(2)] decoded_of_def)
qed

lemma drop_step: "drop pos data = as @ bs \<Longrightarrow> drop (pos + length as) data = bs"
  by (metis add.commute append_eq_conv_conj drop_drop)

lemma get_at_Cons [simp]: "get_at (x # xs) 0 = Some x" "get_at (x # y # xs) (Suc 0) = Some y"
  by (simp_all add: get_at_def)

text \<open>The three address fields after the fixed part, of which the last is optional.\<close>

lemma read_addresses_at:
  assumes d: "drop pos data = address_bytes w (decoded_of h) @ address_bytes w (decoded_of n) @ rest"
    and len: "length data \<le> u64_max" and s: "storable w (decoded_of h)" "storable w (decoded_of n)"
  shows "read_optional_offset_width dbg data pos w = Some (Inr h)"
    "read_optional_offset_width dbg data (pos + width_get w) w = Some (Inr n)"
    "rest = address_bytes w (decoded_of a) @ rest' \<Longrightarrow> storable w (decoded_of a) \<Longrightarrow>
      read_optional_offset_width dbg data (pos + width_get w + width_get w) w = Some (Inr a)"
proof -
  have d1: "drop (pos + width_get w) data = address_bytes w (decoded_of n) @ rest"
    using drop_step [OF d] by simp
  have d2: "drop (pos + width_get w + width_get w) data = rest"
    using drop_step [OF d1] by simp
  show "read_optional_offset_width dbg data pos w = Some (Inr h)" by (rule read_optional_at [OF d len s(1)])
  show "read_optional_offset_width dbg data (pos + width_get w) w = Some (Inr n)"
    by (rule read_optional_at [OF d1 len s(2)])
  show "read_optional_offset_width dbg data (pos + width_get w + width_get w) w = Some (Inr a)"
    if "rest = address_bytes w (decoded_of a) @ rest'" "storable w (decoded_of a)"
    using read_optional_at [OF d2 [unfolded that(1)] len that(2)] by simp
qed

section \<open>Link Info lemmas\<close>

definition storable_link_info :: "field_width \<Rightarrow> link_info_message \<Rightarrow> bool" where
  "storable_link_info w m =
     ((\<forall>v. li_max_creation_order m = Some v \<longrightarrow> v \<le> u64_max)
      \<and> storable w (decoded_of (li_fractal_heap_address m))
      \<and> storable w (decoded_of (li_btree_name_index_address m))
      \<and> (\<forall>a. li_btree_creation_order_address m = Some a \<longrightarrow> storable w (decoded_of a)))"

definition link_info_bytes :: "field_width \<Rightarrow> link_info_message \<Rightarrow> byte list" where
  "link_info_bytes w m =
     [0, of_bool (li_max_creation_order m \<noteq> None) + 2 * of_bool (li_btree_creation_order_address m \<noteq> None)]
     @ (case li_max_creation_order m of None \<Rightarrow> [] | Some v \<Rightarrow> to_le 8 v)
     @ address_bytes w (decoded_of (li_fractal_heap_address m))
     @ address_bytes w (decoded_of (li_btree_name_index_address m))
     @ (case li_btree_creation_order_address m of None \<Rightarrow> [] | Some a \<Rightarrow> address_bytes w (decoded_of a))"

lemma li_serialize_ok: "storable_link_info w m \<Longrightarrow> li_serialize m w = Some (Inr (link_info_bytes w m))"
  by (cases "li_max_creation_order m"; cases "li_btree_creation_order_address m")
    (simp_all add: li_serialize_def link_info_bytes_def storable_link_info_def try_write_decoded_ok)

lemma u64_le_bound: "v \<le> u64_max \<Longrightarrow> v < 256 ^ 8"
  by (simp add: u64_max_def)

lemma li_parse_ok:
  assumes ok: "storable_link_info w m" and len: "length (link_info_bytes w m) \<le> u64_max"
  shows "li_parse_with_offset_width dbg (link_info_bytes w m) w = Some (Inr m)"
proof -
  let ?d = "link_info_bytes w m"
  define mx where "mx = (case li_max_creation_order m of None \<Rightarrow> [] | Some v \<Rightarrow> to_le 8 v)"
  define ord where "ord = (case li_btree_creation_order_address m of None \<Rightarrow> [] | Some a \<Rightarrow> address_bytes w (decoded_of a))"
  have d: "drop (2 + length mx) ?d = address_bytes w (decoded_of (li_fractal_heap_address m))
      @ address_bytes w (decoded_of (li_btree_name_index_address m)) @ ord"
    by (simp add: link_info_bytes_def mx_def ord_def split: option.splits)
  have s: "storable w (decoded_of (li_fractal_heap_address m))" "storable w (decoded_of (li_btree_name_index_address m))"
    "\<And>a. li_btree_creation_order_address m = Some a \<Longrightarrow> storable w (decoded_of a)"
    using ok by (auto simp: storable_link_info_def)
  note r = read_addresses_at [OF d len s(1,2), where dbg = dbg]
  have r3: "read_optional_offset_width dbg ?d (2 + length mx + width_get w + width_get w) w = Some (Inr a)"
    if "li_btree_creation_order_address m = Some a" for a
    by (rule r(3) [where rest' = "[]"]) (simp_all add: ord_def that s(3))
  have mx: "index_bytes ?d 2 8 = Some (to_le 8 v)" "10 \<le> length ?d" "v mod 256 ^ 8 = v"
    if "li_max_creation_order m = Some v" for v
    using that ok u64_le_bound [of v]
    by (simp_all add: link_info_bytes_def index_bytes_eq storable_link_info_def)
  have hd: "get_at ?d 0 = Some 0"
    "get_at ?d 1 = Some (of_bool (li_max_creation_order m \<noteq> None) + 2 * of_bool (li_btree_creation_order_address m \<noteq> None))"
    "2 \<le> length ?d"
    by (simp_all add: link_info_bytes_def get_at_def)
  show ?thesis
    using r(1,2) r3 mx hd ensure_len_eq [OF len]
    by (cases "li_max_creation_order m"; cases "li_btree_creation_order_address m")
      (simp_all add: li_parse_with_offset_width_def mx_def from_le_to_le)
qed

lemma returns_bind_Some: "x = Some y \<Longrightarrow> returns Q (f y) \<Longrightarrow> returns Q (Option.bind x f)"
  by simp

lemma from_le_take_u64: "pos + 8 \<le> length data \<Longrightarrow> from_le (take 8 (drop pos data)) \<le> u64_max"
proof -
  assume "pos + 8 \<le> length data"
  then have "from_le (take 8 (drop pos data)) < 256 ^ 8" by (intro from_le_take_less) simp
  then show ?thesis by (simp add: u64_max_def)
qed

lemma returns_link_info:
  assumes "length data \<le> u64_max"
  shows "returns (storable_link_info w) (li_parse_with_offset_width dbg data w)"
proof (cases "2 \<le> length data")
  case True
  then obtain version flags rest where d: "data = version # flags # rest"
    by (cases data rule: list.exhaust; cases "tl data") auto
  have max: "returns (\<lambda>(m, pos). \<forall>v. m = Some v \<longrightarrow> v \<le> u64_max)
      (if c then try_bind (Some (ensure_len data 2 8)) (\<lambda>_. do { bs \<leftarrow> index_bytes data 2 8; Some (Inr (Some (from_le bs), 2 + 8)) })
       else Some (Inr (None, 2)))" for c
    by (auto simp: ensure_len_eq [OF assms] index_bytes_eq from_le_take_u64)
  have ord: "returns (\<lambda>ord. \<forall>a. ord = Some a \<longrightarrow> storable w (decoded_of a))
      (if c then try_bind (read_optional_offset_width dbg data pos w) (\<lambda>a. Some (Inr (Some a))) else Some (Inr None))" for c pos
    by (rule returns_if, rule returns_bind [OF returns_optional_offset [OF assms]]) (simp_all add: storable_decoded_of)
  show ?thesis
    unfolding li_parse_with_offset_width_def Let_def
    apply (rule returns_bind [OF returns_ensure_len])
    apply (rule returns_bind_Some [of _ version], simp add: d)
    apply (rule returns_if, simp)
    apply (rule returns_bind_Some [of _ flags], simp add: d)
    apply (rule returns_bind2 [OF max])
    apply (rule returns_bind [OF returns_optional_offset [OF assms]])+
    apply (rule returns_bind [OF ord])
    apply (simp add: storable_link_info_def storable_decoded_of)
    done
qed (simp add: li_parse_with_offset_width_def ensure_len_eq [OF assms])

section \<open>Attribute Info lemmas\<close>

definition storable_attribute_info :: "field_width \<Rightarrow> attribute_info_message \<Rightarrow> bool" where
  "storable_attribute_info w m =
     ((\<forall>v. ai_max_creation_index m = Some v \<longrightarrow> v < 65536)
      \<and> storable w (decoded_of (ai_fractal_heap_address m))
      \<and> storable w (decoded_of (ai_btree_name_index_address m))
      \<and> storable w (decoded_of (ai_btree_creation_order_address m))
      \<and> (\<not> ai_indexes_creation_order m \<longrightarrow> ai_btree_creation_order_address m = None))"

definition attribute_info_bytes :: "field_width \<Rightarrow> attribute_info_message \<Rightarrow> byte list" where
  "attribute_info_bytes w m =
     [0, of_bool (ai_max_creation_index m \<noteq> None) + 2 * of_bool (ai_indexes_creation_order m)]
     @ (case ai_max_creation_index m of None \<Rightarrow> [] | Some v \<Rightarrow> to_le 2 v)
     @ address_bytes w (decoded_of (ai_fractal_heap_address m))
     @ address_bytes w (decoded_of (ai_btree_name_index_address m))
     @ (if ai_indexes_creation_order m then address_bytes w (decoded_of (ai_btree_creation_order_address m)) else [])"

lemma ai_serialize_ok: "storable_attribute_info w m \<Longrightarrow> ai_serialize m w = Some (Inr (attribute_info_bytes w m))"
  by (cases "ai_max_creation_index m"; cases "ai_indexes_creation_order m")
    (simp_all add: ai_serialize_def attribute_info_bytes_def storable_attribute_info_def write_optional_offset_def
      try_write_decoded_ok)

lemma ai_parse_ok:
  assumes ok: "storable_attribute_info w m" and len: "length (attribute_info_bytes w m) \<le> u64_max"
  shows "ai_parse_with_offset_width dbg (attribute_info_bytes w m) w = Some (Inr m)"
proof -
  let ?d = "attribute_info_bytes w m"
  define mx where "mx = (case ai_max_creation_index m of None \<Rightarrow> [] | Some v \<Rightarrow> to_le 2 v)"
  define ord where "ord = (if ai_indexes_creation_order m then address_bytes w (decoded_of (ai_btree_creation_order_address m)) else [])"
  have d: "drop (2 + length mx) ?d = address_bytes w (decoded_of (ai_fractal_heap_address m))
      @ address_bytes w (decoded_of (ai_btree_name_index_address m)) @ ord"
    by (simp add: attribute_info_bytes_def mx_def ord_def split: option.splits)
  have s: "storable w (decoded_of (ai_fractal_heap_address m))" "storable w (decoded_of (ai_btree_name_index_address m))"
    "storable w (decoded_of (ai_btree_creation_order_address m))"
    using ok by (auto simp: storable_attribute_info_def)
  note r = read_addresses_at [OF d len s(1,2), where dbg = dbg]
  have r3: "read_optional_offset_width dbg ?d (2 + length mx + width_get w + width_get w) w = Some (Inr (ai_btree_creation_order_address m))"
    if "ai_indexes_creation_order m"
    by (rule r(3) [where rest' = "[]"]) (simp_all add: ord_def that s(3))
  have mx: "index_bytes ?d 2 2 = Some (to_le 2 v)" "4 \<le> length ?d" "v mod 65536 = v"
    if "ai_max_creation_index m = Some v" for v
    using that ok by (simp_all add: attribute_info_bytes_def index_bytes_eq storable_attribute_info_def)
  have none: "ai_btree_creation_order_address m = None" if "\<not> ai_indexes_creation_order m"
    using ok that by (simp add: storable_attribute_info_def)
  have hd: "get_at ?d 0 = Some 0"
    "get_at ?d 1 = Some (of_bool (ai_max_creation_index m \<noteq> None) + 2 * of_bool (ai_indexes_creation_order m))"
    "2 \<le> length ?d"
    by (simp_all add: attribute_info_bytes_def get_at_def)
  show ?thesis
    using r(1,2) r3 mx hd none ensure_len_eq [OF len]
    by (cases "ai_max_creation_index m"; cases "ai_indexes_creation_order m")
      (simp_all add: ai_parse_with_offset_width_def mx_def from_le_to_le)
qed

lemma returns_attribute_info:
  assumes "length data \<le> u64_max"
  shows "returns (storable_attribute_info w) (ai_parse_with_offset_width dbg data w)"
proof (cases "2 \<le> length data")
  case True
  then obtain version flags rest where d: "data = version # flags # rest"
    by (cases data rule: list.exhaust; cases "tl data") auto
  have max: "returns (\<lambda>(m, pos). \<forall>v. m = Some v \<longrightarrow> v < 65536)
      (if c then try_bind (Some (ensure_len data 2 2)) (\<lambda>_. do { bs \<leftarrow> index_bytes data 2 2; Some (Inr (Some (from_le bs), 2 + 2)) })
       else Some (Inr (None, 2)))" for c
    using from_le_take_less [of 2 "drop 2 data"]
    by (auto simp: ensure_len_eq [OF assms] index_bytes_eq)
  have ord: "returns (\<lambda>a. (\<forall>x. a = Some x \<longrightarrow> storable w (Defined x)) \<and> (\<not> c \<longrightarrow> a = None))
      (if c then read_optional_offset_width dbg data pos w else Some (Inr None))" for c pos
    using returns_optional_offset [OF assms, of w dbg pos] by simp
  show ?thesis
    unfolding ai_parse_with_offset_width_def Let_def
    apply (rule returns_bind [OF returns_ensure_len])
    apply (rule returns_bind_Some [of _ version], simp add: d)
    apply (rule returns_if, simp)
    apply (rule returns_bind_Some [of _ flags], simp add: d)
    apply (rule returns_bind2 [OF max])
    apply (rule returns_bind [OF returns_optional_offset [OF assms]])+
    apply (rule returns_bind [OF ord])
    apply (simp add: storable_attribute_info_def storable_decoded_of)
    done
qed (simp add: ai_parse_with_offset_width_def ensure_len_eq [OF assms])

section \<open>Group Info lemmas\<close>

definition storable_group_info :: "group_info \<Rightarrow> bool" where
  "storable_group_info g =
     (gp_max_compact (gi_phase_change g) < 65536 \<and> gp_min_dense (gi_phase_change g) \<le> gp_max_compact (gi_phase_change g)
      \<and> (\<forall>e. gi_estimates g = Some e \<longrightarrow> ge_entries e < 65536 \<and> ge_name_length e < 65536))"

lemma to_le_2: "to_le 2 v = [word_of_nat v, word_of_nat (v div 256)]"
  by (simp add: numeral_2_eq_2)

lemma from_le_pair: "v < 65536 \<Longrightarrow> from_le [word_of_nat v, word_of_nat (v div 256)] = v"
  using from_le_to_le [of 2 v] by (simp add: to_le_2)

lemma group_info_parse_ok:
  assumes "storable_group_info g"
  shows "group_info_parse (group_info_serialize g) = Inr g"
proof -
  have b: "gp_max_compact (gi_phase_change g) < 65536" "gp_min_dense (gi_phase_change g) < 65536"
    "gp_min_dense (gi_phase_change g) \<le> gp_max_compact (gi_phase_change g)"
    "\<And>e. gi_estimates g = Some e \<Longrightarrow> ge_entries e < 65536 \<and> ge_name_length e < 65536"
    using assms by (auto simp: storable_group_info_def)
  note eval = group_info_parse_def group_info_serialize_def phase_change_parse_def declared_length_read_def
    phase_change_new_def to_le_2 Let_def get_at_def
  note pairs = from_le_pair [OF b(1)] from_le_pair [OF b(2)]
  show ?thesis
  proof (cases "gi_estimates g")
    case None
    then show ?thesis
      using b(3) pairs by (cases g; cases "gi_phase_change g") (auto simp: eval simp del: from_le.simps)
  next
    case (Some e)
    then show ?thesis
      using b(3) b(4) [OF Some] pairs from_le_pair [of "ge_entries e"] from_le_pair [of "ge_name_length e"]
      by (cases g; cases "gi_phase_change g"; cases e) (auto simp: eval simp del: from_le.simps)
  qed
qed

end
