(* ===== verification/Superblock.thy ===== *)
theory Superblock
  imports Checksum
begin

text \<open>
  The superblock: its value types (\<^verbatim>\<open>hdf5-pure-core/src/superblock.rs\<close>) and the locator, the
  parsers of versions 0 to 3 and the writer of versions 2 and 3
  (\<^verbatim>\<open>hdf5-pure-format/src/superblock.rs\<close>).

  A caller reads the range that each stage returns and passes the bytes to the next stage. The
  lemmas show that the written length is the length the parser expects, that no input makes a stage
  panic, and that a written superblock is located and read back.
\<close>

section \<open>Versions and status\<close>

datatype superblock_version = VZero | VOne | VTwo | VThree

fun version_get :: "superblock_version \<Rightarrow> nat" where
  "version_get VZero = 0"
| "version_get VOne = 1"
| "version_get VTwo = 2"
| "version_get VThree = 3"

definition version_try_from :: "byte \<Rightarrow> format_error + superblock_version" where
  "version_try_from version =
     (if version = 0 then Inr VZero
      else if version = 1 then Inr VOne
      else if version = 2 then Inr VTwo
      else if version = 3 then Inr VThree
      else Inl (UnsupportedVersion (unat version)))"

text \<open>The flags of versions 0 and 1 have 32 bits, those of versions 2 and 3 have 8.\<close>

type_synonym status_flags = u32

datatype superblock_status = SZero status_flags | SOne status_flags | STwo byte | SThree byte

definition flags_try_into_u8 :: "status_flags \<Rightarrow> format_error + byte" where
  "flags_try_into_u8 flags =
     (if unat flags \<le> 255 then Inr (ucast flags) else Inl (SuperblockStatusFlagsTooWide (unat flags)))"

definition status_new :: "superblock_version \<Rightarrow> status_flags \<Rightarrow> format_error + superblock_status" where
  "status_new version flags =
     (case version of
        VZero \<Rightarrow> Inr (SZero flags)
      | VOne \<Rightarrow> Inr (SOne flags)
      | VTwo \<Rightarrow> (case flags_try_into_u8 flags of Inl e \<Rightarrow> Inl e | Inr b \<Rightarrow> Inr (STwo b))
      | VThree \<Rightarrow> (case flags_try_into_u8 flags of Inl e \<Rightarrow> Inl e | Inr b \<Rightarrow> Inr (SThree b)))"

fun status_version :: "superblock_status \<Rightarrow> superblock_version" where
  "status_version (SZero _) = VZero"
| "status_version (SOne _) = VOne"
| "status_version (STwo _) = VTwo"
| "status_version (SThree _) = VThree"

fun status_flags :: "superblock_status \<Rightarrow> status_flags" where
  "status_flags (SZero bits) = bits"
| "status_flags (SOne bits) = bits"
| "status_flags (STwo bits) = ucast bits"
| "status_flags (SThree bits) = ucast bits"

datatype status_flag = WriteAccess | SwmrWriteAccess

fun flag_mask :: "status_flag \<Rightarrow> u32" where
  "flag_mask WriteAccess = 1"
| "flag_mask SwmrWriteAccess = 4"

definition write_marked :: status_flags where
  "write_marked = flag_mask WriteAccess"

definition swmr_write_marked :: status_flags where
  "swmr_write_marked = flag_mask WriteAccess OR flag_mask SwmrWriteAccess"

definition flags_contains :: "status_flags \<Rightarrow> status_flag \<Rightarrow> bool" where
  "flags_contains self flag = (self AND flag_mask flag \<noteq> 0)"

definition flags_is_inconsistent :: "status_flags \<Rightarrow> bool" where
  "flags_is_inconsistent self =
     (flags_contains self SwmrWriteAccess \<and> \<not> flags_contains self WriteAccess)"

definition unknown_bits :: "status_flags \<Rightarrow> u32" where
  "unknown_bits self = self AND NOT (flag_mask WriteAccess OR flag_mask SwmrWriteAccess)"

record superblock =
  sb_status :: superblock_status
  sb_offset_size :: field_width
  sb_length_size :: field_width
  sb_base_address :: base_address
  sb_eof_address :: u64
  sb_root_group_address :: stored_address
  sb_group_leaf_node_k :: "nat option"
  sb_group_internal_node_k :: "nat option"
  sb_indexed_storage_internal_node_k :: "nat option"
  sb_free_space_address :: "stored_address option"
  sb_driver_info_address :: "stored_address option"
  sb_superblock_extension_address :: "stored_address option"
  sb_checksum :: "nat option"

definition sb_version :: "superblock \<Rightarrow> superblock_version" where
  "sb_version self = status_version (sb_status self)"

definition consistency_flags :: "superblock \<Rightarrow> status_flags" where
  "consistency_flags self = status_flags (sb_status self)"

definition set_version :: "superblock \<Rightarrow> superblock_version \<Rightarrow> format_error + superblock" where
  "set_version self version =
     (case status_new version (consistency_flags self) of
        Inl e \<Rightarrow> Inl e | Inr status \<Rightarrow> Inr (self\<lparr>sb_status := status\<rparr>))"

definition set_consistency_flags :: "superblock \<Rightarrow> status_flags \<Rightarrow> format_error + superblock" where
  "set_consistency_flags self flags =
     (case status_new (sb_version self) flags of
        Inl e \<Rightarrow> Inl e | Inr status \<Rightarrow> Inr (self\<lparr>sb_status := status\<rparr>))"

section \<open>Writing\<close>

definition hdf5_signature :: "byte list" where
  "hdf5_signature = [0x89, 0x48, 0x44, 0x46, 0x0D, 0x0A, 0x1A, 0x0A]"

abbreviation address_count :: nat where "address_count \<equiv> 4"

abbreviation checksum_len :: nat where "checksum_len \<equiv> 4"

abbreviation v0_v1_fixed_len :: nat where "v0_v1_fixed_len \<equiv> 24"

abbreviation v1_fields_len :: nat where "v1_fields_len \<equiv> 4"

abbreviation v2_v3_fixed_len :: nat where "v2_v3_fixed_len \<equiv> 12"

abbreviation root_entry_tail_len :: nat where "root_entry_tail_len \<equiv> 24"

definition superblock_serialized_size :: "field_width \<Rightarrow> nat" where
  "superblock_serialized_size offs = v2_v3_fixed_len + address_count * width_get offs + checksum_len"

definition write_address :: "byte list \<Rightarrow> field_width \<Rightarrow> u64 \<Rightarrow> (format_error + byte list) option" where
  "write_address buf w address = try_write_defined_offset buf address w"

definition serialize_superblock :: "superblock \<Rightarrow> (format_error + byte list) option" where
  "serialize_superblock sb =
     (let status = sb_status sb
      in try_bind
        (Some (case status of
           SZero _ \<Rightarrow> Inl (UnsupportedVersion (version_get (status_version status)))
         | SOne _ \<Rightarrow> Inl (UnsupportedVersion (version_get (status_version status)))
         | STwo flags \<Rightarrow> Inr flags
         | SThree flags \<Rightarrow> Inr flags)) (\<lambda>flags.
      let w = sb_offset_size sb;
          buf = hdf5_signature @ [word_of_nat (version_get (sb_version sb)), word_of_nat (width_get w),
            word_of_nat (width_get (sb_length_size sb)), flags]
      in try_bind (write_address buf w (sb_base_address sb)) (\<lambda>buf.
         try_bind (try_write_offset buf
           (case sb_superblock_extension_address sb of None \<Rightarrow> undefined_address w | Some a \<Rightarrow> a) w) (\<lambda>buf.
         try_bind (write_address buf w (sb_eof_address sb)) (\<lambda>buf.
         try_bind (write_address buf w (sb_root_group_address sb)) (\<lambda>buf. do {
           checksum \<leftarrow> jenkins_lookup3 buf;
           Some (Inr (buf @ to_le 4 (unat checksum))) }))))))"

section \<open>Locating\<close>

type_synonym region = "byte file_region"

abbreviation first_candidate :: physical_address where "first_candidate \<equiv> 0"

abbreviation second_candidate :: physical_address where "second_candidate \<equiv> 512"

abbreviation candidate_len :: nat where "candidate_len \<equiv> 15"

text \<open>A locator is its candidate address, and a signature is its address.\<close>

type_synonym superblock_locator = physical_address

type_synonym superblock_signature = physical_address

definition locator_new :: superblock_locator where
  "locator_new = first_candidate"

datatype candidate_read = CandidateBytes region | EndOfSource region | PastExtent

datatype superblock_candidate = Absent superblock_locator | Exhausted | Present superblock_signature

definition locator_parse_range :: "superblock_locator \<Rightarrow> format_error + address_range" where
  "locator_parse_range self = range_new self candidate_len"

definition locator_next :: "superblock_locator \<Rightarrow> superblock_locator option" where
  "locator_next self = (if self = first_candidate then Some second_candidate else checked_mul self 2)"

definition starts_with :: "'a list \<Rightarrow> 'a list \<Rightarrow> bool" where
  "starts_with bytes pre = (length pre \<le> length bytes \<and> take (length pre) bytes = pre)"

definition locator_parse ::
  "superblock_locator \<Rightarrow> candidate_read \<Rightarrow> format_error + superblock_candidate" where
  "locator_parse self rd =
     (case locator_parse_range self of
        Inl e \<Rightarrow> Inl e
      | Inr rng \<Rightarrow>
          let finish = (\<lambda>bytes nxt. Inr (if starts_with bytes hdf5_signature then Present self
                else case nxt of None \<Rightarrow> Exhausted | Some l \<Rightarrow> Absent l))
          in case rd of
            CandidateBytes region \<Rightarrow>
              (case subregion u64_max region rng of
                 Inl e \<Rightarrow> Inl e | Inr sub \<Rightarrow> finish (fr_bytes sub) (locator_next self))
          | EndOfSource region \<Rightarrow>
              (let stop = min (ar_end (fr_range region)) (ar_end rng)
               in case range_new (ar_start rng) (stop - ar_start rng) of
                    Inl e \<Rightarrow> Inl e
                  | Inr held \<Rightarrow>
                      (case subregion u64_max region held of
                         Inl e \<Rightarrow> Inl e | Inr sub \<Rightarrow> finish (fr_bytes sub) None))
          | PastExtent \<Rightarrow> Inr Exhausted)"

section \<open>Parsing\<close>

record candidate_fields =
  cf_version :: superblock_version
  cf_widths :: format_widths

definition candidate_read_fields :: "fields \<Rightarrow> (format_error + candidate_fields \<times> fields) option" where
  "candidate_read_fields fs =
     try_bind (Some (f_array 8 fs)) (\<lambda>(signature, fs).
     if signature \<noteq> hdf5_signature then Some (Inl SignatureNotFound)
     else
       try_bind (Some (f_u8 fs)) (\<lambda>(v, fs).
       try_bind (Some (version_try_from v)) (\<lambda>version.
       try_bind
         (if version = VZero \<or> version = VOne
          then try_bind (Some (f_array 4 fs)) (\<lambda>(_, fs). Some (Inr fs)) else Some (Inr fs)) (\<lambda>fs.
       try_bind (Some (f_u8 fs)) (\<lambda>(offset_size, fs).
       try_bind (Some (f_u8 fs)) (\<lambda>(length_size, fs).
       try_bind (Some (widths_from_sizes (unat offset_size) (unat length_size))) (\<lambda>ws.
       Some (Inr (\<lparr>cf_version = version, cf_widths = ws\<rparr>, fs)))))))))"

definition candidate_parse :: "byte list \<Rightarrow> (format_error + candidate_fields) option" where
  "candidate_parse bytes =
     try_bind (candidate_read_fields (fields_new bytes 0)) (\<lambda>(c, _). Some (Inr c))"

definition cf_encoded_len :: "candidate_fields \<Rightarrow> nat" where
  "cf_encoded_len self =
     (let offset = width_get (fw_offsets (cf_widths self));
          len = width_get (fw_lengths (cf_widths self));
          addresses = address_count * offset;
          root_entry = len + offset + root_entry_tail_len
      in case cf_version self of
           VZero \<Rightarrow> v0_v1_fixed_len + addresses + root_entry
         | VOne \<Rightarrow> v0_v1_fixed_len + v1_fields_len + addresses + root_entry
         | VTwo \<Rightarrow> v2_v3_fixed_len + addresses + checksum_len
         | VThree \<Rightarrow> v2_v3_fixed_len + addresses + checksum_len)"

definition read_v0_or_v1 ::
  "bool \<Rightarrow> candidate_fields \<Rightarrow> fields \<Rightarrow> (format_error + superblock \<times> fields) option" where
  "read_v0_or_v1 dbg self fs =
     (let version = cf_version self;
          offs = fw_offsets (cf_widths self);
          lens = fw_lengths (cf_widths self)
      in try_bind (Some (f_u8 fs)) (\<lambda>(_, fs).
         try_bind (Some (f_u16 fs)) (\<lambda>(leaf_k, fs).
         if leaf_k = 0 then Some (Inl InvalidGroupLeafNodeK)
         else
           try_bind (Some (f_u16 fs)) (\<lambda>(internal_k, fs).
           try_bind (Some (f_u32 fs)) (\<lambda>(bits, fs).
           try_bind (Some (status_new version (word_of_nat bits))) (\<lambda>status.
           try_bind
             (case version of
                VOne \<Rightarrow>
                  try_bind (Some (f_u16 fs)) (\<lambda>(k, fs).
                  try_bind (Some (f_u16 fs)) (\<lambda>(_, fs). Some (Inr (Some k, fs))))
              | _ \<Rightarrow> Some (Inr (None, fs))) (\<lambda>(indexed_k, fs).
           try_bind (f_offset dbg fs offs) (\<lambda>(base, fs).
           try_bind (f_address dbg fs offs) (\<lambda>(free_space, fs).
           try_bind (f_offset dbg fs offs) (\<lambda>(eof, fs).
           try_bind (f_address dbg fs offs) (\<lambda>(driver_info, fs).
           try_bind (f_length dbg fs lens) (\<lambda>(_, fs).
           try_bind (f_address dbg fs offs) (\<lambda>(root, fs).
           try_bind (Some (f_array root_entry_tail_len fs)) (\<lambda>(_, fs).
           Some (Inr (\<lparr>sb_status = status, sb_offset_size = offs, sb_length_size = lens,
             sb_base_address = base, sb_eof_address = eof, sb_root_group_address = root,
             sb_group_leaf_node_k = Some leaf_k, sb_group_internal_node_k = Some internal_k,
             sb_indexed_storage_internal_node_k = indexed_k, sb_free_space_address = Some free_space,
             sb_driver_info_address = Some driver_info, sb_superblock_extension_address = None,
             sb_checksum = None\<rparr>, fs))))))))))))))))"

definition read_v2_or_v3 ::
  "bool \<Rightarrow> candidate_fields \<Rightarrow> fields \<Rightarrow> (format_error + superblock \<times> fields) option" where
  "read_v2_or_v3 dbg self fs =
     (let version = cf_version self;
          offs = fw_offsets (cf_widths self);
          lens = fw_lengths (cf_widths self)
      in try_bind (Some (f_u8 fs)) (\<lambda>(bits, fs).
         try_bind (Some (status_new version (ucast bits))) (\<lambda>status.
         try_bind (f_offset dbg fs offs) (\<lambda>(base, fs).
         try_bind (f_address dbg fs offs) (\<lambda>(extension, fs).
         try_bind (f_offset dbg fs offs) (\<lambda>(eof, fs).
         try_bind (f_address dbg fs offs) (\<lambda>(root, fs).
         try_bind (Some (f_u32 fs)) (\<lambda>(checksum, fs).
         Some (Inr (\<lparr>sb_status = status, sb_offset_size = offs, sb_length_size = lens,
           sb_base_address = base, sb_eof_address = eof, sb_root_group_address = root,
           sb_group_leaf_node_k = None, sb_group_internal_node_k = None,
           sb_indexed_storage_internal_node_k = None, sb_free_space_address = None,
           sb_driver_info_address = None, sb_superblock_extension_address = Some extension,
           sb_checksum = Some checksum\<rparr>, fs))))))))))"

type_synonym superblock_ref = address_range

definition signature_parse_range :: "superblock_signature \<Rightarrow> format_error + address_range" where
  "signature_parse_range self = range_new self candidate_len"

definition signature_parse ::
  "superblock_signature \<Rightarrow> region \<Rightarrow> (format_error + superblock_ref) option" where
  "signature_parse self region =
     try_bind (Some (signature_parse_range self)) (\<lambda>rng.
     try_bind (Some (subregion u64_max region rng)) (\<lambda>sub.
     try_bind (candidate_parse (fr_bytes sub)) (\<lambda>candidate.
     Some (range_new self (cf_encoded_len candidate)))))"

definition ref_parse ::
  "bool \<Rightarrow> bool \<Rightarrow> superblock_ref \<Rightarrow> region \<Rightarrow> (format_error + superblock \<times> format_widths) option" where
  "ref_parse dbg feature self region =
     try_bind (Some (subregion u64_max region self)) (\<lambda>held.
     try_bind (candidate_read_fields (fields_new (fr_bytes held) 0)) (\<lambda>(candidate, fs).
     try_bind (Some (range_new (ar_start self) (cf_encoded_len candidate))) (\<lambda>required.
     try_bind (Some (subregion u64_max held required)) (\<lambda>sub.
     let bytes = fr_bytes sub in
     try_bind
       (if cf_version candidate = VZero \<or> cf_version candidate = VOne
        then read_v0_or_v1 dbg candidate fs
        else try_bind (verify_trailing feature bytes) (\<lambda>_. read_v2_or_v3 dbg candidate fs)) (\<lambda>(superblock, fs).
     if f_pos fs \<noteq> length bytes
     then Some (Inl (Internal
       (''the version '' @ decimal (version_get (cf_version candidate)) @ '' superblock reader consumed ''
        @ decimal (f_pos fs) @ '' of its '' @ decimal (length bytes) @ '' bytes'')))
     else Some (Inr (superblock, cf_widths candidate)))))))"

section \<open>Lemmas\<close>

lemma unat_word32: "unat h < 4294967296" for h :: u32
  using unsigned_less [of h] by simp

lemma unat_narrow: "unat (ucast f :: byte) = unat f mod 256" for f :: u32
  by (simp add: unsigned_ucast_eq take_bit_eq_mod)

lemma unat_widen: "unat (ucast b :: u32) = unat b" for b :: byte
  using byte_less [of b] by (simp add: unsigned_ucast_eq take_bit_eq_mod)

lemma status_new_roundtrip: "status_new v f = Inr s \<Longrightarrow> status_version s = v \<and> status_flags s = f"
proof -
  assume s: "status_new v f = Inr s"
  have "ucast (ucast f :: byte) = f" if "unat f \<le> 255"
    by (rule word_unat_eq_iff [THEN iffD2]) (use that in \<open>simp only: unat_widen unat_narrow\<close>, simp)
  then show ?thesis
    using s by (auto simp: status_new_def flags_try_into_u8_def split: superblock_version.splits if_splits)
qed

lemma byte_flags: "flags_try_into_u8 (ucast b) = Inr b" for b :: byte
proof -
  have "unat (ucast b :: u32) \<le> 255" using byte_less [of b] by (simp only: unat_widen)
  moreover have "ucast (ucast b :: u32) = b"
    by (rule word_unat_eq_iff [THEN iffD2]) (use byte_less [of b] in \<open>simp only: unat_widen unat_narrow mod_less\<close>)
  ultimately show ?thesis by (simp add: flags_try_into_u8_def)
qed

lemma length_signature [simp]: "length hdf5_signature = 8"
  by (simp add: hdf5_signature_def)

lemma widths_from_get: "widths_from_sizes (width_get a) (width_get b) = Inr \<lparr>fw_offsets = a, fw_lengths = b\<rparr>"
  by (cases a; cases b) (simp_all add: widths_from_sizes_def offset_width_try_from_def length_width_try_from_def)

lemma width_byte: "unat (word_of_nat (width_get w) :: byte) = width_get w"
  by (cases w) (simp_all add: unat_of_nat)

lemma advance_simps [simp]: "f_pos (advance fs n) = f_pos fs + n" "f_data (advance fs n) = f_data fs"
  by (simp_all add: advance_def)

lemma f_address_unread:
  "unread fs (to_le (width_get w) v @ bs) \<Longrightarrow> v < 256 ^ width_get w \<Longrightarrow>
     f_address dbg fs w = Some (Inr (v, advance fs (width_get w)))"
  unfolding f_address_def by (rule f_offset_unread)

fun modern_version :: "superblock_status \<Rightarrow> byte" where
  "modern_version (STwo _) = 2"
| "modern_version _ = 3"

fun modern_flags :: "superblock_status \<Rightarrow> byte" where
  "modern_flags (STwo b) = b"
| "modern_flags (SThree b) = b"
| "modern_flags _ = 0"

definition stored_extension :: "superblock \<Rightarrow> stored_address" where
  "stored_extension sb =
     (case sb_superblock_extension_address sb of
        None \<Rightarrow> undefined_address (sb_offset_size sb)
      | Some a \<Rightarrow> a mod 256 ^ width_get (sb_offset_size sb))"

text \<open>The superblocks of versions 2 and 3 whose addresses fit their fields.\<close>

definition storable_superblock :: "superblock \<Rightarrow> bool" where
  "storable_superblock sb =
     ((\<exists>b. sb_status sb = STwo b \<or> sb_status sb = SThree b)
      \<and> storable (sb_offset_size sb) (Defined (sb_base_address sb))
      \<and> storable (sb_offset_size sb) (Defined (sb_eof_address sb))
      \<and> storable (sb_offset_size sb) (Defined (sb_root_group_address sb))
      \<and> (\<forall>a. sb_superblock_extension_address sb = Some a \<longrightarrow> offset_width_holds (sb_offset_size sb) a))"

definition superblock_body :: "superblock \<Rightarrow> byte list" where
  "superblock_body sb =
     (let w = width_get (sb_offset_size sb)
      in hdf5_signature @ [modern_version (sb_status sb), word_of_nat w,
           word_of_nat (width_get (sb_length_size sb)), modern_flags (sb_status sb)]
         @ to_le w (sb_base_address sb) @ to_le w (stored_extension sb)
         @ to_le w (sb_eof_address sb) @ to_le w (sb_root_group_address sb))"

definition superblock_bytes :: "superblock \<Rightarrow> byte list" where
  "superblock_bytes sb =
     superblock_body sb @ to_le 4 (unat (lookup3 (seed_of (length (superblock_body sb)) 0) (superblock_body sb)))"

lemma length_superblock_body: "length (superblock_body sb) = 12 + 4 * width_get (sb_offset_size sb)"
  by (simp add: superblock_body_def Let_def)

lemma length_superblock_bytes: "length (superblock_bytes sb) = superblock_serialized_size (sb_offset_size sb)"
  by (simp add: superblock_bytes_def length_superblock_body superblock_serialized_size_def)

lemma serialize_superblock_ok:
  assumes "storable_superblock sb"
  shows "serialize_superblock sb = Some (Inr (superblock_bytes sb))"
proof -
  let ?w = "sb_offset_size sb"
  have ext: "try_write_offset buf (case sb_superblock_extension_address sb of None \<Rightarrow> undefined_address ?w | Some a \<Rightarrow> a) ?w
      = Some (Inr (buf @ to_le (width_get ?w) (stored_extension sb)))" for buf
    using assms by (cases "sb_superblock_extension_address sb")
      (simp_all add: try_write_offset_def write_offset_eq stored_extension_def storable_superblock_def to_le_mod)
  have addr: "write_address buf ?w v = Some (Inr (buf @ to_le (width_get ?w) v))" if "storable ?w (Defined v)" for buf v
    using that by (simp add: write_address_def try_write_defined_eq)
  obtain b where "sb_status sb = STwo b \<or> sb_status sb = SThree b" using assms by (auto simp: storable_superblock_def)
  then show ?thesis
    using assms
    by (auto simp: serialize_superblock_def storable_superblock_def Let_def ext addr sb_version_def
        jenkins_lookup3_eq superblock_bytes_def superblock_body_def)
qed

lemma candidate_read_ok:
  assumes u: "unread fs (hdf5_signature @ [modern_version st, word_of_nat (width_get o'), word_of_nat (width_get l)] @ rest)"
  shows "\<exists>fs'. candidate_read_fields fs =
      Some (Inr (\<lparr>cf_version = (if modern_version st = 2 then VTwo else VThree),
        cf_widths = \<lparr>fw_offsets = o', fw_lengths = l\<rparr>\<rparr>, fs'))
    \<and> unread fs' rest \<and> f_pos fs' = f_pos fs + 11 \<and> f_data fs' = f_data fs"
proof -
  have u1: "unread (advance fs 8) (modern_version st # word_of_nat (width_get o') # word_of_nat (width_get l) # rest)"
    using unread_advance [OF u, of 8] by simp
  note u2 = unread_advance_Cons [OF u1]
  note u3 = unread_advance_Cons [OF u2]
  note u4 = unread_advance_Cons [OF u3]
  have v: "version_try_from (modern_version st) = Inr (if modern_version st = 2 then VTwo else VThree)"
    by (cases st) (simp_all add: version_try_from_def)
  show ?thesis
    by (rule exI [of _ "advance (advance (advance (advance fs 8) 1) 1) 1"])
      (use u4 in \<open>simp add: candidate_read_fields_def f_array_unread [OF u] f_u8_unread [OF u1] f_u8_unread [OF u2]
        f_u8_unread [OF u3] v width_byte widths_from_get del: One_nat_def\<close>)
qed

subsection \<open>Reading a written superblock back\<close>

text \<open>What the reader returns for a written superblock: the absent extension is read as the
  undefined address, and the fields that only versions 0 and 1 store are absent.\<close>

definition as_read :: "superblock \<Rightarrow> superblock" where
  "as_read sb = sb\<lparr>sb_group_leaf_node_k := None, sb_group_internal_node_k := None,
     sb_indexed_storage_internal_node_k := None, sb_free_space_address := None,
     sb_driver_info_address := None, sb_superblock_extension_address := Some (stored_extension sb),
     sb_checksum := Some (unat (lookup3 (seed_of (length (superblock_body sb)) 0) (superblock_body sb)))\<rparr>"

lemma stored_extension_less: "stored_extension sb < 256 ^ width_get (sb_offset_size sb)"
  by (auto simp: stored_extension_def undefined_address_eq split: option.splits)

lemma storable_defined_less: "storable w (Defined a) \<Longrightarrow> a < 256 ^ width_get w"
  using address_value_less [of w "Defined a"] by simp

abbreviation modern_candidate :: "superblock \<Rightarrow> candidate_fields" where
  "modern_candidate sb \<equiv> \<lparr>cf_version = (if modern_version (sb_status sb) = 2 then VTwo else VThree),
     cf_widths = \<lparr>fw_offsets = sb_offset_size sb, fw_lengths = sb_length_size sb\<rparr>\<rparr>"

lemma read_modern_ok:
  assumes sb: "storable_superblock sb" and h: "h < 4294967296"
    and u: "unread fs (modern_flags (sb_status sb) # to_le (width_get (sb_offset_size sb)) (sb_base_address sb)
      @ to_le (width_get (sb_offset_size sb)) (stored_extension sb)
      @ to_le (width_get (sb_offset_size sb)) (sb_eof_address sb)
      @ to_le (width_get (sb_offset_size sb)) (sb_root_group_address sb) @ to_le 4 h @ rest)"
  shows "\<exists>fs'. read_v2_or_v3 dbg (modern_candidate sb) fs =
      Some (Inr ((as_read sb)\<lparr>sb_checksum := Some h\<rparr>, fs'))
    \<and> f_pos fs' = f_pos fs + 5 + 4 * width_get (sb_offset_size sb)"
proof -
  note u1 = unread_advance_Cons [OF u]
  note u2 = unread_advance [OF u1 length_to_le [symmetric]]
  note u3 = unread_advance [OF u2 length_to_le [symmetric]]
  note u4 = unread_advance [OF u3 length_to_le [symmetric]]
  note u5 = unread_advance [OF u4 length_to_le [symmetric]]
  have b: "sb_base_address sb < 256 ^ width_get (sb_offset_size sb)" "sb_eof_address sb < 256 ^ width_get (sb_offset_size sb)"
    "sb_root_group_address sb < 256 ^ width_get (sb_offset_size sb)"
    using sb by (auto simp only: storable_superblock_def intro: storable_defined_less)
  obtain f where f: "sb_status sb = STwo f \<or> sb_status sb = SThree f" using sb by (auto simp: storable_superblock_def)
  have st: "status_new (cf_version (modern_candidate sb)) (ucast (modern_flags (sb_status sb))) = Inr (sb_status sb)"
    using f by (auto simp: status_new_def byte_flags)
  note steps = f_u8_unread [OF u] f_offset_unread [OF u1 b(1), of dbg] f_address_unread [OF u2 stored_extension_less, of dbg]
    f_offset_unread [OF u3 b(2), of dbg] f_address_unread [OF u4 b(3), of dbg] f_u32_unread [OF u5 h]
  define c where "c = modern_candidate sb"
  have c: "fw_offsets (cf_widths c) = sb_offset_size sb" "fw_lengths (cf_widths c) = sb_length_size sb"
    by (simp_all add: c_def)
  have "read_v2_or_v3 dbg c fs = Some (Inr ((as_read sb)\<lparr>sb_checksum := Some h\<rparr>,
      advance (advance (advance (advance (advance (advance fs 1) (width_get (sb_offset_size sb))) (width_get (sb_offset_size sb)))
        (width_get (sb_offset_size sb))) (width_get (sb_offset_size sb))) 4))"
    unfolding read_v2_or_v3_def Let_def c steps st [folded c_def] try_bind_simps prod.case
    by (simp add: as_read_def)
  then show ?thesis unfolding c_def by (intro exI conjI) (assumption, simp)
qed

text \<open>A region that starts with the given bytes.\<close>

definition region_at :: "physical_address \<Rightarrow> byte list \<Rightarrow> region" where
  "region_at pos bytes = \<lparr>fr_range = \<lparr>ar_start = pos, ar_end = pos + length bytes\<rparr>, fr_bytes = bytes\<rparr>"

lemma subregion_prefix:
  assumes "pos + length (as @ bs) \<le> u64_max"
  shows "subregion u64_max (region_at pos (as @ bs)) \<lparr>ar_start = pos, ar_end = pos + length as\<rparr> = Inr (region_at pos as)"
  using assms by (simp add: subregion_def region_at_def range_contains_def slice_get_def Let_def)

lemma range_new_ok: "a + n \<le> u64_max \<Longrightarrow> range_new a n = Inr \<lparr>ar_start = a, ar_end = a + n\<rparr>"
  by (simp add: range_new_def checked)

lemma encoded_len_modern: "cf_encoded_len (modern_candidate sb) = superblock_serialized_size (sb_offset_size sb)"
  by (simp add: cf_encoded_len_def superblock_serialized_size_def Let_def)

lemma region_at_simps [simp]:
  "fr_bytes (region_at pos bs) = bs" "fr_range (region_at pos bs) = \<lparr>ar_start = pos, ar_end = pos + length bs\<rparr>"
  by (simp_all add: region_at_def)

lemma verify_written: "verify_trailing feature (superblock_bytes sb) = Some (Inr ())"
  by (simp add: verify_trailing_def verify_trailing_required_def superblock_bytes_def jenkins_lookup3_eq
      Let_def from_le_to_le unat_word32)

lemma ref_parse_ok:
  assumes sb: "storable_superblock sb" and fits: "pos + length (superblock_bytes sb @ rest) \<le> u64_max"
  shows "ref_parse dbg feature \<lparr>ar_start = pos, ar_end = pos + superblock_serialized_size (sb_offset_size sb)\<rparr>
      (region_at pos (superblock_bytes sb @ rest))
    = Some (Inr (as_read sb, \<lparr>fw_offsets = sb_offset_size sb, fw_lengths = sb_length_size sb\<rparr>))"
proof -
  let ?bytes = "superblock_bytes sb"
  let ?h = "unat (lookup3 (seed_of (length (superblock_body sb)) 0) (superblock_body sb))"
  let ?w = "width_get (sb_offset_size sb)"
  have held: "subregion u64_max (region_at pos (?bytes @ rest))
      \<lparr>ar_start = pos, ar_end = pos + superblock_serialized_size (sb_offset_size sb)\<rparr> = Inr (region_at pos ?bytes)"
    using subregion_prefix [OF fits] by (simp add: length_superblock_bytes)
  have whole: "subregion u64_max (region_at pos ?bytes)
      \<lparr>ar_start = pos, ar_end = pos + superblock_serialized_size (sb_offset_size sb)\<rparr> = Inr (region_at pos ?bytes)"
    using subregion_prefix [of pos ?bytes "[]"] fits by (simp add: length_superblock_bytes)
  let ?tail = "modern_flags (sb_status sb) # to_le ?w (sb_base_address sb) @ to_le ?w (stored_extension sb)
      @ to_le ?w (sb_eof_address sb) @ to_le ?w (sb_root_group_address sb) @ to_le 4 ?h @ []"
  have u: "unread (fields_new ?bytes 0) (hdf5_signature @ [modern_version (sb_status sb), word_of_nat ?w,
      word_of_nat (width_get (sb_length_size sb))] @ ?tail)"
    using unread_new [of ?bytes 0] fits by (simp add: superblock_bytes_def superblock_body_def Let_def)
  obtain fs where fs: "candidate_read_fields (fields_new ?bytes 0) = Some (Inr (modern_candidate sb, fs))"
    "unread fs ?tail" "f_pos fs = 11"
    using candidate_read_ok [OF u] by (auto simp: fields_new_def)
  obtain fs' where fs': "read_v2_or_v3 dbg (modern_candidate sb) fs = Some (Inr ((as_read sb)\<lparr>sb_checksum := Some ?h\<rparr>, fs'))"
    "f_pos fs' = 16 + 4 * ?w"
    using read_modern_ok [OF sb unat_word32 fs(2), of dbg] fs(3) by auto
  have rng: "range_new pos (superblock_serialized_size (sb_offset_size sb))
      = Inr \<lparr>ar_start = pos, ar_end = pos + superblock_serialized_size (sb_offset_size sb)\<rparr>"
    using fits by (intro range_new_ok) (simp add: length_superblock_bytes)
  have same: "(as_read sb)\<lparr>sb_checksum := Some ?h\<rparr> = as_read sb" by (simp add: as_read_def)
  define c where "c = modern_candidate sb"
  have c: "(cf_version c = VZero \<or> cf_version c = VOne) = False"
    "cf_widths c = \<lparr>fw_offsets = sb_offset_size sb, fw_lengths = sb_length_size sb\<rparr>"
    by (simp_all add: c_def)
  have pos: "(f_pos fs' \<noteq> length ?bytes) = False"
    using fs'(2) by (simp add: length_superblock_bytes superblock_serialized_size_def)
  show ?thesis
    unfolding ref_parse_def Let_def
    by (simp only: held try_bind_simps region_at_simps fs(1) [folded c_def] prod.case address_range.select_convs
        encoded_len_modern [of sb, folded c_def] rng whole c if_False verify_written fs'(1) [folded c_def] same pos)
qed

subsection \<open>Locating a superblock\<close>

lemma written_signature: "\<exists>rest. superblock_bytes sb = hdf5_signature @ rest"
  by (simp add: superblock_bytes_def superblock_body_def Let_def)

lemma serialized_size_bounds: "24 \<le> superblock_serialized_size w" "superblock_serialized_size w \<le> 48"
  by (cases w; simp add: superblock_serialized_size_def)+

lemma candidate_prefix:
  assumes "pos + length (superblock_bytes sb @ rest) \<le> u64_max"
  shows "subregion u64_max (region_at pos (superblock_bytes sb @ rest)) \<lparr>ar_start = pos, ar_end = pos + candidate_len\<rparr>
    = Inr (region_at pos (take candidate_len (superblock_bytes sb)))"
proof -
  have "candidate_len \<le> length (superblock_bytes sb)"
    using serialized_size_bounds(1) [of "sb_offset_size sb"] by (simp add: length_superblock_bytes)
  then show ?thesis
    using subregion_prefix [of pos "take candidate_len (superblock_bytes sb)" "drop candidate_len (superblock_bytes sb) @ rest"]
      assms by (simp add: append_assoc [symmetric] del: append_assoc)
qed

lemma locator_parse_ok:
  assumes "pos + length (superblock_bytes sb @ rest) \<le> u64_max"
  shows "locator_parse pos (CandidateBytes (region_at pos (superblock_bytes sb @ rest))) = Inr (Present pos)"
proof -
  obtain r where r: "superblock_bytes sb = hdf5_signature @ r" using written_signature by blast
  have "pos + candidate_len \<le> u64_max"
    using assms serialized_size_bounds(1) [of "sb_offset_size sb"] by (simp add: length_superblock_bytes)
  then have rng: "locator_parse_range pos = Inr \<lparr>ar_start = pos, ar_end = pos + candidate_len\<rparr>"
    unfolding locator_parse_range_def by (rule range_new_ok)
  have "starts_with (take candidate_len (superblock_bytes sb)) hdf5_signature"
    by (simp add: r starts_with_def)
  then show ?thesis
    by (simp add: locator_parse_def rng candidate_prefix [OF assms] Let_def)
qed

lemma signature_parse_ok:
  assumes "pos + length (superblock_bytes sb @ rest) \<le> u64_max"
  shows "signature_parse pos (region_at pos (superblock_bytes sb @ rest))
    = Some (Inr \<lparr>ar_start = pos, ar_end = pos + superblock_serialized_size (sb_offset_size sb)\<rparr>)"
proof -
  let ?bytes = "superblock_bytes sb"
  have len: "length ?bytes \<le> u64_max" "candidate_len \<le> length ?bytes" "pos + candidate_len \<le> u64_max"
    "pos + superblock_serialized_size (sb_offset_size sb) \<le> u64_max"
    using assms serialized_size_bounds(1) [of "sb_offset_size sb"] by (simp_all add: length_superblock_bytes)
  obtain r where r: "take candidate_len ?bytes = hdf5_signature @ [modern_version (sb_status sb),
      word_of_nat (width_get (sb_offset_size sb)), word_of_nat (width_get (sb_length_size sb))] @ r"
    by (simp add: superblock_bytes_def superblock_body_def Let_def)
  have "unread (fields_new (take candidate_len ?bytes) 0) (take candidate_len ?bytes)"
    using unread_new [of "take candidate_len ?bytes" 0] len by simp
  then obtain fs where "candidate_read_fields (fields_new (take candidate_len ?bytes) 0) = Some (Inr (modern_candidate sb, fs))"
    using candidate_read_ok [of "fields_new (take candidate_len ?bytes) 0" "sb_status sb"] unfolding r by blast
  then have "candidate_parse (take candidate_len ?bytes) = Some (Inr (modern_candidate sb))"
    by (simp add: candidate_parse_def)
  then show ?thesis
    unfolding signature_parse_def signature_parse_range_def range_new_ok [OF len(3)] try_bind_simps candidate_prefix [OF assms]
      region_at_simps by (simp only: try_bind_simps encoded_len_modern range_new_ok [OF len(4)])
qed

subsection \<open>Arbitrary input\<close>

lemma returns_candidate: "fits fs \<Longrightarrow> returns (\<lambda>(c, fs'). fits fs') (candidate_read_fields fs)"
  unfolding candidate_read_fields_def
  apply (rule returns_bind2 [OF returns_array], assumption)
  apply (rule returns_if, simp)
  apply (rule returns_bind2 [OF returns_u8], blast)
  apply (rule returns_bind [OF returns_any])
  apply (rule returns_bind [where R = fits])
   apply (rule returns_if, rule returns_bind2 [OF returns_array], assumption, simp, simp)
  apply (rule returns_bind2 [OF returns_u8], assumption)
  apply (rule returns_bind2 [OF returns_u8], assumption)
  apply (rule returns_bind [OF returns_any])
  apply simp
  done

text \<open>Every address that is read fits the field it was read from.\<close>

definition addresses_fit :: "superblock \<Rightarrow> bool" where
  "addresses_fit sb =
     (let m = 256 ^ width_get (sb_offset_size sb)
      in sb_base_address sb < m \<and> sb_eof_address sb < m \<and> sb_root_group_address sb < m
         \<and> (\<forall>a \<in> set_option (sb_free_space_address sb) \<union> set_option (sb_driver_info_address sb)
              \<union> set_option (sb_superblock_extension_address sb). a < m)
         \<and> (\<forall>k \<in> set_option (sb_group_leaf_node_k sb). 0 < k \<and> k < 65536))"

lemma returns_v2_or_v3: "fits fs \<Longrightarrow> returns (\<lambda>(sb, fs'). addresses_fit sb) (read_v2_or_v3 dbg c fs)"
  unfolding read_v2_or_v3_def Let_def
  apply (rule returns_bind2 [OF returns_u8], assumption)
  apply (rule returns_bind [OF returns_any])
  apply (rule returns_bind2 [OF returns_offset], assumption)
  apply (rule returns_bind2 [OF returns_address], blast)
  apply (rule returns_bind2 [OF returns_offset], blast)
  apply (rule returns_bind2 [OF returns_address], blast)
  apply (rule returns_bind2 [OF returns_u32], blast)
  apply (simp add: addresses_fit_def)
  done

lemma returns_v0_or_v1: "fits fs \<Longrightarrow> returns (\<lambda>(sb, fs'). addresses_fit sb) (read_v0_or_v1 dbg c fs)"
  unfolding read_v0_or_v1_def Let_def
  apply (rule returns_bind2 [OF returns_u8], assumption)
  apply (rule returns_bind2 [OF returns_u16], assumption)
  apply (rule returns_if, simp)
  apply (rule returns_bind2 [OF returns_u16], blast)
  apply (rule returns_bind2 [OF returns_u32], blast)
  apply (rule returns_bind [OF returns_any])
  apply (rule returns_bind2 [where R = "\<lambda>k fs'. fits fs'"])
   apply (cases "cf_version c"; simp)
   apply (rule returns_bind2 [OF returns_u16], blast)
   apply (rule returns_bind2 [OF returns_u16], blast, simp)
  apply (rule returns_bind2 [OF returns_offset], assumption)
  apply (rule returns_bind2 [OF returns_address], blast)
  apply (rule returns_bind2 [OF returns_offset], blast)
  apply (rule returns_bind2 [OF returns_address], blast)
  apply (rule returns_bind2 [OF returns_length], blast)
  apply (rule returns_bind2 [OF returns_address], blast)
  apply (rule returns_bind2 [OF returns_array], blast)
  apply (simp add: addresses_fit_def)
  done

lemma verify_returns: "returns (\<lambda>_. True) (verify_trailing feature block)"
  by (auto simp: verify_trailing_def verify_trailing_required_def jenkins_lookup3_eq Let_def returns_def)

lemma subregion_fits:
  "length (fr_bytes r) \<le> u64_max \<Longrightarrow> returns (\<lambda>s. length (fr_bytes s) \<le> u64_max) (Some (subregion m r rng))"
  by (auto simp: returns_def subregion_def slice_get_def Let_def split: if_splits option.splits)

lemma returns_ref_parse:
  assumes "length (fr_bytes region) \<le> u64_max"
  shows "returns (\<lambda>(sb, ws). addresses_fit sb) (ref_parse dbg feature self region)"
  unfolding ref_parse_def Let_def
  apply (rule returns_bind [OF subregion_fits [OF assms]])
  apply (rule returns_bind2 [OF returns_candidate], simp)
  apply (rule returns_bind [OF returns_any])
  apply (rule returns_bind [OF returns_any])
  apply (rule returns_bind2 [where R = "\<lambda>sb fs'. addresses_fit sb"])
   apply (rule returns_if, erule returns_v0_or_v1)
   apply (rule returns_bind [OF verify_returns], erule returns_v2_or_v3)
  apply (rule returns_if; simp)
  done

lemma returns_signature_parse:
  assumes "length (fr_bytes region) \<le> u64_max"
  shows "returns (\<lambda>_. True) (signature_parse self region)"
  unfolding signature_parse_def candidate_parse_def
  apply (rule returns_bind [OF returns_any])
  apply (rule returns_bind [OF subregion_fits [OF assms]])
  apply (rule returns_bind [where R = "\<lambda>_. True"])
   apply (rule returns_bind2 [OF returns_candidate], simp, simp)
  apply (rule returns_any)
  done

end
