(* ===== verification/Format_Properties.thy ===== *)
theory Format_Properties
  imports File_Space_Info Group_Messages Superblock
begin

text \<open>
  Properties of the byte-level codecs: every parser returns on every input, the parsers invert the
  writers, and a superblock that was written is located and read back.
\<close>

section \<open>Fields\<close>

lemma uint_get_pos: "0 < uint_get w"
  by (cases w) simp_all

lemma uint_fits: "v \<le> u64_max \<Longrightarrow>
    (case checked_shr v (8 * uint_get w) of None \<Rightarrow> True | Some high \<Rightarrow> high = 0) \<longleftrightarrow> v < 256 ^ uint_get w"
  by (cases w) (auto simp: checked_shr_def u64_max_def div_eq_0_iff)

lemma uint_write_eq:
  "v \<le> u64_max \<Longrightarrow> uint_write w buf v = (if v < 256 ^ uint_get w then Some (buf @ to_le (uint_get w) v) else None)"
  unfolding uint_write_def uint_fits by (cases w) (simp_all add: assert_that_def to_le_trunc trunc_def)

lemma read_uint_written:
  assumes "length (buf @ to_le (uint_get w) v @ rest) \<le> u64_max" "v < 256 ^ uint_get w"
  shows "read_uint_width dbg (buf @ to_le (uint_get w) v @ rest) (length buf) w = Some (Inr v)"
proof -
  have "uint_get w = 1 \<or> uint_get w = 2 \<or> uint_get w = 4 \<or> uint_get w = 8" by (cases w) simp_all
  then show ?thesis
    using assms by (simp add: read_uint_width_def ensure_len_eq read_le_eq from_le_to_le)
qed

text \<open>C37: \<^verbatim>\<open>UintWidth::smallest_for_value\<close> selects the smallest width that holds the value: the value
  is written without a panic and read back, a narrower width would panic, and the two flag bits of
  the width select it again.\<close>

theorem smallest_width_exact:
  assumes "v \<le> u64_max" "length buf + 8 \<le> u64_max"
  shows "(\<exists>out. uint_write (smallest_for_value v) buf v = Some out
      \<and> read_uint_width dbg out (length buf) (smallest_for_value v) = Some (Inr v))
    \<and> (uint_get w < uint_get (smallest_for_value v) \<longrightarrow> uint_write w buf v = None)
    \<and> uint_from_flags (flag_bits (smallest_for_value v)) = smallest_for_value v"
proof (intro conjI impI)
  let ?w = "smallest_for_value v"
  have small: "v < 256 ^ uint_get ?w"
    using assms(1) by (simp add: smallest_for_value_def u64_max_def)
  have "uint_get ?w \<le> 8" by (cases ?w) simp_all
  then show "\<exists>out. uint_write ?w buf v = Some out \<and> read_uint_width dbg out (length buf) ?w = Some (Inr v)"
    using small assms read_uint_written [of buf ?w v "[]" dbg] by (simp add: uint_write_eq)
  show "uint_write w buf v = None" if less: "uint_get w < uint_get ?w"
  proof -
    have "256 ^ uint_get w \<le> v"
      using less by (cases w) (simp_all add: smallest_for_value_def split: if_splits)
    then show ?thesis using assms(1) by (simp add: uint_write_eq not_less)
  qed
  show "uint_from_flags (flag_bits ?w) = ?w"
    by (cases ?w) (simp_all add: uint_from_flags_def Let_def)
qed

theorem smallest_width_exact_witness:
  "smallest_for_value 256 = UTwo
   \<and> (\<exists>out. uint_write UTwo [7] 256 = Some out \<and> read_uint_width True out 1 UTwo = Some (Inr 256))
   \<and> uint_write UOne [7] 256 = None"
proof -
  have s: "smallest_for_value 256 = UTwo" by (simp add: smallest_for_value_def)
  show ?thesis
    using smallest_width_exact [of 256 "[7]" True UOne] unfolding s by (simp add: u64_max_def)
qed

text \<open>C38: \<^verbatim>\<open>write_length_at\<close> never panics. It refuses a value that the width cannot hold and a position
  past the buffer. Otherwise it keeps the length of the buffer and every byte outside the field, and
  \<^verbatim>\<open>read_length_width\<close> reads the value at that position.\<close>

theorem length_field_update:
  assumes "length buf \<le> u64_max" "v \<le> u64_max"
  shows "write_length_at buf pos v w =
      Some (if \<not> v \<le> length_width_max w then Inl (LengthTooLarge v (width_get w))
        else if pos + width_get w \<le> length buf
        then Inr (take pos buf @ to_le (width_get w) v @ drop (pos + width_get w) buf)
        else Inl (UnexpectedEof (saturating_add pos (width_get w)) (length buf)))
    \<and> (v \<le> length_width_max w \<and> pos + width_get w \<le> length buf \<longrightarrow>
        read_length_width dbg (take pos buf @ to_le (width_get w) v @ drop (pos + width_get w) buf) pos w = Some (Inr v))"
proof (intro conjI impI)
  have "width_get w \<le> 8" by (cases w) simp_all
  then show "write_length_at buf pos v w =
      Some (if \<not> v \<le> length_width_max w then Inl (LengthTooLarge v (width_get w))
        else if pos + width_get w \<le> length buf
        then Inr (take pos buf @ to_le (width_get w) v @ drop (pos + width_get w) buf)
        else Inl (UnexpectedEof (saturating_add pos (width_get w)) (length buf)))"
    using assms by (simp add: write_length_at_def require_length_def length_width_max_holds ensure_len_eq
        copy_at_def take_to_le)
next
  assume fit: "v \<le> length_width_max w \<and> pos + width_get w \<le> length buf"
  then have "v < 256 ^ width_get w"
    using assms(2) length_width_max_holds [of v w] width_holds_iff [of v w] by simp
  then show "read_length_width dbg (take pos buf @ to_le (width_get w) v @ drop (pos + width_get w) buf) pos w = Some (Inr v)"
    using fit assms(1) by (simp add: read_length_width_eq read_offset_width_eq from_le_to_le)
qed

theorem length_field_update_witness:
  "write_length_at [9, 9, 9, 9] 1 5 Two = Some (Inr [9, 5, 0, 9])
   \<and> read_length_width True [9, 5, 0, 9] 1 Two = Some (Inr 5)
   \<and> write_length_at [9, 9, 9, 9] 1 65536 Two = Some (Inl (LengthTooLarge 65536 2))"
proof -
  have m: "length_width_max Two = 65535" by (simp add: length_width_max_def u64_max_def)
  have b: "to_le 2 5 = [5, 0]" by (simp add: numeral_2_eq_2)
  have l: "length [9, 9, 9, 9 :: byte] \<le> u64_max" "5 \<le> u64_max" "65536 \<le> u64_max" by (simp_all add: u64_max_def)
  show ?thesis
    using length_field_update [OF l(1,2), of 1 Two True] length_field_update [OF l(1,3), of 1 Two True]
    by (simp add: m b)
qed

section \<open>Messages\<close>

text \<open>C31: a File Space Info message whose fields fit their widths is written without error, and the
  parser reads exactly the same message from the written bytes, whatever bytes follow them.\<close>

theorem file_space_info_roundtrip:
  assumes "storable_info ws info"
  shows "\<exists>out. serialize_file_space_info_v1 ws info = Some (Inr out)
    \<and> (length (out @ extra) \<le> u64_max \<longrightarrow> parse_file_space_info dbg ws (out @ extra) = Some (Inr info))"
proof -
  obtain eoa where eoa: "fsi_eoa_pre_fsm info = Some eoa" using assms by (auto simp: storable_info_def)
  show ?thesis
    using serialize_ok [OF assms eoa] fsi_parse_serialized [OF assms eoa, of extra dbg] by simp
qed

definition example_info :: file_space_info where
  "example_info = \<lparr>fsi_strategy = Page, fsi_persist = False, fsi_threshold = 1, fsi_page_size = 4096,
     fsi_page_end = 0, fsi_eoa_pre_fsm = Some Undefined, fsi_manager_addrs = []\<rparr>"

abbreviation example_widths :: format_widths where
  "example_widths \<equiv> \<lparr>fw_offsets = Eight, fw_lengths = Eight\<rparr>"

lemma example_info_storable: "storable_info example_widths example_info"
  by (simp add: storable_info_def example_info_def valid_page_size_def)

theorem file_space_info_roundtrip_witness:
  "\<exists>out. serialize_file_space_info_v1 example_widths example_info = Some (Inr out)
    \<and> (length (out @ []) \<le> u64_max \<longrightarrow> parse_file_space_info True example_widths (out @ []) = Some (Inr example_info))"
  using file_space_info_roundtrip [OF example_info_storable, of "[]" True] .

text \<open>C32: parsing a File Space Info message returns on every input and never panics. A parsed message
  has a valid page size and only values that its fields can hold; a persisting message has six
  manager addresses in version 0 and twelve in version 1, another message has none.\<close>

theorem file_space_info_total:
  assumes "length data \<le> u64_max"
  shows "\<exists>r. parse_file_space_info dbg ws data = Some r \<and> (\<forall>info. r = Inr info \<longrightarrow> parsed_info ws info)"
  using returns_file_space_info [OF assms, of ws dbg] by (simp add: returns_def)

theorem file_space_info_total_witness:
  "\<exists>r. parse_file_space_info True example_widths [1, 1, 0] = Some r \<and> (\<forall>info. r = Inr info \<longrightarrow> parsed_info example_widths info)"
  using file_space_info_total [of "[1, 1, 0]" True example_widths] by (simp add: u64_max_def)

text \<open>C33: every parsed message, of either version, normalises to a version 1 message that the writer
  accepts and the parser reads back, provided the end of allocation fits an address field.
  Normalising again changes nothing.\<close>

theorem normalized_message_written:
  assumes "length data \<le> u64_max" "parse_file_space_info dbg ws data = Some (Inr info)"
    "eoa < undefined_address (fw_offsets ws)"
  shows "\<exists>out. serialize_file_space_info_v1 ws (normalize_file_space_info_to_v1 info eoa) = Some (Inr out)
    \<and> (length out \<le> u64_max \<longrightarrow>
        parse_file_space_info dbg ws out = Some (Inr (normalize_file_space_info_to_v1 info eoa)))
    \<and> normalize_file_space_info_to_v1 (normalize_file_space_info_to_v1 info eoa) eoa'
        = normalize_file_space_info_to_v1 info eoa"
proof -
  let ?n = "normalize_file_space_info_to_v1 info eoa"
  have "parsed_info ws info" using returns_file_space_info [OF assms(1), of ws dbg] assms(2) by simp
  then have ok: "storable_info ws ?n" using assms(3) by (rule normalized_storable)
  then obtain a where a: "fsi_eoa_pre_fsm ?n = Some a" by (auto simp: storable_info_def)
  have "normalize_file_space_info_to_v1 ?n eoa' = ?n"
    using a by (simp add: normalize_file_space_info_to_v1_def [of ?n])
  then show ?thesis
    using serialize_ok [OF ok a] fsi_parse_serialized [OF ok a, of "[]" dbg] by simp
qed

theorem normalized_message_written_witness:
  "\<exists>info out. parse_file_space_info True example_widths [0, 4, 0, 0, 0, 0, 0, 0, 0, 0] = Some (Inr info)
    \<and> fsi_eoa_pre_fsm info = None
    \<and> serialize_file_space_info_v1 example_widths (normalize_file_space_info_to_v1 info 4096) = Some (Inr out)"
proof -
  let ?d = "[0, 4, 0, 0, 0, 0, 0, 0, 0, 0] :: byte list"
  have l: "length ?d \<le> u64_max" by (simp add: u64_max_def)
  have p: "parse_file_space_info True example_widths ?d = Some (Inr (fsi_defaults\<lparr>fsi_strategy := NoStrategy\<rparr>))"
    by (simp add: parse_file_space_info_def fsi_parse_version_0_def ensure_len_eq [OF l] Let_def f_u8_def f_array_def
        fields_new_def advance_def f_length_def read_length_width_eq read_offset_width_eq [OF l])
  show ?thesis
    using normalized_message_written [OF l p, of 4096 0] p by (auto simp: fsi_defaults_def u64_max_def)
qed

text \<open>C34: the Link Info parser returns on every input and yields only values its fields can hold, and
  it reads every message whose addresses fit back from the bytes the writer produces.\<close>

theorem link_info_codec:
  "(storable_link_info w m \<longrightarrow> (\<exists>out. li_serialize m w = Some (Inr out)
      \<and> (length out \<le> u64_max \<longrightarrow> li_parse_with_offset_width dbg out w = Some (Inr m))))
   \<and> (length data \<le> u64_max \<longrightarrow> (\<exists>r. li_parse_with_offset_width dbg data w = Some r
      \<and> (\<forall>m. r = Inr m \<longrightarrow> storable_link_info w m)))"
  using li_serialize_ok li_parse_ok returns_link_info [of data w dbg] by (auto simp: returns_def)

definition example_link_info :: link_info_message where
  "example_link_info = \<lparr>li_max_creation_order = Some 3, li_fractal_heap_address = Some 4096,
     li_btree_name_index_address = None, li_btree_creation_order_address = Some None\<rparr>"

theorem link_info_codec_witness:
  "storable_link_info Eight example_link_info
   \<and> (\<exists>out. li_serialize example_link_info Eight = Some (Inr out)
        \<and> (length out \<le> u64_max \<longrightarrow> li_parse_with_offset_width True out Eight = Some (Inr example_link_info)))
   \<and> (\<exists>r. li_parse_with_offset_width True [1, 0] Eight = Some r)"
proof -
  have "storable_link_info Eight example_link_info"
    by (simp add: storable_link_info_def example_link_info_def decoded_of_def u64_max_def)
  then show ?thesis
    using link_info_codec [of Eight example_link_info True "[1, 0]"] by (auto simp: u64_max_def)
qed

text \<open>C35: the Attribute Info parser returns on every input and yields only values its fields can hold,
  and it reads back, from the bytes the writer produces, every message whose addresses fit and that
  holds a creation-order address only if it indexes creation order: the writer omits that field from
  a message without the index.\<close>

theorem attribute_info_codec:
  "(storable_attribute_info w m \<longrightarrow> (\<exists>out. ai_serialize m w = Some (Inr out)
      \<and> (length out \<le> u64_max \<longrightarrow> ai_parse_with_offset_width dbg out w = Some (Inr m))))
   \<and> (length data \<le> u64_max \<longrightarrow> (\<exists>r. ai_parse_with_offset_width dbg data w = Some r
      \<and> (\<forall>m. r = Inr m \<longrightarrow> storable_attribute_info w m)))"
  using ai_serialize_ok ai_parse_ok returns_attribute_info [of data w dbg] by (auto simp: returns_def)

definition example_attribute_info :: attribute_info_message where
  "example_attribute_info = \<lparr>ai_max_creation_index = None, ai_indexes_creation_order = True,
     ai_fractal_heap_address = Some 4096, ai_btree_name_index_address = Some 512, ai_btree_creation_order_address = None\<rparr>"

theorem attribute_info_codec_witness:
  "storable_attribute_info Four example_attribute_info
   \<and> (\<exists>out. ai_serialize example_attribute_info Four = Some (Inr out)
        \<and> (length out \<le> u64_max \<longrightarrow> ai_parse_with_offset_width True out Four = Some (Inr example_attribute_info)))
   \<and> (\<exists>r. ai_parse_with_offset_width True [0] Four = Some r)"
proof -
  have "storable_attribute_info Four example_attribute_info"
    by (simp add: storable_attribute_info_def example_attribute_info_def decoded_of_def)
  then show ?thesis
    using attribute_info_codec [of Four example_attribute_info True "[0]"] by (auto simp: u64_max_def)
qed

text \<open>C36: a Group Info message with ordered thresholds is read back from the bytes its writer produces,
  and \<^verbatim>\<open>encoded_len\<close> finds the length of the message even if other bytes follow it, as long as the
  message and those bytes have at most 65535 bytes; more bytes than that are an error.\<close>

theorem group_info_roundtrip:
  assumes "storable_group_info g" "length (group_info_serialize g @ extra) \<le> 65535"
  shows "group_info_parse (group_info_serialize g) = Inr g
    \<and> encoded_len (group_info_serialize g @ extra) = Inr (length (group_info_serialize g))"
proof
  show "group_info_parse (group_info_serialize g) = Inr g" by (rule group_info_parse_ok [OF assms(1)])
  show "encoded_len (group_info_serialize g @ extra) = Inr (length (group_info_serialize g))"
    using assms(2)
    by (cases "gi_estimates g")
      (auto simp: encoded_len_def declared_length_read_def group_info_serialize_def Let_def)
qed

definition example_group_info :: group_info where
  "example_group_info = \<lparr>gi_phase_change = \<lparr>gp_max_compact = 300, gp_min_dense = 2\<rparr>,
     gi_estimates = Some \<lparr>ge_entries = 4, ge_name_length = 8\<rparr>\<rparr>"

theorem group_info_roundtrip_witness:
  "group_info_parse (group_info_serialize example_group_info) = Inr example_group_info
   \<and> encoded_len (group_info_serialize example_group_info @ [0, 0]) = Inr 10"
proof -
  have "storable_group_info example_group_info" "length (group_info_serialize example_group_info) = 10"
    by (simp_all add: storable_group_info_def example_group_info_def group_info_serialize_def)
  then show ?thesis using group_info_roundtrip [of example_group_info "[0, 0]"] by simp
qed

section \<open>Superblock\<close>

text \<open>C28: a superblock of version 2 or 3 whose addresses fit is written without error in exactly
  \<^verbatim>\<open>superblock_serialized_size\<close> bytes. In any file image that holds these bytes at a candidate
  position, the locator finds the signature, the signature gives the range of the whole superblock,
  and reading that range verifies the checksum and returns the superblock.\<close>

theorem superblock_roundtrip:
  assumes "storable_superblock sb"
  shows "\<exists>out. serialize_superblock sb = Some (Inr out) \<and> length out = superblock_serialized_size (sb_offset_size sb)
    \<and> (pos + length (out @ rest) \<le> u64_max \<longrightarrow>
        (let region = region_at pos (out @ rest);
             rng = \<lparr>ar_start = pos, ar_end = pos + length out\<rparr>
         in locator_parse pos (CandidateBytes region) = Inr (Present pos)
            \<and> signature_parse pos region = Some (Inr rng)
            \<and> ref_parse dbg feature rng region
                = Some (Inr (as_read sb, \<lparr>fw_offsets = sb_offset_size sb, fw_lengths = sb_length_size sb\<rparr>))))"
  using serialize_superblock_ok [OF assms] locator_parse_ok [of pos sb rest] signature_parse_ok [of pos sb rest]
    ref_parse_ok [OF assms, of pos rest dbg feature]
  by (simp add: length_superblock_bytes Let_def)

definition example_superblock :: superblock where
  "example_superblock = \<lparr>sb_status = SThree 0, sb_offset_size = Eight, sb_length_size = Eight,
     sb_base_address = 0, sb_eof_address = 2048, sb_root_group_address = 48, sb_group_leaf_node_k = None,
     sb_group_internal_node_k = None, sb_indexed_storage_internal_node_k = None, sb_free_space_address = None,
     sb_driver_info_address = None, sb_superblock_extension_address = None, sb_checksum = None\<rparr>"

theorem superblock_roundtrip_witness:
  "\<exists>out. serialize_superblock example_superblock = Some (Inr out) \<and> length out = 48
    \<and> locator_parse 512 (CandidateBytes (region_at 512 out)) = Inr (Present 512)"
proof -
  have "storable_superblock example_superblock"
    by (simp add: storable_superblock_def example_superblock_def u64_max_def)
  from superblock_roundtrip [OF this, of 512 "[]" True True] show ?thesis
    by (auto simp: example_superblock_def superblock_serialized_size_def u64_max_def Let_def)
qed

text \<open>C29: no bytes make the superblock reader panic, and every address it returns fits the width the
  superblock declares; the leaf node K of versions 0 and 1 is never zero.\<close>

theorem superblock_read_total:
  assumes "length (fr_bytes region) \<le> u64_max"
  shows "(\<exists>r. ref_parse dbg feature self region = Some r \<and> (\<forall>sb ws. r = Inr (sb, ws) \<longrightarrow> addresses_fit sb))
    \<and> (\<exists>r. signature_parse sig region = Some r)"
  using returns_ref_parse [OF assms, of dbg feature self] returns_signature_parse [OF assms, of sig]
  by (auto simp: returns_def)

theorem superblock_read_total_witness:
  "(\<exists>r. ref_parse True True \<lparr>ar_start = 0, ar_end = 2\<rparr> (region_at 0 [137, 72]) = Some r)
   \<and> (\<exists>r. signature_parse 0 (region_at 0 [137, 72]) = Some r)"
  using superblock_read_total [of "region_at 0 [137, 72]" True True "\<lparr>ar_start = 0, ar_end = 2\<rparr>" 0]
  by (auto simp: u64_max_def)

primrec locator_nth :: "nat \<Rightarrow> superblock_locator option" where
  "locator_nth 0 = Some locator_new"
| "locator_nth (Suc n) = Option.bind (locator_nth n) locator_next"

text \<open>C30: the search for a superblock ends. The candidates are address 0 and the powers of two from
  512 to the largest that a 64-bit address holds, each once, and after them there is no next
  candidate.\<close>

theorem locator_search_ends:
  "locator_nth n = (if n = 0 then Some 0 else if n \<le> 55 then Some (512 * 2 ^ (n - 1)) else None)"
proof (induction n)
  case (Suc n)
  consider "n = 0" | "0 < n" "n \<le> 54" | "n = 55" | "55 < n" by linarith
  then show ?case
  proof cases
    case 2
    then have "512 * 2 ^ (n - 1) * 2 = (512 :: nat) * 2 ^ n" by (cases n) simp_all
    moreover have "(2 :: nat) ^ n \<le> 2 ^ 54" using 2 by (intro power_increasing) simp_all
    ultimately show ?thesis using Suc 2 by (simp add: locator_next_def checked_mul_def u64_max_def)
  next
    case 3
    then have "locator_nth n = Some 9223372036854775808" using Suc by simp
    then have "locator_nth (Suc n) = locator_next 9223372036854775808" by simp
    then show ?thesis unfolding 3 by (simp add: locator_next_def checked_mul_def u64_max_def del: locator_nth.simps)
  qed (use Suc in \<open>simp_all add: locator_new_def locator_next_def checked_mul_def u64_max_def\<close>)
qed (simp add: locator_new_def)

end
