(* ===== verification/Spec2Isabelle.thy ===== *)
theory Spec2Isabelle
  imports Free_List_Properties Admission_Properties Aggregator_Properties Persistence_Properties
    Checksum_Properties Format_Properties
begin

text \<open>
  A verification of the file-space layer of \<^verbatim>\<open>hdf5-pure\<close> and of the codecs of the metadata it stores.

  \<^bold>\<open>The program.\<close> The crate \<^verbatim>\<open>hdf5-pure-space\<close> decides which bytes of an HDF5 file are free and hands
  them out. Its base is \<^verbatim>\<open>FreeList\<close>, a list of disjoint extents with gaps between them and a cached
  total. \<^verbatim>\<open>IndexedFreeList\<close> is a faster form of the same list for batches of requests.
  \<^verbatim>\<open>TrackedSpace\<close> decides which returned extents are long enough to be tracked, the aggregators serve
  small requests from two windows at the end of the file, and \<^verbatim>\<open>ManagerSections\<close> divides the free
  extents among the managers that are stored in the file. The crate \<^verbatim>\<open>hdf5-pure-format\<close> encodes and
  decodes the metadata blocks: the superblock that every reader starts with, the File Space Info
  message that records the file-space settings and the addresses of the managers, and the messages
  of groups and attributes. The crate \<^verbatim>\<open>hdf5-pure-core\<close> has the value types both share. All paths
  below are in \<^verbatim>\<open>src/crates\<close>.

  \<^bold>\<open>Conventions.\<close> A \<^verbatim>\<open>u64\<close> is a natural number bounded by \<^const>\<open>u64_max\<close>, and each checked, saturating
  or truncating operation of the source is written out (\<open>Prelude\<close>). Words are used where the code
  works on bits: bytes are \<^typ>\<open>8 word\<close>, hash states \<^typ>\<open>32 word\<close>. A definition that may panic
  returns an option whose \<^const>\<open>None\<close> is the panic; a \<^verbatim>\<open>Result\<close> is a sum with the error on the left,
  and \<^const>\<open>try_bind\<close> is the operator \<^verbatim>\<open>?\<close>. The parameter \<open>dbg\<close> says whether debug assertions are
  compiled in and \<open>feature\<close> whether the feature \<^verbatim>\<open>checksum\<close> is. \<^verbatim>\<open>usize\<close> has 64 bits in the codecs.

  \<^bold>\<open>Free space.\<close>
  \<^item> \<open>Core_Types\<close> (\<^verbatim>\<open>hdf5-pure-core\<close>: quantities, widths, addresses, ranges, regions, settings),
    \<open>Extents\<close> (\<^verbatim>\<open>space/src/extent.rs\<close>), \<open>Requests\<close> (\<^verbatim>\<open>allocation.rs\<close>, requests of
    \<^verbatim>\<open>reservation.rs\<close>), \<open>Regions\<close> (the sets of bytes that lists of extents stand for).
  \<^item> \<open>Free_List\<close>, \<open>Free_List_Ops\<close>, \<open>Free_List_Ranges\<close> (\<^verbatim>\<open>list/mod.rs\<close>): one definition per method.
    The invariant \<^const>\<open>fl_inv\<close> says that the regions are sorted, separated by gaps and within the
    address space, and that the total is their sum. Two lists with the invariant and the same bytes
    are equal, which is how the equivalences are proved.
  \<^item> \<open>Indexed\<close> (\<^verbatim>\<open>list/indexed.rs\<close>): ordered sets are sorted lists; every operation refines the one of
    the plain list, except that a return that overlaps free space panics in every build, and on the
    plain list in debug builds only. \<open>Allocators\<close> states the contracts of an allocator and of a
    simulation as locales and interprets them on both.
  \<^item> \<open>Admission\<close> (\<^verbatim>\<open>admission/mod.rs\<close>, \<^verbatim>\<open>admission/batch.rs\<close>): the provided methods of
    \<^verbatim>\<open>TrackedSpace\<close> over any implementation, as a locale interpreted on both kinds of list;
    \<open>Admission_Batch\<close> (\<^verbatim>\<open>list/admission/mod.rs\<close>): the one-sweep batch. Both admit the least set of
    returned extents that is closed under being long enough or touching tracked space.
  \<^item> \<open>Aggregator\<close> (\<^verbatim>\<open>aggregator.rs\<close>): the windows, with the invariant \<^const>\<open>ca_inv\<close>. The bytes in use
    are those below the end of allocation that are in neither unused window.
  \<^item> \<open>Persistence\<close> (\<^verbatim>\<open>persistence.rs\<close>): the split at page boundaries and the division among managers.

  \<^bold>\<open>Format.\<close>
  \<^item> \<open>Bytes\<close> (\<^verbatim>\<open>format/src/width.rs\<close>, \<^verbatim>\<open>bytes.rs\<close>): little-endian fields and the cursor. The predicate
    \<^const>\<open>unread\<close> carries the round trips, and \<^const>\<open>returns\<close> the proofs that a parser ends without a
    panic and yields well-formed values.
  \<^item> \<open>Checksum\<close> (\<^verbatim>\<open>checksum.rs\<close>): the one-pass and the incremental lookup3 hash, related through the
    closed form \<^const>\<open>lookup3\<close>.
  \<^item> \<open>File_Space_Info\<close> (\<^verbatim>\<open>file_space_info.rs\<close>), \<open>Group_Messages\<close> (\<^verbatim>\<open>link_info.rs\<close>,
    \<^verbatim>\<open>attribute_info.rs\<close>, \<^verbatim>\<open>group_info.rs\<close>), \<open>Superblock\<close> (\<^verbatim>\<open>core/src/superblock.rs\<close>,
    \<^verbatim>\<open>format/src/superblock.rs\<close>).

  \<^bold>\<open>What is shown.\<close> The properties are in the theories whose names end in \<open>Properties\<close>.
  \<^item> Free lists: each operation adds or removes exactly the bytes it should, keeps the invariant,
    follows its placement policy, fails only if no placement exists, and panics exactly in the stated
    cases; sequences of allocations are disjoint; a batch on the indexed list gives what the debug
    build of the plain list gives, and what its release build gives unless the batch panics.
  \<^item> Admission: exactly the admissible extents are tracked by the default loop, which the index uses,
    and by the sweep, which the plain list uses and which lists the dropped ones in address order.
    The end of allocation is lowered past the free tail.
  \<^item> Aggregators: every byte below the end of allocation is accounted for along any history.
  \<^item> Managers: every free byte is in the manager that its class and its page call for.
  \<^item> Codecs: parsers are total, yield only values their fields can hold, and invert the writers; the
    incremental hash equals the one-pass hash; a checksum, trailing or inside the block, is accepted
    exactly if it is the hash of the rest, with the inner field zeroed; a written
    superblock is located and read back; the search for a superblock ends.

  \<^bold>\<open>Loops.\<close> There is no fuel. Loops are structural recursions, recursions with a measure (merging
  lists, the retry loop of admission, hashing blocks), or, for the loop of the incremental hash,
  a partial function that is proved to return.

  \<^bold>\<open>Not modelled.\<close> In \<^verbatim>\<open>hdf5-pure-space\<close>: the PAGE editor (\<^verbatim>\<open>paged\<close>), the snapshots and the session,
  which build on the lists, and the conversions of \<^verbatim>\<open>ManagerSections\<close> that take their values. In
  \<^verbatim>\<open>hdf5-pure-format\<close>: the record codecs of B-trees, heaps, arrays, object headers and datatypes, and
  the stored form of a free-space manager. The filters, which call external codecs or work on
  floating-point data, and the reader, writer and editor of the facade crate, which sequence file
  input and output. Work counters, accessors that only return a field, and the text that errors
  print are left out.
\<close>

end
